(* ===== verification/Refinement.thy ===== *)
theory Refinement
  imports Main
begin

text \<open>
  Functional refinement as an interface: the steps of an implementation, an invariant they keep, and
  an abstraction under which every step is a sequence of steps of a specification.  The replicated
  partition and the coordinator's assignment of partitions are instances.
\<close>

locale refinement =
  fixes step :: "'s \<Rightarrow> 's \<Rightarrow> bool"
    and inv :: "'s \<Rightarrow> bool"
    and astep :: "'a \<Rightarrow> 'a \<Rightarrow> bool"
    and abs :: "'s \<Rightarrow> 'a"
  assumes step_inv: "inv s \<Longrightarrow> step s t \<Longrightarrow> inv t"
    and step_abs: "inv s \<Longrightarrow> step s t \<Longrightarrow> astep\<^sup>*\<^sup>* (abs s) (abs t)"
begin

lemma run:
  assumes "step\<^sup>*\<^sup>* s t" "inv s"
  shows "inv t \<and> astep\<^sup>*\<^sup>* (abs s) (abs t)"
  using assms
proof (induction rule: rtranclp_induct)
  case (step t u)
  then show ?case using step_inv [of t u] step_abs [of t u] by (meson rtranclp_trans)
qed simp

text \<open>What the specification keeps, the implementation keeps.\<close>

lemma transfer:
  assumes "step\<^sup>*\<^sup>* s t" "inv s" "\<And>a b. astep a b \<Longrightarrow> P a \<Longrightarrow> P b" "P (abs s)"
  shows "P (abs t)"
proof -
  have "astep\<^sup>*\<^sup>* (abs s) (abs t)" using run [OF assms(1,2)] by simp
  then show ?thesis using assms(4) by (induction rule: rtranclp_induct) (auto intro: assms(3))
qed

end

end
