(* ===== verification/Go_Prelude.thy ===== *)
theory Go_Prelude
  imports Main "HOL-Library.AList" "HOL-Library.Word"
begin

text \<open>
  Shared vocabulary of the development: the fixed-width Go integers, Go maps, the error values
  of the program and the little-endian length header of the segment file.

  A Go \<open>int64\<close>, \<open>int32\<close> or \<open>uint32\<close> is an \<open>int\<close>; the conversion functions \<open>int64\<close>, \<open>int32\<close> and
  \<open>uint32\<close> below are the wrap-around of the language and are written wherever the source does
  arithmetic that could leave the range.  A Go \<open>string\<close> or \<open>[]byte\<close> is a list of \<open>char\<close>, HOL's
  8-bit character, so a nil slice and an empty slice are the same value.  A Go map is an
  association list with distinct keys whose order is the order a \<open>range\<close> visits.
\<close>

named_theorems go_int \<open>arithmetic of the fixed-width integers\<close>
named_theorems go_map \<open>lookups in updated Go maps\<close>
named_theorems go_list \<open>slices\<close>

type_synonym bytes = "char list"
type_synonym ('k, 'v) gomap = "('k \<times> 'v) list"

datatype code =
    InvalidArgument | NotFound | AlreadyExists | FailedPrecondition
  | Internal | Unavailable | Unknown | Canceled | DeadlineExceeded

datatype go_error =
    Status code
  | OffsetOutOfRange int int
  | TruncateOutOfRange int int
  | ReplicaOffsetMismatch int int
  | ErrNotLeader
  | IOError
  | ErrUnexpectedEOF
  | UnmarshalError
  | UnsupportedType
  | ContextErr
  | EndOfStream
  | GoPanic
  | OtherError string

type_synonym 'a result = "go_error + 'a"

definition int64 :: "int \<Rightarrow> int" where
  "int64 x = (x + 2 ^ 63) mod 2 ^ 64 - 2 ^ 63"

definition int32 :: "int \<Rightarrow> int" where
  "int32 x = (x + 2 ^ 31) mod 2 ^ 32 - 2 ^ 31"

definition uint32 :: "int \<Rightarrow> int" where
  "uint32 x = x mod 2 ^ 32"

definition is_int64 :: "int \<Rightarrow> bool" where
  "is_int64 x \<longleftrightarrow> - (2 ^ 63) \<le> x \<and> x < 2 ^ 63"

definition is_int32 :: "int \<Rightarrow> bool" where
  "is_int32 x \<longleftrightarrow> - (2 ^ 31) \<le> x \<and> x < 2 ^ 31"

text \<open>\<open>binary.LittleEndian\<close> on a \<open>uint32\<close>: four bytes, least significant first.\<close>

definition le32 :: "int \<Rightarrow> bytes" where
  "le32 n = [char_of n, char_of (n div 256), char_of (n div 65536), char_of (n div 16777216)]"

definition un_le32 :: "bytes \<Rightarrow> int" where
  "un_le32 bs = (case bs of
      [a, b, c, d] \<Rightarrow> of_char a + 256 * of_char b + 65536 * of_char c + 16777216 * of_char d
    | _ \<Rightarrow> 0)"

text \<open>A Go map: lookup, assignment, deletion and the keys in the order of a range.\<close>

abbreviation map_get :: "('k, 'v) gomap \<Rightarrow> 'k \<Rightarrow> 'v option" where
  "map_get m k \<equiv> map_of m k"

abbreviation map_put :: "'k \<Rightarrow> 'v \<Rightarrow> ('k, 'v) gomap \<Rightarrow> ('k, 'v) gomap" where
  "map_put k v m \<equiv> AList.update k v m"

abbreviation map_del :: "'k \<Rightarrow> ('k, 'v) gomap \<Rightarrow> ('k, 'v) gomap" where
  "map_del k m \<equiv> AList.delete k m"

abbreviation go_keys :: "('k, 'v) gomap \<Rightarrow> 'k list" where
  "go_keys m \<equiv> map fst m"

definition gomap_ok :: "('k, 'v) gomap \<Rightarrow> bool" where
  "gomap_ok m \<longleftrightarrow> distinct (go_keys m)"

text \<open>The monadic \<open>for\<close> over a slice that stops at the first error.\<close>

fun collect :: "('a \<Rightarrow> 'b result) \<Rightarrow> 'a list \<Rightarrow> 'b list result" where
  "collect f [] = Inr []"
| "collect f (x # xs) = (case f x of
      Inl e \<Rightarrow> Inl e
    | Inr y \<Rightarrow> (case collect f xs of Inl e \<Rightarrow> Inl e | Inr ys \<Rightarrow> Inr (y # ys)))"

section \<open>Fixed-width integers\<close>

lemma int64_id [go_int]: "is_int64 x \<Longrightarrow> int64 x = x"
  by (simp add: int64_def is_int64_def)

lemma int32_id [go_int]: "is_int32 x \<Longrightarrow> int32 x = x"
  by (simp add: int32_def is_int32_def)

lemma uint32_id [go_int]: "0 \<le> x \<Longrightarrow> x < 2 ^ 32 \<Longrightarrow> uint32 x = x"
  by (simp add: uint32_def)

lemma is_int64_int64 [simp]: "is_int64 (int64 x)"
  by (simp add: int64_def is_int64_def)

lemma is_int32_int32 [simp]: "is_int32 (int32 x)"
  by (simp add: int32_def is_int32_def)

lemma is_int64_of_nat [go_int]: "n < 2 ^ 63 \<Longrightarrow> is_int64 (int n)"
  by (simp add: is_int64_def)

lemma is_int64_0 [simp]: "is_int64 0" and is_int32_0 [simp]: "is_int32 0"
  by (simp_all add: is_int64_def is_int32_def)

section \<open>The length header\<close>

lemma length_le32 [simp]: "length (le32 n) = 4"
  by (simp add: le32_def)

lemma base256_digits:
  fixes k :: int
  assumes "0 \<le> k" "k < 4294967296"
  shows "k mod 256 + 256 * (k div 256 mod 256) + 65536 * (k div 65536 mod 256)
           + 16777216 * (k div 16777216 mod 256) = k"
proof -
  have "k div 16777216 mod 256 = k div 16777216" using assms by simp
  moreover have "k = k mod 256 + 256 * (k div 256)" by simp
  moreover have "k div 256 = k div 256 mod 256 + 256 * (k div 65536)"
    using zdiv_zmult2_eq [of 256 k 256] by simp
  moreover have "k div 65536 = k div 65536 mod 256 + 256 * (k div 16777216)"
    using zdiv_zmult2_eq [of 256 k 65536] by simp
  ultimately show ?thesis by linarith
qed

lemma un_le32_le32 [simp]:
  assumes "0 \<le> n" "n < 2 ^ 32"
  shows "un_le32 (le32 n) = n"
proof -
  have "un_le32 (le32 n) = n mod 256 + 256 * (n div 256 mod 256) + 65536 * (n div 65536 mod 256)
           + 16777216 * (n div 16777216 mod 256)"
    by (simp only: un_le32_def le32_def list.case of_char_of)
  also have "\<dots> = n" using assms by (intro base256_digits) simp_all
  finally show ?thesis .
qed

lemma of_char_less_256 [simp]: "of_char c < (256::nat)"
proof -
  have "of_char c mod (256::nat) < 256" by simp
  then show ?thesis by (simp only: of_char_mod_256)
qed

lemma of_char_int_nonneg [simp]: "0 \<le> (of_char c :: int)"
proof -
  have "0 \<le> of_char c mod (256::int)" by (rule pos_mod_sign) simp
  then show ?thesis by (simp only: of_char_mod_256)
qed

lemma un_le32_nonneg [simp]: "0 \<le> un_le32 bs"
  by (simp add: un_le32_def split: list.split)

section \<open>Go maps\<close>

lemma gomap_ok_Nil [simp]: "gomap_ok []"
  by (simp add: gomap_ok_def)

lemma gomap_ok_put [simp]: "gomap_ok m \<Longrightarrow> gomap_ok (map_put k v m)"
  by (simp add: gomap_ok_def distinct_update)

lemma gomap_ok_del [simp]: "gomap_ok m \<Longrightarrow> gomap_ok (map_del k m)"
  by (simp add: gomap_ok_def distinct_delete)

lemma map_get_put [go_map]: "map_get (map_put k v m) k' = (if k' = k then Some v else map_get m k')"
  by (simp add: update_conv')

lemma map_get_del [go_map]: "map_get (map_del k m) k' = (if k' = k then None else map_get m k')"
  by (simp add: delete_conv')

lemma map_get_in_set: "gomap_ok m \<Longrightarrow> map_get m k = Some v \<longleftrightarrow> (k, v) \<in> set m"
  by (simp add: gomap_ok_def)

lemma map_get_keys: "map_get m k \<noteq> None \<longleftrightarrow> k \<in> set (go_keys m)"
  by (simp add: map_of_eq_None_iff)

lemma list_all_put [intro]: "list_all P m \<Longrightarrow> P (k, v) \<Longrightarrow> list_all P (map_put k v m)"
  by (induction m) auto

lemma list_all_get: "list_all P m \<Longrightarrow> map_get m k = Some v \<Longrightarrow> P (k, v)"
  by (metis list_all_iff map_of_SomeD)

section \<open>Slices\<close>

lemma collect_Inr_map [go_list]:
  "(\<And>x. x \<in> set xs \<Longrightarrow> f x = Inr (g x)) \<Longrightarrow> collect f xs = Inr (map g xs)"
  by (induction xs) auto

lemma collect_map: "collect f (map g xs) = collect (\<lambda>x. f (g x)) xs"
  by (induction xs) (auto split: sum.splits)

lemma collect_length: "collect f xs = Inr ys \<Longrightarrow> length ys = length xs"
  by (induction xs arbitrary: ys) (auto split: sum.splits)

end
