(* ===== verification/Log_Spec.thy ===== *)
theory Log_Spec
  imports Go_Prelude
begin

text \<open>
  The \<^verbatim>\<open>log.Log\<close> interface (src/internal/log/log.go): the message type, what the six methods of an
  append-only partition log promise in terms of the list of messages it holds, and the locale
  \<open>partition_log\<close> that any implementation has to satisfy.  The lemmas in the locale are what the
  clients of the interface (the partition and the replication code) rely on; they are proved
  once here and hold of the in-memory log, of the file log and of the dispatching log.
\<close>

record message =
  msgTopic :: string
  msgPartition :: int
  msgKey :: bytes
  msgValue :: bytes
  msgOffset :: int

text \<open>Offset equals position: the message at index \<open>i\<close> carries offset \<open>i\<close>.\<close>

definition offsets_ok :: "message list \<Rightarrow> bool" where
  "offsets_ok ms \<longleftrightarrow> map msgOffset ms = map int [0..<length ms]"

definition spec_append :: "message list \<Rightarrow> message \<Rightarrow> message list \<times> int result" where
  "spec_append ms m = (ms @ [m\<lparr>msgOffset := int (length ms)\<rparr>], Inr (int (length ms)))"

definition spec_append_replica :: "message list \<Rightarrow> message \<Rightarrow> message list \<times> unit result" where
  "spec_append_replica ms m =
     (if msgOffset m = int (length ms) then (ms @ [m], Inr ())
      else (ms, Inl (ReplicaOffsetMismatch (int (length ms)) (msgOffset m))))"

text \<open>
  \<open>Read\<close> clamps \<open>offset + maxMsgs\<close>, computed in \<open>int64\<close>, to the end of the log; a slice of
  negative length makes the Go runtime panic.
\<close>

definition spec_read :: "message list \<Rightarrow> int \<Rightarrow> int \<Rightarrow> message list result" where
  "spec_read ms off maxMsgs =
     (if off < 0 \<or> int (length ms) < off then Inl (OffsetOutOfRange off (int (length ms)))
      else let e = min (int64 (off + maxMsgs)) (int (length ms))
           in if e < off then Inl GoPanic
              else Inr (take (nat (e - off)) (drop (nat off) ms)))"

definition spec_truncate :: "message list \<Rightarrow> int \<Rightarrow> message list \<times> unit result" where
  "spec_truncate ms off =
     (if off < 0 \<or> int (length ms) < off then (ms, Inl (TruncateOutOfRange off (int (length ms))))
      else (take (nat off) ms, Inr ()))"

text \<open>
  A sequence of calls on one log and the list of what each call returned.  The function is
  higher order in the five methods, as a Go interface value is.
\<close>

datatype log_op =
    OpAppend message
  | OpAppendReplica message
  | OpRead int int
  | OpLen
  | OpTruncate int

datatype log_res =
    ResOffset "int result"
  | ResUnit "unit result"
  | ResMsgs "message list result"
  | ResLen int

fun run_log :: "('l \<Rightarrow> message \<Rightarrow> 'l \<times> int result) \<Rightarrow> ('l \<Rightarrow> message \<Rightarrow> 'l \<times> unit result) \<Rightarrow>
    ('l \<Rightarrow> int \<Rightarrow> int \<Rightarrow> message list result) \<Rightarrow> ('l \<Rightarrow> int) \<Rightarrow> ('l \<Rightarrow> int \<Rightarrow> 'l \<times> unit result) \<Rightarrow>
    'l \<Rightarrow> log_op list \<Rightarrow> 'l \<times> log_res list" where
  "run_log app rep rd len trunc l [] = (l, [])"
| "run_log app rep rd len trunc l (op # ops) =
     (let (l', r) = (case op of
          OpAppend m \<Rightarrow> (let (l1, x) = app l m in (l1, ResOffset x))
        | OpAppendReplica m \<Rightarrow> (let (l1, x) = rep l m in (l1, ResUnit x))
        | OpRead off n \<Rightarrow> (l, ResMsgs (rd l off n))
        | OpLen \<Rightarrow> (l, ResLen (len l))
        | OpTruncate off \<Rightarrow> (let (l1, x) = trunc l off in (l1, ResUnit x)));
        (l'', rs) = run_log app rep rd len trunc l' ops
      in (l'', r # rs))"

definition spec_run :: "message list \<Rightarrow> log_op list \<Rightarrow> message list \<times> log_res list" where
  "spec_run = run_log spec_append spec_append_replica spec_read (\<lambda>ms. int (length ms)) spec_truncate"

text \<open>Every message a sequence of calls stores satisfies \<open>P\<close> at the offset it is stored at.\<close>

fun ops_within :: "(message \<Rightarrow> bool) \<Rightarrow> message list \<Rightarrow> log_op list \<Rightarrow> bool" where
  "ops_within P ms [] = True"
| "ops_within P ms (op # ops) =
     (case op of
        OpAppend m \<Rightarrow> P (m\<lparr>msgOffset := int (length ms)\<rparr>) \<and> ops_within P (fst (spec_append ms m)) ops
      | OpAppendReplica m \<Rightarrow>
          (msgOffset m = int (length ms) \<longrightarrow> P m) \<and> ops_within P (fst (spec_append_replica ms m)) ops
      | OpRead off n \<Rightarrow> ops_within P ms ops
      | OpLen \<Rightarrow> ops_within P ms ops
      | OpTruncate off \<Rightarrow> ops_within P (fst (spec_truncate ms off)) ops)"

section \<open>Lists of messages with their offsets\<close>

lemma offsets_ok_Nil [simp]: "offsets_ok []"
  by (simp add: offsets_ok_def)

lemma offsets_ok_snoc [simp]:
  "offsets_ok (ms @ [m]) \<longleftrightarrow> offsets_ok ms \<and> msgOffset m = int (length ms)"
  by (auto simp: offsets_ok_def)

lemma offsets_ok_nth: "offsets_ok ms \<Longrightarrow> i < length ms \<Longrightarrow> msgOffset (ms ! i) = int i"
  unfolding offsets_ok_def by (metis add_0 length_map length_upt minus_nat.diff_0 nth_map nth_upt)

lemma offsets_ok_take [simp]:
  assumes "offsets_ok ms"
  shows "offsets_ok (take k ms)"
proof -
  have "map msgOffset (take k ms) = take k (map int [0..<length ms])"
    using assms by (simp add: offsets_ok_def take_map [symmetric])
  also have "\<dots> = map int [0..<length (take k ms)]"
    by (simp add: take_map min_def)
  finally show ?thesis by (simp add: offsets_ok_def)
qed

lemma offsets_ok_spec_append: "offsets_ok ms \<Longrightarrow> offsets_ok (fst (spec_append ms m))"
  by (simp add: spec_append_def)

lemma offsets_ok_spec_append_replica: "offsets_ok ms \<Longrightarrow> offsets_ok (fst (spec_append_replica ms m))"
  by (simp add: spec_append_replica_def)

lemma offsets_ok_spec_truncate: "offsets_ok ms \<Longrightarrow> offsets_ok (fst (spec_truncate ms off))"
  by (simp add: spec_truncate_def)

lemmas offsets_ok_spec [simp] =
  offsets_ok_spec_append offsets_ok_spec_append_replica offsets_ok_spec_truncate

lemma spec_read_in_range:
  assumes "0 \<le> off" "off \<le> int (length ms)" "0 \<le> n" "off + n < 2 ^ 63"
  shows "spec_read ms off n = Inr (take (nat n) (drop (nat off) ms))"
proof -
  have "int64 (off + n) = off + n" using assms by (simp add: int64_id is_int64_def)
  moreover have "take (nat (min (off + n) (int (length ms)) - off)) (drop (nat off) ms)
      = take (nat n) (drop (nat off) ms)"
    using assms by (simp add: take_all_iff min_def nat_le_iff)
  ultimately show ?thesis using assms by (simp add: spec_read_def Let_def)
qed

lemma spec_read_Inr:
  assumes "spec_read ms off n = Inr xs"
  shows "0 \<le> off" "off \<le> int (length ms)" "\<exists>k. xs = take k (drop (nat off) ms)"
  using assms by (auto simp: spec_read_def Let_def split: if_splits)

lemma spec_read_nth:
  assumes "spec_read ms off n = Inr xs" "i < length xs"
  shows "xs ! i = ms ! (nat off + i)" "nat off + i < length ms"
  using spec_read_Inr [OF assms(1)] assms(2) by auto

section \<open>The interface\<close>

locale partition_log =
  fixes app :: "'l \<Rightarrow> message \<Rightarrow> 'l \<times> int result"
    and rep :: "'l \<Rightarrow> message \<Rightarrow> 'l \<times> unit result"
    and rd :: "'l \<Rightarrow> int \<Rightarrow> int \<Rightarrow> message list result"
    and len :: "'l \<Rightarrow> int"
    and trunc :: "'l \<Rightarrow> int \<Rightarrow> 'l \<times> unit result"
    and msgs :: "'l \<Rightarrow> message list"
    and invar :: "'l \<Rightarrow> bool"
    and storable :: "'l \<Rightarrow> message \<Rightarrow> bool"
  assumes invar_offsets: "invar l \<Longrightarrow> offsets_ok (msgs l)"
    and len_msgs: "invar l \<Longrightarrow> len l = int (length (msgs l))"
    and rd_msgs: "invar l \<Longrightarrow> rd l off n = spec_read (msgs l) off n"
    and app_msgs: "invar l \<Longrightarrow> storable l (m\<lparr>msgOffset := int (length (msgs l))\<rparr>) \<Longrightarrow>
      map_prod msgs id (app l m) = spec_append (msgs l) m"
    and app_invar: "invar l \<Longrightarrow> storable l (m\<lparr>msgOffset := int (length (msgs l))\<rparr>) \<Longrightarrow>
      invar (fst (app l m))"
    and rep_msgs: "invar l \<Longrightarrow> (msgOffset m = int (length (msgs l)) \<Longrightarrow> storable l m) \<Longrightarrow>
      map_prod msgs id (rep l m) = spec_append_replica (msgs l) m"
    and rep_invar: "invar l \<Longrightarrow> (msgOffset m = int (length (msgs l)) \<Longrightarrow> storable l m) \<Longrightarrow>
      invar (fst (rep l m))"
    and trunc_msgs: "invar l \<Longrightarrow> map_prod msgs id (trunc l off) = spec_truncate (msgs l) off"
    and trunc_invar: "invar l \<Longrightarrow> invar (fst (trunc l off))"
    and storable_app: "storable (fst (app l m)) = storable l"
    and storable_rep: "storable (fst (rep l m)) = storable l"
    and storable_trunc: "storable (fst (trunc l off)) = storable l"
begin

lemmas storable_stable = storable_app storable_rep storable_trunc

lemma app_result:
  assumes "invar l" "storable l (m\<lparr>msgOffset := int (length (msgs l))\<rparr>)"
  shows "msgs (fst (app l m)) = msgs l @ [m\<lparr>msgOffset := int (length (msgs l))\<rparr>]"
    and "snd (app l m) = Inr (int (length (msgs l)))"
  using app_msgs [OF assms] by (cases "app l m"; simp add: spec_append_def)+

lemma rep_result:
  assumes "invar l" "msgOffset m = int (length (msgs l)) \<Longrightarrow> storable l m"
  shows "msgs (fst (rep l m)) = fst (spec_append_replica (msgs l) m)"
    and "snd (rep l m) = snd (spec_append_replica (msgs l) m)"
  using rep_msgs [OF assms] by (cases "rep l m"; cases "spec_append_replica (msgs l) m"; simp)+

lemma trunc_result:
  assumes "invar l"
  shows "msgs (fst (trunc l off)) = fst (spec_truncate (msgs l) off)"
    and "snd (trunc l off) = snd (spec_truncate (msgs l) off)"
  using trunc_msgs [OF assms, of off]
  by (cases "trunc l off"; cases "spec_truncate (msgs l) off"; simp)+

lemma read_own_append:
  assumes "invar l" "storable l (m\<lparr>msgOffset := int (length (msgs l))\<rparr>)" "int (length (msgs l)) < 2 ^ 62"
  shows "rd (fst (app l m)) (len l) 1 = Inr [m\<lparr>msgOffset := len l\<rparr>]"
  using assms app_invar [OF assms(1,2)]
  by (simp add: rd_msgs app_result len_msgs spec_read_in_range)

lemma append_keeps_earlier_reads:
  assumes "invar l" "storable l (m\<lparr>msgOffset := int (length (msgs l))\<rparr>)"
    and "0 \<le> off" "0 \<le> n" "off + n \<le> len l" "int (length (msgs l)) < 2 ^ 62"
  shows "rd (fst (app l m)) off n = rd l off n"
proof -
  have le: "off + n \<le> int (length (msgs l))" using assms(1,5) by (simp add: len_msgs)
  then have "nat n \<le> length (msgs l) - nat off" using assms(3,4) by linarith
  then show ?thesis
    using assms le app_invar [OF assms(1,2)]
    by (simp add: rd_msgs app_result spec_read_in_range)
qed

lemma read_offsets:
  assumes "invar l" "rd l off n = Inr xs" "i < length xs"
  shows "msgOffset (xs ! i) = off + int i"
proof -
  have r: "spec_read (msgs l) off n = Inr xs" using assms(1,2) by (simp add: rd_msgs)
  from spec_read_nth [OF r assms(3)] spec_read_Inr(1) [OF r] invar_offsets [OF assms(1)]
  show ?thesis by (simp add: offsets_ok_nth)
qed

lemma read_from_log:
  assumes "invar l" "rd l off n = Inr xs" "i < length xs"
  shows "xs ! i = msgs l ! (nat off + i)" "nat off + i < length (msgs l)"
  using spec_read_nth [of "msgs l" off n xs i] assms by (simp_all add: rd_msgs)

lemma run_spec:
  assumes "invar l" "ops_within (storable l) (msgs l) ops"
  shows "map_prod msgs id (run_log app rep rd len trunc l ops) = spec_run (msgs l) ops
    \<and> invar (fst (run_log app rep rd len trunc l ops))"
  using assms
proof (induction ops arbitrary: l)
  case Nil
  then show ?case by (simp add: spec_run_def)
next
  case (Cons op ops)
  show ?case
  proof (cases op)
    case (OpAppend m)
    with Cons.prems have st: "storable l (m\<lparr>msgOffset := int (length (msgs l))\<rparr>)" by simp
    note step = Cons.IH [OF app_invar [OF Cons.prems(1) st]]
    show ?thesis
      using OpAppend Cons.prems app_msgs [OF Cons.prems(1) st] step
      by (auto simp: spec_run_def storable_app app_result [OF Cons.prems(1) st] spec_append_def
          map_prod_def split: prod.splits)
  next
    case (OpAppendReplica m)
    with Cons.prems have st: "msgOffset m = int (length (msgs l)) \<Longrightarrow> storable l m" by simp
    note step = Cons.IH [OF rep_invar [OF Cons.prems(1) st]]
    show ?thesis
      using OpAppendReplica Cons.prems rep_result [OF Cons.prems(1) st] step
      by (auto simp: spec_run_def storable_rep map_prod_def split: prod.splits)
  next
    case (OpRead off n)
    then show ?thesis
      using Cons.prems Cons.IH [OF Cons.prems(1)]
      by (auto simp: spec_run_def rd_msgs map_prod_def split: prod.splits)
  next
    case OpLen
    then show ?thesis
      using Cons.prems Cons.IH [OF Cons.prems(1)]
      by (auto simp: spec_run_def len_msgs map_prod_def split: prod.splits)
  next
    case (OpTruncate off)
    then show ?thesis
      using Cons.prems trunc_result [OF Cons.prems(1), of off]
        Cons.IH [OF trunc_invar [OF Cons.prems(1), of off]]
      by (auto simp: spec_run_def storable_trunc map_prod_def split: prod.splits)
  qed
qed

end

end
