(* ===== verification/Mem_Log.thy ===== *)
theory Mem_Log
  imports Log_Spec
begin

text \<open>
  \<^verbatim>\<open>MemLog\<close> of src/internal/log/log.go: the log kept in a slice of messages.  Every method holds the
  log's own mutex for its whole body, so each is one function here.  The messages are fresh
  objects (\<^verbatim>\<open>Broker.Produce\<close> builds one per request, a replica receives one per record), so the
  pointers of the slice are modelled by the values they point to.
\<close>

record mem_log =
  memMsgs :: "message list"

definition MemLog_new :: mem_log where
  "MemLog_new = \<lparr>memMsgs = []\<rparr>"

definition MemLog_Append :: "mem_log \<Rightarrow> message \<Rightarrow> mem_log \<times> int result" where
  "MemLog_Append l msg =
     (let offset = int (length (memMsgs l));
          msg = msg\<lparr>msgOffset := offset\<rparr>
      in (l\<lparr>memMsgs := memMsgs l @ [msg]\<rparr>, Inr offset))"

definition MemLog_AppendReplica :: "mem_log \<Rightarrow> message \<Rightarrow> mem_log \<times> unit result" where
  "MemLog_AppendReplica l msg =
     (let offset = int (length (memMsgs l))
      in if msgOffset msg \<noteq> offset then (l, Inl (ReplicaOffsetMismatch offset (msgOffset msg)))
         else (l\<lparr>memMsgs := memMsgs l @ [msg]\<rparr>, Inr ()))"

definition MemLog_Read :: "mem_log \<Rightarrow> int \<Rightarrow> int \<Rightarrow> message list result" where
  "MemLog_Read l offset maxMsgs =
     (let n = int (length (memMsgs l))
      in if offset < 0 \<or> offset > n then Inl (OffsetOutOfRange offset n)
         else let endd = int64 (offset + maxMsgs);
                  endd = (if endd > n then n else endd)
              in if endd - offset < 0 then Inl GoPanic
                 else Inr (take (nat (endd - offset)) (drop (nat offset) (memMsgs l))))"

definition MemLog_Len :: "mem_log \<Rightarrow> int" where
  "MemLog_Len l = int (length (memMsgs l))"

definition MemLog_LogEndOffset :: "mem_log \<Rightarrow> int" where
  "MemLog_LogEndOffset l = MemLog_Len l"

definition MemLog_TruncateTo :: "mem_log \<Rightarrow> int \<Rightarrow> mem_log \<times> unit result" where
  "MemLog_TruncateTo l offset =
     (if offset < 0 \<or> offset > int (length (memMsgs l))
      then (l, Inl (TruncateOutOfRange offset (int (length (memMsgs l)))))
      else (l\<lparr>memMsgs := take (nat offset) (memMsgs l)\<rparr>, Inr ()))"

definition mem_invar :: "mem_log \<Rightarrow> bool" where
  "mem_invar l \<longleftrightarrow> offsets_ok (memMsgs l)"

lemmas MemLog_defs =
  MemLog_Append_def MemLog_AppendReplica_def MemLog_Read_def MemLog_Len_def
  MemLog_LogEndOffset_def MemLog_TruncateTo_def

interpretation mlog: partition_log MemLog_Append MemLog_AppendReplica MemLog_Read MemLog_Len
  MemLog_TruncateTo memMsgs mem_invar "\<lambda>_ _. True"
proof (unfold_locales, goal_cases)
  case (3 l off n)
  show ?case
    by (simp add: MemLog_Read_def spec_read_def Let_def min_def)
qed (auto simp: mem_invar_def MemLog_defs spec_append_def spec_append_replica_def
      spec_truncate_def Let_def)

lemma mem_invar_new [simp]: "mem_invar MemLog_new"
  by (simp add: mem_invar_def MemLog_new_def)

end
