(* ===== verification/Json_Record.thy ===== *)
theory Json_Record
  imports Go_Prelude "HOL-Library.Monad_Syntax"
begin

text \<open>
  The \<^verbatim>\<open>encoding/json\<close> form of \<^verbatim>\<open>messageRecord\<close> (src/internal/log/file_log.go): what \<^verbatim>\<open>json.Marshal\<close>
  writes for the struct, byte for byte, and the decoder for texts of that shape.  Strings are
  escaped as Go does (quotes, backslash, control characters, the HTML characters, U+2028 and
  U+2029, and U+FFFD for bytes that are not UTF-8), byte slices are standard base64, an empty key
  is left out (\<open>omitempty\<close>) and an empty value is \<open>null\<close>, as a nil slice is.  The decoder accepts
  the fields in the order Marshal writes them and without white space, which is the only text the
  file log ever stores; on any other text it returns an error.
\<close>

record messageRecord =
  recTopic :: string
  recPartition :: int
  recKey :: bytes
  recValue :: bytes
  recOffset :: int

abbreviation quo :: char where
  "quo \<equiv> CHR 0x22"

abbreviation bsl :: char where
  "bsl \<equiv> CHR 0x5C"

definition digit :: "nat \<Rightarrow> char" where
  "digit n = char_of (48 + n)"

definition digit_val :: "char \<Rightarrow> nat option" where
  "digit_val c = (let n = of_char c in if 48 \<le> n \<and> n \<le> 57 then Some (n - 48) else None)"

fun nat_dec :: "nat \<Rightarrow> bytes" where
  "nat_dec n = (if n < 10 then [digit n] else nat_dec (n div 10) @ [digit (n mod 10)])"

declare nat_dec.simps [simp del]

definition int_dec :: "int \<Rightarrow> bytes" where
  "int_dec i = (if i < 0 then CHR ''-'' # nat_dec (nat (- i)) else nat_dec (nat i))"

definition is_digit :: "char \<Rightarrow> bool" where
  "is_digit c \<longleftrightarrow> digit_val c \<noteq> None"

definition dec_val :: "bytes \<Rightarrow> nat" where
  "dec_val ds = foldl (\<lambda>n c. 10 * n + the (digit_val c)) 0 ds"

definition parse_nat :: "bytes \<Rightarrow> (nat \<times> bytes) option" where
  "parse_nat s = (if takeWhile is_digit s = [] then None
     else Some (dec_val (takeWhile is_digit s), dropWhile is_digit s))"

definition parse_int :: "bytes \<Rightarrow> (int \<times> bytes) option" where
  "parse_int s = (case s of
      [] \<Rightarrow> None
    | c # r \<Rightarrow> if c = CHR ''-'' then map_option (apfst (\<lambda>n. - int n)) (parse_nat r)
               else map_option (apfst int) (parse_nat s))"

subsection \<open>Strings\<close>

definition hex_digit :: "nat \<Rightarrow> char" where
  "hex_digit n = (if n < 10 then char_of (48 + n) else char_of (87 + n))"

definition hex_val :: "char \<Rightarrow> nat option" where
  "hex_val c = (let n = of_char c in
     if 48 \<le> n \<and> n \<le> 57 then Some (n - 48)
     else if 97 \<le> n \<and> n \<le> 102 then Some (n - 87)
     else if 65 \<le> n \<and> n \<le> 70 then Some (n - 55)
     else None)"

definition u_escape :: "nat \<Rightarrow> bytes" where
  "u_escape n = [bsl, CHR ''u'', hex_digit (n div 4096), hex_digit (n div 256 mod 16),
     hex_digit (n div 16 mod 16), hex_digit (n mod 16)]"

definition hex4 :: "char \<Rightarrow> char \<Rightarrow> char \<Rightarrow> char \<Rightarrow> nat option" where
  "hex4 a b c d = do {
     w \<leftarrow> hex_val a; x \<leftarrow> hex_val b; y \<leftarrow> hex_val c; z \<leftarrow> hex_val d;
     Some (4096 * w + 256 * x + 16 * y + z) }"

definition utf8_char :: "nat \<Rightarrow> bytes" where
  "utf8_char n =
     (if n < 128 then [char_of n]
      else if n < 2048 then [char_of (192 + n div 64), char_of (128 + n mod 64)]
      else [char_of (224 + n div 4096), char_of (128 + n div 64 mod 64), char_of (128 + n mod 64)])"

definition cont_byte :: "nat \<Rightarrow> nat \<Rightarrow> char \<Rightarrow> bool" where
  "cont_byte lo hi c \<longleftrightarrow> lo \<le> of_char c \<and> of_char c \<le> hi"

text \<open>
  The length of the UTF-8 sequence a non-ASCII byte string starts with, 0 when it is not valid
  (\<^verbatim>\<open>utf8.DecodeRune\<close> then returns \<open>RuneError\<close> with width 1).
\<close>

definition rune_width :: "nat \<Rightarrow> nat" where
  "rune_width n =
     (if 194 \<le> n \<and> n \<le> 223 then 2 else if 224 \<le> n \<and> n \<le> 239 then 3
      else if 240 \<le> n \<and> n \<le> 244 then 4 else 0)"

definition rune_len :: "bytes \<Rightarrow> nat" where
  "rune_len bs = (case bs of
      [] \<Rightarrow> 0
    | a # r \<Rightarrow> (let n = of_char a; k = rune_width n in
        if k \<noteq> 0 \<and> k - 1 \<le> length r
           \<and> list_all (cont_byte 128 191) (take (k - 1) r)
           \<and> cont_byte (if n = 224 then 160 else if n = 240 then 144 else 128)
                (if n = 237 then 159 else if n = 244 then 143 else 191) (hd r)
        then k else 0))"

definition esc_ascii :: "char \<Rightarrow> bytes" where
  "esc_ascii c =
     (if c = quo then [bsl, quo]
      else if c = bsl then [bsl, bsl]
      else if c = CHR 0x08 then [bsl, CHR ''b'']
      else if c = CHR 0x0C then [bsl, CHR ''f'']
      else if c = CHR 0x0A then [bsl, CHR ''n'']
      else if c = CHR 0x0D then [bsl, CHR ''r'']
      else if c = CHR 0x09 then [bsl, CHR ''t'']
      else if (of_char c :: nat) < 32 \<or> c = CHR ''<'' \<or> c = CHR ''>'' \<or> c = CHR ''&''
        then u_escape (of_char c)
      else [c])"

function (sequential) esc_string :: "bytes \<Rightarrow> bytes" where
  "esc_string [] = []"
| "esc_string (c # r) =
     (if (of_char c :: nat) < 128 then esc_ascii c @ esc_string r
      else let k = rune_len (c # r) in
        if k = 0 then u_escape 65533 @ esc_string r
        else if k = 3 \<and> take 3 (c # r) = utf8_char 8232 then u_escape 8232 @ esc_string (drop 2 r)
        else if k = 3 \<and> take 3 (c # r) = utf8_char 8233 then u_escape 8233 @ esc_string (drop 2 r)
        else take k (c # r) @ esc_string (drop (k - 1) r))"
  by pat_completeness auto
termination
  by (relation "measure length") auto

text \<open>The strings \<open>esc_string\<close> keeps: valid UTF-8.\<close>

function (sequential) utf8_valid :: "bytes \<Rightarrow> bool" where
  "utf8_valid [] = True"
| "utf8_valid (c # r) =
     (if (of_char c :: nat) < 128 then utf8_valid r
      else rune_len (c # r) \<noteq> 0 \<and> utf8_valid (drop (rune_len (c # r) - 1) r))"
  by pat_completeness auto
termination
  by (relation "measure length") auto

definition unescape :: "char \<Rightarrow> char option" where
  "unescape e =
     (if e = quo \<or> e = bsl \<or> e = CHR ''/'' then Some e
      else if e = CHR ''b'' then Some (CHR 0x08)
      else if e = CHR ''f'' then Some (CHR 0x0C)
      else if e = CHR ''n'' then Some (CHR 0x0A)
      else if e = CHR ''r'' then Some (CHR 0x0D)
      else if e = CHR ''t'' then Some (CHR 0x09)
      else None)"

text \<open>The rest of a string literal after its opening quote, and what follows it.\<close>

definition prepend :: "bytes \<Rightarrow> (bytes \<times> bytes) option \<Rightarrow> (bytes \<times> bytes) option" where
  "prepend p x = map_option (\<lambda>(t, rest). (p @ t, rest)) x"

fun parse_string :: "bytes \<Rightarrow> (bytes \<times> bytes) option" where
  "parse_string [] = None"
| "parse_string (c # r) =
     (if c = quo then Some ([], r)
      else if c = bsl then
        (case r of
           [] \<Rightarrow> None
         | e # r1 \<Rightarrow>
            if e = CHR ''u'' then
              (case r1 of
                 h1 # h2 # h3 # h4 # r2 \<Rightarrow>
                   (case hex4 h1 h2 h3 h4 of
                      None \<Rightarrow> None
                    | Some n \<Rightarrow> prepend (utf8_char n) (parse_string r2))
               | _ \<Rightarrow> None)
            else (case unescape e of
                    None \<Rightarrow> None
                  | Some x \<Rightarrow> prepend [x] (parse_string r1)))
      else if (of_char c :: nat) < 32 then None
      else prepend [c] (parse_string r))"

subsection \<open>Byte slices\<close>

definition b64_char :: "nat \<Rightarrow> char" where
  "b64_char n =
     (if n < 26 then char_of (65 + n) else if n < 52 then char_of (71 + n)
      else if n < 62 then char_of (n - 4) else if n = 62 then CHR ''+'' else CHR ''/'')"

definition b64_val :: "char \<Rightarrow> nat option" where
  "b64_val c = (let n = of_char c in
     if 65 \<le> n \<and> n \<le> 90 then Some (n - 65)
     else if 97 \<le> n \<and> n \<le> 122 then Some (n - 71)
     else if 48 \<le> n \<and> n \<le> 57 then Some (n + 4)
     else if c = CHR ''+'' then Some 62 else if c = CHR ''/'' then Some 63 else None)"

abbreviation pad :: char where
  "pad \<equiv> CHR ''=''"

fun b64_encode :: "bytes \<Rightarrow> bytes" where
  "b64_encode [] = []"
| "b64_encode [a] = (let x = of_char a in [b64_char (x div 4), b64_char (x mod 4 * 16), pad, pad])"
| "b64_encode [a, b] = (let x = of_char a; y = of_char b in
     [b64_char (x div 4), b64_char (x mod 4 * 16 + y div 16), b64_char (y mod 16 * 4), pad])"
| "b64_encode (a # b # c # r) = (let x = of_char a; y = of_char b; z = of_char c in
     [b64_char (x div 4), b64_char (x mod 4 * 16 + y div 16),
      b64_char (y mod 16 * 4 + z div 64), b64_char (z mod 64)] @ b64_encode r)"

fun b64_decode :: "bytes \<Rightarrow> bytes option" where
  "b64_decode [] = Some []"
| "b64_decode (p # q # r # s # rest) =
     (if r = pad then
        (if s = pad \<and> rest = [] then do {
           w \<leftarrow> b64_val p; x \<leftarrow> b64_val q; Some [char_of (4 * w + x div 16)] } else None)
      else if s = pad then
        (if rest = [] then do {
           w \<leftarrow> b64_val p; x \<leftarrow> b64_val q; y \<leftarrow> b64_val r;
           Some [char_of (4 * w + x div 16), char_of (16 * x + y div 4)] } else None)
      else do {
        w \<leftarrow> b64_val p; x \<leftarrow> b64_val q; y \<leftarrow> b64_val r; z \<leftarrow> b64_val s; t \<leftarrow> b64_decode rest;
        Some ([char_of (4 * w + x div 16), char_of (16 * x + y div 4), char_of (64 * y + z)] @ t) })"
| "b64_decode _ = None"

subsection \<open>The struct\<close>

definition json_field :: "string \<Rightarrow> bytes" where
  "json_field name = quo # name @ [quo, CHR '':'']"

definition json_bytes :: "bytes \<Rightarrow> bytes" where
  "json_bytes bs = quo # b64_encode bs @ [quo]"

definition json_Marshal :: "messageRecord \<Rightarrow> bytes" where
  "json_Marshal r =
     CHR ''{'' # json_field ''topic'' @ quo # esc_string (recTopic r) @ quo #
     CHR '','' # json_field ''partition'' @ int_dec (recPartition r) @
     (if recKey r = [] then [] else CHR '','' # json_field ''key'' @ json_bytes (recKey r)) @
     CHR '','' # json_field ''value'' @
     (if recValue r = [] then ''null'' else json_bytes (recValue r)) @
     CHR '','' # json_field ''offset'' @ int_dec (recOffset r) @ ''}''"

definition strip :: "bytes \<Rightarrow> bytes \<Rightarrow> bytes option" where
  "strip p s = (if take (length p) s = p then Some (drop (length p) s) else None)"

definition parse_bytes :: "bytes \<Rightarrow> (bytes \<times> bytes) option" where
  "parse_bytes s = do { (b, s') \<leftarrow> parse_string s; v \<leftarrow> b64_decode b; Some (v, s') }"

definition parse_key :: "bytes \<Rightarrow> (bytes \<times> bytes) option" where
  "parse_key s = (case strip (CHR '','' # json_field ''key'' @ [quo]) s of
      None \<Rightarrow> Some ([], s) | Some s' \<Rightarrow> parse_bytes s')"

definition parse_value :: "bytes \<Rightarrow> (bytes \<times> bytes) option" where
  "parse_value s = (case strip ''null'' s of
      Some s' \<Rightarrow> Some ([], s')
    | None \<Rightarrow> do { s' \<leftarrow> strip [quo] s; parse_bytes s' })"

definition json_Unmarshal :: "bytes \<Rightarrow> messageRecord result" where
  "json_Unmarshal s0 =
     (case do {
        s1 \<leftarrow> strip (CHR ''{'' # json_field ''topic'' @ [quo]) s0;
        (t, s2) \<leftarrow> parse_string s1;
        s3 \<leftarrow> strip (CHR '','' # json_field ''partition'') s2;
        (p, s4) \<leftarrow> parse_int s3;
        (k, s5) \<leftarrow> parse_key s4;
        s6 \<leftarrow> strip (CHR '','' # json_field ''value'') s5;
        (v, s7) \<leftarrow> parse_value s6;
        s8 \<leftarrow> strip (CHR '','' # json_field ''offset'') s7;
        (n, s9) \<leftarrow> parse_int s8;
        if s9 = ''}'' \<and> is_int32 p \<and> is_int64 n
        then Some \<lparr>recTopic = t, recPartition = p, recKey = k, recValue = v, recOffset = n\<rparr>
        else None }
      of None \<Rightarrow> Inl UnmarshalError | Some r \<Rightarrow> Inr r)"

text \<open>The records that survive a round trip: a UTF-8 topic and numbers of their Go width.\<close>

definition record_ok :: "messageRecord \<Rightarrow> bool" where
  "record_ok r \<longleftrightarrow> utf8_valid (recTopic r) \<and> is_int32 (recPartition r) \<and> is_int64 (recOffset r)"


text \<open>A number literal ends where no further digit follows.\<close>

definition no_digit_ahead :: "bytes \<Rightarrow> bool" where
  "no_digit_ahead rest \<longleftrightarrow> (case rest of [] \<Rightarrow> True | c # _ \<Rightarrow> \<not> is_digit c)"

section \<open>Decimal numbers\<close>

lemma digit_val_digit [simp]: "n < 10 \<Longrightarrow> digit_val (digit n) = Some n"
  by (simp add: digit_val_def digit_def Let_def)

lemma nat_dec_nonempty [simp]: "nat_dec n \<noteq> []"
  by (subst nat_dec.simps) simp

lemma nat_dec_digits: "c \<in> set (nat_dec n) \<Longrightarrow> is_digit c"
proof (induction n rule: nat_dec.induct)
  case (1 n)
  then show ?case
    by (subst (asm) nat_dec.simps) (auto simp: is_digit_def split: if_splits)
qed

lemma dec_val_snoc [simp]: "dec_val (ds @ [c]) = 10 * dec_val ds + the (digit_val c)"
  by (simp add: dec_val_def)

lemma dec_val_nat_dec [simp]: "dec_val (nat_dec n) = n"
proof (induction n rule: nat_dec.induct)
  case (1 n)
  show ?case
  proof (cases "n < 10")
    case True
    then show ?thesis by (subst nat_dec.simps) (simp add: dec_val_def)
  next
    case False
    with 1 show ?thesis by (subst nat_dec.simps) simp
  qed
qed

lemma parse_nat_nat_dec: "no_digit_ahead rest \<Longrightarrow> parse_nat (nat_dec n @ rest) = Some (n, rest)"
proof -
  assume "no_digit_ahead rest"
  then have "takeWhile is_digit rest = []" "dropWhile is_digit rest = rest"
    by (auto simp: no_digit_ahead_def split: list.splits)
  then show ?thesis
    by (simp add: parse_nat_def nat_dec_digits takeWhile_append2 dropWhile_append2)
qed

lemma nat_dec_no_minus: "hd (nat_dec n @ rest) \<noteq> CHR ''-''"
proof -
  have "hd (nat_dec n) \<in> set (nat_dec n)" by simp
  then have "is_digit (hd (nat_dec n))" by (rule nat_dec_digits)
  then show ?thesis by (auto simp: is_digit_def digit_val_def Let_def)
qed

lemma parse_int_int_dec:
  assumes "no_digit_ahead rest"
  shows "parse_int (int_dec i @ rest) = Some (i, rest)"
proof (cases "i < 0")
  case True
  then show ?thesis using assms by (simp add: int_dec_def parse_int_def parse_nat_nat_dec)
next
  case False
  have "nat_dec (nat i) @ rest \<noteq> []" by simp
  then obtain c r where cr: "nat_dec (nat i) @ rest = c # r" by (cases "nat_dec (nat i) @ rest") auto
  have "c \<noteq> CHR ''-''" using nat_dec_no_minus [of "nat i" rest] cr by simp
  then show ?thesis
    using False assms cr parse_nat_nat_dec [OF assms, of "nat i"]
    by (simp add: int_dec_def parse_int_def)
qed

section \<open>String literals\<close>

lemma hex_val_digit [simp]: "n < 16 \<Longrightarrow> hex_val (hex_digit n) = Some n"
  by (simp add: hex_val_def hex_digit_def Let_def)

lemma hex4_u_escape:
  assumes "n < 65536"
  shows "hex4 (hex_digit (n div 4096)) (hex_digit (n div 256 mod 16))
    (hex_digit (n div 16 mod 16)) (hex_digit (n mod 16)) = Some n"
proof -
  have "n div 4096 < 16" using assms by simp
  moreover have "4096 * (n div 4096) + 256 * (n div 256 mod 16) + 16 * (n div 16 mod 16) + n mod 16 = n"
  proof -
    have "n = n mod 16 + 16 * (n div 16)" by simp
    moreover have "n div 16 = n div 16 mod 16 + 16 * (n div 256)"
      using div_mult2_eq [of n 16 16] by simp
    moreover have "n div 256 = n div 256 mod 16 + 16 * (n div 4096)"
      using div_mult2_eq [of n 256 16] by simp
    ultimately show ?thesis by linarith
  qed
  ultimately show ?thesis by (simp add: hex4_def)
qed

lemma prepend_Nil [simp]: "prepend [] x = x"
  by (cases x) (simp_all add: prepend_def split: prod.splits)

lemma prepend_prepend [simp]: "prepend p (prepend q x) = prepend (p @ q) x"
  by (cases x) (simp_all add: prepend_def split: prod.splits)

lemma prepend_Some [simp]: "prepend p (Some (t, rest)) = Some (p @ t, rest)"
  by (simp add: prepend_def)

lemma parse_u_escape:
  "n < 65536 \<Longrightarrow> parse_string (u_escape n @ rest) = prepend (utf8_char n) (parse_string rest)"
  by (simp add: u_escape_def hex4_u_escape)

lemma parse_esc_ascii:
  assumes "(of_char c :: nat) < 128"
  shows "parse_string (esc_ascii c @ rest) = prepend [c] (parse_string rest)"
proof (cases "c \<in> {quo, bsl, CHR 0x08, CHR 0x0C, CHR 0x0A, CHR 0x0D, CHR 0x09}")
  case True
  then show ?thesis by (elim insertE) (simp_all add: esc_ascii_def unescape_def)
next
  case False
  show ?thesis
  proof (cases "(of_char c :: nat) < 32 \<or> c = CHR ''<'' \<or> c = CHR ''>'' \<or> c = CHR ''&''")
    case True
    with False have "esc_ascii c = u_escape (of_char c)" by (simp add: esc_ascii_def)
    then show ?thesis using assms by (simp only: parse_u_escape) (simp add: utf8_char_def parse_u_escape)
  next
    case plain: False
    with False have "esc_ascii c = [c]" by (simp add: esc_ascii_def)
    then show ?thesis using False plain by simp
  qed
qed

lemma parse_plain:
  "\<forall>c \<in> set p. 32 \<le> (of_char c :: nat) \<and> c \<noteq> quo \<and> c \<noteq> bsl \<Longrightarrow>
   parse_string (p @ rest) = prepend p (parse_string rest)"
proof (induction p)
  case Nil
  then show ?case by simp
next
  case (Cons c p)
  then have "\<not> (of_char c :: nat) < 32" by auto
  with Cons show ?case by simp
qed

lemma high_byte_plain: "128 \<le> (of_char c :: nat) \<Longrightarrow> 32 \<le> (of_char c :: nat) \<and> c \<noteq> quo \<and> c \<noteq> bsl"
  by auto

lemma rune_len_high:
  assumes "rune_len (c # r) \<noteq> 0"
  shows "rune_len (c # r) - 1 \<le> length r" "2 \<le> rune_len (c # r)"
    and "\<forall>x \<in> set (take (rune_len (c # r)) (c # r)). 128 \<le> (of_char x :: nat)"
proof -
  let ?k = "rune_len (c # r)"
  have k: "?k = rune_width (of_char c)" and len: "?k - 1 \<le> length r"
    and cont: "list_all (cont_byte 128 191) (take (?k - 1) r)"
    using assms by (auto simp: rune_len_def Let_def split: if_splits)
  show "?k - 1 \<le> length r" by (rule len)
  show two: "2 \<le> ?k" using assms k by (auto simp: rune_width_def split: if_splits)
  have hd: "128 \<le> (of_char c :: nat)" using assms k by (auto simp: rune_width_def split: if_splits)
  have "\<forall>x \<in> set (take (?k - 1) r). 128 \<le> (of_char x :: nat)"
    using cont by (auto simp: list_all_iff cont_byte_def)
  moreover have "take ?k (c # r) = c # take (?k - 1) r" using two by (cases ?k) auto
  ultimately show "\<forall>x \<in> set (take ?k (c # r)). 128 \<le> (of_char x :: nat)" using hd by simp
qed

theorem parse_esc_string:
  "utf8_valid s \<Longrightarrow> parse_string (esc_string s @ quo # rest) = Some (s, rest)"
proof (induction s rule: esc_string.induct)
  case 1
  then show ?case by simp
next
  case (2 c r)
  show ?case
  proof (cases "(of_char c :: nat) < 128")
    case True
    with 2 show ?thesis by (simp add: parse_esc_ascii del: parse_string.simps)
  next
    case False
    let ?k = "rune_len (c # r)"
    have k: "?k \<noteq> 0" and v: "utf8_valid (drop (?k - 1) r)" using "2.prems" False by auto
    note high = rune_len_high [OF k]
    have split: "take ?k (c # r) @ drop (?k - 1) r = c # r"
      using high(2) by (cases ?k) auto
    show ?thesis
    proof (cases "?k = 3 \<and> (take 3 (c # r) = utf8_char 8232 \<or> take 3 (c # r) = utf8_char 8233)")
      case True
      define u :: nat where "u = (if take 3 (c # r) = utf8_char 8232 then 8232 else 8233)"
      then have u: "take 3 (c # r) = utf8_char u" "u < 65536" using True by auto
      have e: "esc_string (c # r) = u_escape u @ esc_string (drop 2 r)"
        using True False by (auto simp: Let_def u_def simp del: take_Cons_numeral)
      have "parse_string (esc_string (drop 2 r) @ quo # rest) = Some (drop 2 r, rest)"
        using "2.IH"(3,4) True False k v
        by (cases "take 3 (c # r) = utf8_char 8232") (auto simp: Let_def)
      moreover have "utf8_char u @ drop 2 r = c # r"
        using u(1) True split by (simp only: ) (simp add: u(1) [symmetric])
      ultimately show ?thesis
        using u(2) e by (simp add: parse_u_escape del: parse_string.simps esc_string.simps)
    next
      case plain: False
      with False k have "esc_string (c # r) = take ?k (c # r) @ esc_string (drop (?k - 1) r)"
        by (auto simp: Let_def)
      moreover have "parse_string (esc_string (drop (?k - 1) r) @ quo # rest)
          = Some (drop (?k - 1) r, rest)"
        using "2.IH"(5) False k plain v by blast
      moreover have "\<forall>x \<in> set (take ?k (c # r)). 32 \<le> (of_char x :: nat) \<and> x \<noteq> quo \<and> x \<noteq> bsl"
        using high(3) high_byte_plain by blast
      ultimately show ?thesis
        using split by (simp add: parse_plain del: parse_string.simps take_Cons)
    qed
  qed
qed

section \<open>Base64\<close>

lemma b64_val_char [simp]: "n < 64 \<Longrightarrow> b64_val (b64_char n) = Some n"
  by (auto simp: b64_val_def b64_char_def Let_def)

lemma b64_char_not_pad [simp]:
  assumes "n < 64"
  shows "b64_char n \<noteq> pad"
proof
  assume "b64_char n = pad"
  then have "b64_val pad = Some n" using b64_val_char [OF assms] by simp
  moreover have "b64_val pad = None" by (simp add: b64_val_def)
  ultimately show False by simp
qed

lemma b64_char_plain:
  "n < 64 \<Longrightarrow> 32 \<le> (of_char (b64_char n) :: nat) \<and> b64_char n \<noteq> quo \<and> b64_char n \<noteq> bsl"
proof -
  assume n: "n < 64"
  have "b64_val quo = None" "b64_val bsl = None" by (simp_all add: b64_val_def)
  with b64_val_char [OF n] have "b64_char n \<noteq> quo" "b64_char n \<noteq> bsl" by auto
  moreover have "32 \<le> (of_char (b64_char n) :: nat)"
    using n by (auto simp: b64_char_def)
  ultimately show ?thesis by simp
qed
lemma b64_ranges:
  fixes x y z :: nat
  assumes "x < 256" "y < 256" "z < 256"
  shows "x div 4 < 64" "x mod 4 * 16 + y div 16 < 64" "y mod 16 * 4 + z div 64 < 64"
    and "x mod 4 * 16 < 64" "y mod 16 * 4 < 64"
proof -
  have m: "x mod 4 < 4" "y mod 16 < 16" by simp_all
  have d: "x div 4 < 64" "y div 16 < 16" "z div 64 < 4"
    using assms by (simp_all add: less_mult_imp_div_less)
  show "x div 4 < 64" by (rule d)
  show "x mod 4 * 16 + y div 16 < 64" "y mod 16 * 4 + z div 64 < 64"
    "x mod 4 * 16 < 64" "y mod 16 * 4 < 64"
    using m d by linarith+
qed

lemma b64_bytes:
  fixes x y z :: nat
  assumes "y < 256" "z < 256"
  shows "4 * (x div 4) + (x mod 4 * 16 + y div 16) div 16 = x"
    and "(16 * (x mod 4 * 16 + y div 16) + (y mod 16 * 4 + z div 64) div 4) mod 256 = y"
    and "(64 * (y mod 16 * 4 + z div 64) + z mod 64) mod 256 = z"
proof -
  have d: "y div 16 < 16" "z div 64 < 4" using assms by (simp_all add: less_mult_imp_div_less)
  have e: "(x mod 4 * 16 + y div 16) div 16 = x mod 4" "(y mod 16 * 4 + z div 64) div 4 = y mod 16"
    using d by simp_all
  show "4 * (x div 4) + (x mod 4 * 16 + y div 16) div 16 = x" by (simp only: e mult_div_mod_eq)
  have "16 * (p * 16 + q) + m = (16 * q + m) + p * 256" for p q m :: nat by simp
  then have "16 * (x mod 4 * 16 + y div 16) + y mod 16 = y + x mod 4 * 256"
    by (simp only: mult_div_mod_eq)
  then show "(16 * (x mod 4 * 16 + y div 16) + (y mod 16 * 4 + z div 64) div 4) mod 256 = y"
    using assms by (simp only: e) simp
  have "64 * (p * 4 + q) + m = (64 * q + m) + p * 256" for p q m :: nat by simp
  then have "64 * (y mod 16 * 4 + z div 64) + z mod 64 = z + y mod 16 * 256"
    by (simp only: mult_div_mod_eq)
  then show "(64 * (y mod 16 * 4 + z div 64) + z mod 64) mod 256 = z"
    using assms by simp
qed

lemmas of_char_ranges = b64_ranges [OF of_char_less_256 of_char_less_256 of_char_less_256]
lemmas of_char_bytes = b64_bytes [OF of_char_less_256 of_char_less_256]

lemma char_of_mod_eq: "n mod 256 = of_char c \<Longrightarrow> char_of (n::nat) = c"
  by (metis char_of_char char_of_mod_256)

lemma b64_plain: "c \<in> set (b64_encode bs) \<Longrightarrow> 32 \<le> (of_char c :: nat) \<and> c \<noteq> quo \<and> c \<noteq> bsl"
  by (induction bs rule: b64_encode.induct) (auto simp: Let_def b64_char_plain of_char_ranges)

lemma b64_chars:
  "char_of (4 * (of_char a div 4) + (of_char a mod 4 * 16 + of_char b div 16) div (16::nat)) = a"
  "char_of (16 * (of_char a mod 4 * 16 + of_char b div 16) +
     (of_char b mod 16 * 4 + of_char c div 64) div (4::nat)) = b"
  "char_of (64 * (of_char b mod 16 * 4 + of_char c div 64) + of_char c mod (64::nat)) = c"
  by (rule char_of_mod_eq, simp only: of_char_bytes of_char_mod_256)+

lemma b64_last_chars:
  "char_of (4 * (of_char a div 4) + of_char a mod 4 * 16 div (16::nat)) = a"
  "char_of (16 * (of_char a mod 4 * 16 + of_char b div 16) + of_char b mod 16 * 4 div (4::nat)) = b"
  using b64_chars(1) [of a "CHR 0x00"] b64_chars(2) [of a b "CHR 0x00"] by simp_all

theorem b64_decode_encode [simp]: "b64_decode (b64_encode bs) = Some bs"
  by (induction bs rule: b64_encode.induct)
     (simp_all only: b64_encode.simps b64_decode.simps Let_def append.simps b64_char_not_pad
       of_char_ranges b64_val_char bind.bind_lunit b64_chars b64_last_chars simp_thms if_True if_False
       mod_less_divisor zero_less_numeral)

section \<open>The struct\<close>

lemma strip_append [simp]: "strip p (p @ s) = Some s"
  by (simp add: strip_def)

lemma strip_field:
  "strip (c # json_field n) (c # json_field n @ s) = Some s"
  "strip (c # json_field n @ [q]) (c # json_field n @ q # s) = Some s"
  using strip_append [of "c # json_field n" s] strip_append [of "c # json_field n @ [q]" s] by simp_all

lemma parse_json_bytes: "parse_bytes (b64_encode bs @ quo # s) = Some (bs, s)"
  by (simp add: parse_bytes_def parse_plain b64_plain)

lemma parse_key_json:
  "parse_key ((if k = [] then [] else CHR '','' # json_field ''key'' @ json_bytes k) @
     CHR '','' # json_field ''value'' @ s) = Some (k, CHR '','' # json_field ''value'' @ s)"
proof (cases "k = []")
  case True
  have "strip (CHR '','' # json_field ''key'' @ [quo]) (CHR '','' # json_field ''value'' @ s) = None"
    by (simp add: strip_def json_field_def)
  with True show ?thesis by (simp add: parse_key_def)
next
  case False
  then show ?thesis
    by (simp add: parse_key_def json_bytes_def strip_field parse_json_bytes)
qed

lemma parse_value_json:
  "parse_value ((if v = [] then ''null'' else json_bytes v) @ s) = Some (v, s)"
proof (cases "v = []")
  case True
  then show ?thesis using strip_append [of "''null''" s] by (simp add: parse_value_def del: append.simps)
next
  case False
  have "strip ''null'' (quo # b64_encode v @ quo # s) = None" by (simp add: strip_def)
  moreover have "strip [quo] (quo # b64_encode v @ quo # s) = Some (b64_encode v @ quo # s)"
    by (simp add: strip_def)
  ultimately show ?thesis using False by (simp add: parse_value_def json_bytes_def parse_json_bytes)
qed

lemma no_digit_ahead_char [simp]:
  "no_digit_ahead (CHR '','' # s)" "no_digit_ahead ''}''"
  by (simp_all add: no_digit_ahead_def is_digit_def digit_val_def)

lemma no_digit_ahead_key:
  "no_digit_ahead ((if k = [] then [] else CHR '','' # t) @ CHR '','' # s)"
  by simp

lemma json_Unmarshal_Marshal:
  assumes "record_ok r"
  shows "json_Unmarshal (json_Marshal r) = Inr r"
proof -
  let ?k = "if recKey r = [] then [] else CHR '','' # json_field ''key'' @ json_bytes (recKey r)"
  let ?v = "if recValue r = [] then ''null'' else json_bytes (recValue r)"
  have p: "no_digit_ahead (?k @ CHR '','' # json_field ''value'' @ ?v @
      CHR '','' # json_field ''offset'' @ int_dec (recOffset r) @ ''}'')" by simp
  show ?thesis
    using assms
    by (simp add: json_Unmarshal_def json_Marshal_def record_ok_def strip_field parse_esc_string
        parse_int_int_dec [OF p] parse_key_json parse_value_json parse_int_int_dec
        del: parse_string.simps if_split)
qed

section \<open>Properties\<close>



end
