(* ===== verification/File_Log.thy ===== *)
theory File_Log
  imports Mem_Log Json_Record
begin

text \<open>
  \<^verbatim>\<open>FileLog\<close> of src/internal/log/file_log.go: the log kept in a segment file of length-prefixed JSON
  records, with an in-memory index of byte positions that is rebuilt by scanning the file when it
  is opened.  The file is its list of bytes.  Operating-system failures are an explicit argument
  (\<open>io\<close>): how far a write got before it failed.  The theory shows that the file log implements the
  log interface, that opening a cleanly written file gives back the same log, and that a crash at
  any byte of an append loses that append only.
\<close>

record file_log =
  segment :: bytes
  index :: "int list"

datatype io = IO_ok | SeekFails | HeaderFails nat | BodyFails nat

definition record_of :: "message \<Rightarrow> messageRecord" where
  "record_of m = \<lparr>recTopic = msgTopic m, recPartition = msgPartition m, recKey = msgKey m,
     recValue = msgValue m, recOffset = msgOffset m\<rparr>"

definition message_of :: "messageRecord \<Rightarrow> message" where
  "message_of r = \<lparr>msgTopic = recTopic r, msgPartition = recPartition r, msgKey = recKey r,
     msgValue = recValue r, msgOffset = recOffset r\<rparr>"

text \<open>The scan of \<^verbatim>\<open>rebuildIndex\<close>: \<open>rest\<close> is what the file holds from \<open>pos\<close> on.\<close>

function rebuild_loop :: "bytes \<Rightarrow> int list \<Rightarrow> int \<Rightarrow> int list \<times> int" where
  "rebuild_loop rest idx pos =
     (if length rest < 4 then (idx, pos)
      else let len = un_le32 (take 4 rest); body = drop 4 rest
           in if int (length body) < len then (idx, pos)
              else rebuild_loop (drop (nat len) body) (idx @ [pos]) (pos + 4 + len))"
  by pat_completeness auto
termination
  by (relation "measure (\<lambda>(rest, idx, pos). length rest)") auto

declare rebuild_loop.simps [simp del]

definition rebuildIndex :: "file_log \<Rightarrow> file_log" where
  "rebuildIndex fl =
     (let (idx, pos) = rebuild_loop (segment fl) [] 0
      in fl\<lparr>segment := take (nat pos) (segment fl), index := idx\<rparr>)"

text \<open>\<open>opened\<close> is what \<open>MkdirAll\<close> and \<open>OpenFile\<close> gave: an error, or the bytes of the segment.\<close>

definition NewFileLog :: "bytes result \<Rightarrow> file_log result" where
  "NewFileLog opened = (case opened of
      Inl e \<Rightarrow> Inl e
    | Inr bs \<Rightarrow> Inr (rebuildIndex \<lparr>segment = bs, index = []\<rparr>))"

text \<open>
  The seek, the two writes and the index update shared by \<open>Append\<close> and \<open>AppendReplica\<close>.
\<close>

definition write_record :: "io \<Rightarrow> file_log \<Rightarrow> bytes \<Rightarrow> file_log \<times> unit result" where
  "write_record io fl data =
     (let pos = int (length (segment fl));
          header = le32 (uint32 (int (length data)))
      in case io of
        SeekFails \<Rightarrow> (fl, Inl IOError)
      | HeaderFails k \<Rightarrow> (fl\<lparr>segment := segment fl @ take k header\<rparr>, Inl IOError)
      | BodyFails k \<Rightarrow> (fl\<lparr>segment := segment fl @ header @ take k data\<rparr>, Inl IOError)
      | IO_ok \<Rightarrow> (fl\<lparr>segment := segment fl @ header @ data, index := index fl @ [pos]\<rparr>, Inr ()))"

definition FileLog_Append_io :: "io \<Rightarrow> file_log \<Rightarrow> message \<Rightarrow> file_log \<times> int result" where
  "FileLog_Append_io io fl msg =
     (let offset = int (length (index fl));
          msg = msg\<lparr>msgOffset := offset\<rparr>;
          data = json_Marshal (record_of msg)
      in case write_record io fl data of
           (fl', Inl e) \<Rightarrow> (fl', Inl e)
         | (fl', Inr _) \<Rightarrow> (fl', Inr offset))"

definition FileLog_AppendReplica_io :: "io \<Rightarrow> file_log \<Rightarrow> message \<Rightarrow> file_log \<times> unit result" where
  "FileLog_AppendReplica_io io fl msg =
     (let offset = int (length (index fl))
      in if msgOffset msg \<noteq> offset then (fl, Inl (ReplicaOffsetMismatch offset (msgOffset msg)))
         else write_record io fl (json_Marshal (record_of msg)))"

definition FileLog_Append :: "file_log \<Rightarrow> message \<Rightarrow> file_log \<times> int result" where
  "FileLog_Append = FileLog_Append_io IO_ok"

definition FileLog_AppendReplica :: "file_log \<Rightarrow> message \<Rightarrow> file_log \<times> unit result" where
  "FileLog_AppendReplica = FileLog_AppendReplica_io IO_ok"

text \<open>\<open>os.File.ReadAt\<close>: all \<open>n\<close> bytes at \<open>pos\<close>, or an error.\<close>

definition file_ReadAt :: "bytes \<Rightarrow> int \<Rightarrow> nat \<Rightarrow> bytes result" where
  "file_ReadAt seg pos n =
     (if pos < 0 then Inl IOError
      else if int (length seg) < pos + int n then Inl EndOfStream
      else Inr (take n (drop (nat pos) seg)))"

definition FileLog_readAt :: "file_log \<Rightarrow> int \<Rightarrow> message result" where
  "FileLog_readAt fl pos =
     (case file_ReadAt (segment fl) pos 4 of
        Inl e \<Rightarrow> Inl e
      | Inr lenBuf \<Rightarrow>
         (case file_ReadAt (segment fl) (pos + 4) (nat (un_le32 lenBuf)) of
            Inl e \<Rightarrow> Inl e
          | Inr data \<Rightarrow>
             (case json_Unmarshal data of
                Inl e \<Rightarrow> Inl e
              | Inr rec \<Rightarrow> Inr (message_of rec))))"

definition FileLog_Read :: "file_log \<Rightarrow> int \<Rightarrow> int \<Rightarrow> message list result" where
  "FileLog_Read fl offset maxMsgs =
     (let n = int (length (index fl))
      in if offset < 0 \<or> offset > n then Inl (OffsetOutOfRange offset n)
         else let endd = int64 (offset + maxMsgs);
                  endd = (if endd > n then n else endd)
              in if endd - offset < 0 then Inl GoPanic
                 else collect (FileLog_readAt fl)
                        (take (nat (endd - offset)) (drop (nat offset) (index fl))))"

definition FileLog_Len :: "file_log \<Rightarrow> int" where
  "FileLog_Len fl = int (length (index fl))"

definition FileLog_LogEndOffset :: "file_log \<Rightarrow> int" where
  "FileLog_LogEndOffset fl = FileLog_Len fl"

definition FileLog_TruncateTo :: "file_log \<Rightarrow> int \<Rightarrow> file_log \<times> unit result" where
  "FileLog_TruncateTo fl offset =
     (let n = int (length (index fl))
      in if offset < 0 \<or> offset > n then (fl, Inl (TruncateOutOfRange offset n))
         else let pos = (if offset < n then index fl ! nat offset else int (length (segment fl)))
              in (fl\<lparr>segment := take (nat pos) (segment fl), index := take (nat offset) (index fl)\<rparr>,
                  Inr ()))"

text \<open>A message for the concrete instances.\<close>

definition msg_hello :: message where
  "msg_hello = \<lparr>msgTopic = ''t'', msgPartition = 0, msgKey = ''k'', msgValue = ''hello'', msgOffset = 0\<rparr>"

text \<open>Whether all bytes of the record reached the file before a write failed.\<close>

fun io_complete :: "io \<Rightarrow> bytes \<Rightarrow> bool" where
  "io_complete IO_ok data = True"
| "io_complete SeekFails data = False"
| "io_complete (HeaderFails k) data = False"
| "io_complete (BodyFails k) data = (length data \<le> k)"

section \<open>The file that holds a list of messages\<close>

definition encode_record :: "message \<Rightarrow> bytes" where
  "encode_record m = (let data = json_Marshal (record_of m)
     in le32 (uint32 (int (length data))) @ data)"

definition segment_of :: "message list \<Rightarrow> bytes" where
  "segment_of ms = concat (map encode_record ms)"

fun index_from :: "int \<Rightarrow> message list \<Rightarrow> int list" where
  "index_from p [] = []"
| "index_from p (m # ms) = p # index_from (p + int (length (encode_record m))) ms"

definition file_of :: "message list \<Rightarrow> file_log" where
  "file_of ms = \<lparr>segment = segment_of ms, index = index_from 0 ms\<rparr>"

definition file_storable :: "message \<Rightarrow> bool" where
  "file_storable m \<longleftrightarrow> record_ok (record_of m) \<and> int (length (json_Marshal (record_of m))) < 2 ^ 32"

text \<open>The messages a file log holds, and the invariant that the file is exactly their encoding.\<close>

definition file_msgs :: "file_log \<Rightarrow> message list" where
  "file_msgs fl = (case collect (FileLog_readAt fl) (index fl) of Inl _ \<Rightarrow> [] | Inr ms \<Rightarrow> ms)"

definition file_invar :: "file_log \<Rightarrow> bool" where
  "file_invar fl \<longleftrightarrow> fl = file_of (file_msgs fl) \<and> list_all file_storable (file_msgs fl)
     \<and> offsets_ok (file_msgs fl)"

definition torn :: "bytes \<Rightarrow> bool" where
  "torn tail \<longleftrightarrow> length tail < 4 \<or> int (length tail) - 4 < un_le32 (take 4 tail)"

lemma message_of_record_of [simp]: "message_of (record_of m) = m"
  by (simp add: message_of_def record_of_def)

lemma header_of_storable:
  "file_storable m \<Longrightarrow>
   un_le32 (le32 (uint32 (int (length (json_Marshal (record_of m))))))
     = int (length (json_Marshal (record_of m)))"
  by (simp add: file_storable_def uint32_id)

lemma encode_record_parts:
  assumes "file_storable m"
  shows "take 4 (encode_record m @ s) = le32 (int (length (json_Marshal (record_of m))))"
    and "drop 4 (encode_record m @ s) = json_Marshal (record_of m) @ s"
    and "length (encode_record m) = 4 + length (json_Marshal (record_of m))"
    and "un_le32 (take 4 (encode_record m @ s)) = int (length (json_Marshal (record_of m)))"
proof -
  have u: "uint32 (int (length (json_Marshal (record_of m)))) = int (length (json_Marshal (record_of m)))"
    using assms by (simp add: file_storable_def uint32_id)
  show t: "take 4 (encode_record m @ s) = le32 (int (length (json_Marshal (record_of m))))"
    and "drop 4 (encode_record m @ s) = json_Marshal (record_of m) @ s"
    and "length (encode_record m) = 4 + length (json_Marshal (record_of m))"
    by (simp_all add: encode_record_def Let_def u)
  show "un_le32 (take 4 (encode_record m @ s)) = int (length (json_Marshal (record_of m)))"
    unfolding t using assms by (simp add: file_storable_def)
qed

lemma segment_of_Nil [simp]: "segment_of [] = []"
  and segment_of_Cons [simp]: "segment_of (m # ms) = encode_record m @ segment_of ms"
  and segment_of_append [simp]: "segment_of (xs @ ys) = segment_of xs @ segment_of ys"
  by (simp_all add: segment_of_def)

lemma length_index_from [simp]: "length (index_from p ms) = length ms"
  by (induction ms arbitrary: p) auto

lemma index_from_append:
  "index_from p (xs @ ys) = index_from p xs @ index_from (p + int (length (segment_of xs))) ys"
  by (induction xs arbitrary: p) (auto simp: algebra_simps)

lemma index_from_take: "take k (index_from p ms) = index_from p (take k ms)"
  by (induction ms arbitrary: p k) (auto simp: take_Cons split: nat.splits)

lemma index_from_nth:
  "i < length ms \<Longrightarrow> index_from p ms ! i = p + int (length (segment_of (take i ms)))"
  by (induction ms arbitrary: p i) (auto simp: nth_Cons split: nat.splits)

lemma file_of_index [simp]: "index (file_of ms) = index_from 0 ms"
  and file_of_segment [simp]: "segment (file_of ms) = segment_of ms"
  by (simp_all add: file_of_def)

section \<open>Reading back\<close>

lemma readAt_split:
  assumes "file_storable m" "segment fl = pre @ encode_record m @ post"
  shows "FileLog_readAt fl (int (length pre)) = Inr m"
proof -
  let ?d = "json_Marshal (record_of m)"
  note parts = encode_record_parts [OF assms(1)]
  have "file_ReadAt (segment fl) (int (length pre)) 4 = Inr (le32 (int (length ?d)))"
    using parts assms(2) by (simp add: file_ReadAt_def)
  moreover have "un_le32 (le32 (int (length ?d))) = int (length ?d)"
    using assms(1) by (simp add: file_storable_def)
  moreover have "file_ReadAt (segment fl) (int (length pre) + 4) (length ?d) = Inr ?d"
  proof -
    have "nat (int (length pre) + 4) = 4 + length pre" by simp
    then have "drop (nat (int (length pre) + 4)) (segment fl) = ?d @ post"
      using parts(2) assms(2) by (simp add: drop_drop [symmetric] del: drop_drop)
    then show ?thesis using parts(3) assms(2) by (simp add: file_ReadAt_def)
  qed
  moreover have "json_Unmarshal ?d = Inr (record_of m)"
    using assms(1) by (simp add: file_storable_def json_Unmarshal_Marshal)
  ultimately show ?thesis by (simp add: FileLog_readAt_def)
qed

lemma readAt_file_of:
  assumes "list_all file_storable ms" "i < length ms"
  shows "FileLog_readAt (file_of ms) (index_from 0 ms ! i) = Inr (ms ! i)"
proof -
  have "ms = take i ms @ ms ! i # drop (Suc i) ms" using assms(2) by (rule id_take_nth_drop)
  then have "segment (file_of ms) = segment_of (take i ms) @ encode_record (ms ! i) @ segment_of (drop (Suc i) ms)"
    by (metis file_of_segment segment_of_append segment_of_Cons)
  moreover have "file_storable (ms ! i)" using assms by (simp add: list_all_length)
  ultimately show ?thesis using readAt_split assms(2) by (simp add: index_from_nth)
qed

lemma collect_readAt_slice:
  assumes "list_all file_storable ms"
  shows "collect (FileLog_readAt (file_of ms)) (take k (drop j (index_from 0 ms)))
    = Inr (take k (drop j ms))"
proof -
  let ?n = "length (take k (drop j ms))"
  have idx: "take k (drop j (index_from 0 ms)) = map (\<lambda>i. index_from 0 ms ! (j + i)) [0..<?n]"
    by (rule nth_equalityI) auto
  have ms: "take k (drop j ms) = map (\<lambda>i. ms ! (j + i)) [0..<?n]"
    by (rule nth_equalityI) auto
  have "collect (FileLog_readAt (file_of ms)) (map (\<lambda>i. index_from 0 ms ! (j + i)) [0..<n])
      = Inr (map (\<lambda>i. ms ! (j + i)) [0..<n])" if "n \<le> ?n" for n
  proof -
    have "FileLog_readAt (file_of ms) (index_from 0 ms ! (j + i)) = Inr (ms ! (j + i))"
      if "i \<in> set [0..<n]" for i
      using that \<open>n \<le> ?n\<close> by (intro readAt_file_of [OF assms]) auto
    then show ?thesis unfolding collect_map by (rule collect_Inr_map)
  qed
  then show ?thesis using idx ms by simp
qed

lemma file_msgs_file_of [simp]: "list_all file_storable ms \<Longrightarrow> file_msgs (file_of ms) = ms"
  using collect_readAt_slice [of ms "length ms" 0] by (simp add: file_msgs_def)

lemma file_invar_file_of: "list_all file_storable ms \<Longrightarrow> offsets_ok ms \<Longrightarrow> file_invar (file_of ms)"
  by (simp add: file_invar_def)

lemma file_invarE:
  assumes "file_invar fl"
  obtains ms where "fl = file_of ms" "list_all file_storable ms" "offsets_ok ms" "file_msgs fl = ms"
  using assms unfolding file_invar_def by blast

section \<open>Every operation works on the encoding\<close>

lemma Append_file_of:
  "FileLog_Append (file_of ms) m =
     (file_of (ms @ [m\<lparr>msgOffset := int (length ms)\<rparr>]), Inr (int (length ms)))"
  by (simp add: FileLog_Append_def FileLog_Append_io_def write_record_def Let_def file_of_def
      index_from_append encode_record_def)

lemma AppendReplica_file_of:
  "FileLog_AppendReplica (file_of ms) m =
     (if msgOffset m = int (length ms) then (file_of (ms @ [m]), Inr ())
      else (file_of ms, Inl (ReplicaOffsetMismatch (int (length ms)) (msgOffset m))))"
  by (simp add: FileLog_AppendReplica_def FileLog_AppendReplica_io_def write_record_def Let_def
      file_of_def index_from_append encode_record_def)

lemma Read_file_of:
  "list_all file_storable ms \<Longrightarrow> FileLog_Read (file_of ms) off n = spec_read ms off n"
  by (simp add: FileLog_Read_def spec_read_def collect_readAt_slice Let_def min_def
      del: take_all_iff take_all)

lemma TruncateTo_file_of:
  "FileLog_TruncateTo (file_of ms) off = map_prod file_of id (spec_truncate ms off)"
proof (cases "off < 0 \<or> int (length ms) < off")
  case True
  then show ?thesis by (simp add: FileLog_TruncateTo_def spec_truncate_def)
next
  case False
  let ?k = "nat off"
  have k: "?k \<le> length ms" using False by auto
  have seg: "segment_of ms = segment_of (take ?k ms) @ segment_of (drop ?k ms)"
    by (metis append_take_drop_id segment_of_append)
  have "(if off < int (length ms) then index_from 0 ms ! ?k else int (length (segment_of ms)))
      = int (length (segment_of (take ?k ms)))"
    using False by (auto simp: index_from_nth)
  moreover have "take (length (segment_of (take ?k ms))) (segment_of ms) = segment_of (take ?k ms)"
    by (subst seg) simp
  ultimately show ?thesis
    using False k
    by (simp add: FileLog_TruncateTo_def spec_truncate_def Let_def index_from_take file_of_def
        del: if_split split: if_splits)
qed

lemmas file_ops_file_of = Append_file_of AppendReplica_file_of Read_file_of TruncateTo_file_of

interpretation flog: partition_log FileLog_Append FileLog_AppendReplica FileLog_Read FileLog_Len
  FileLog_TruncateTo file_msgs file_invar "\<lambda>_. file_storable"
proof (unfold_locales, goal_cases)
  case (1 l)
  then show ?case by (simp add: file_invar_def)
next
  case (2 l)
  then show ?case by (elim file_invarE) (simp add: FileLog_Len_def)
next
  case (3 l off n)
  then show ?case by (elim file_invarE) (simp add: Read_file_of)
next
  case (4 l m)
  then show ?case by (elim file_invarE) (simp add: Append_file_of spec_append_def)
next
  case (5 l m)
  then show ?case by (elim file_invarE) (simp add: Append_file_of file_invar_file_of)
next
  case (6 l m)
  then show ?case by (elim file_invarE) (simp add: AppendReplica_file_of spec_append_replica_def)
next
  case (7 l m)
  then show ?case by (elim file_invarE) (simp add: AppendReplica_file_of file_invar_file_of)
next
  case (8 l off)
  then show ?case
    by (elim file_invarE)
       (auto simp: TruncateTo_file_of spec_truncate_def list_all_length)
next
  case (9 l off)
  then show ?case
    by (elim file_invarE)
       (auto simp: TruncateTo_file_of spec_truncate_def list_all_length intro!: file_invar_file_of)
qed auto

section \<open>Opening a segment\<close>

lemma rebuild_loop_torn: "torn tail \<Longrightarrow> rebuild_loop tail idx pos = (idx, pos)"
  by (subst rebuild_loop.simps) (auto simp: torn_def Let_def)

lemma rebuild_loop_step:
  "4 \<le> length rest \<Longrightarrow> un_le32 (take 4 rest) = len \<Longrightarrow> drop 4 rest = body \<Longrightarrow> len \<le> int (length body) \<Longrightarrow>
   rebuild_loop rest idx pos = rebuild_loop (drop (nat len) body) (idx @ [pos]) (pos + 4 + len)"
  by (subst rebuild_loop.simps) (auto simp: Let_def)

lemma rebuild_loop_record:
  assumes "file_storable m"
  shows "rebuild_loop (encode_record m @ s) idx pos =
    rebuild_loop s (idx @ [pos]) (pos + int (length (encode_record m)))"
proof -
  let ?d = "json_Marshal (record_of m)"
  note parts = encode_record_parts [OF assms]
  have "4 \<le> length (encode_record m @ s)" by (simp add: parts(3))
  from rebuild_loop_step [OF this parts(4) parts(2)]
  have "rebuild_loop (encode_record m @ s) idx pos = rebuild_loop s (idx @ [pos]) (pos + 4 + int (length ?d))"
    by simp
  then show ?thesis by (simp add: parts(3) add.assoc)
qed

lemma rebuild_loop_segment:
  "list_all file_storable ms \<Longrightarrow> torn tail \<Longrightarrow>
   rebuild_loop (segment_of ms @ tail) idx pos =
     (idx @ index_from pos ms, pos + int (length (segment_of ms)))"
proof (induction ms arbitrary: idx pos)
  case Nil
  then show ?case by (simp add: rebuild_loop_torn)
next
  case (Cons m ms)
  then show ?case by (simp add: rebuild_loop_record algebra_simps)
qed

lemma rebuild_file_of:
  assumes "list_all file_storable ms" "torn tail"
  shows "rebuildIndex \<lparr>segment = segment_of ms @ tail, index = idx\<rparr> = file_of ms"
  by (simp add: rebuildIndex_def rebuild_loop_segment [OF assms] file_of_def)

lemma torn_Nil [simp]: "torn []"
  by (simp add: torn_def)

lemma torn_prefix_of_record:
  assumes "file_storable m" "k < length (encode_record m)"
  shows "torn (take k (encode_record m))"
proof (cases "k < 4")
  case True
  then show ?thesis by (simp add: torn_def min_def)
next
  case False
  then have "take 4 (take k (encode_record m)) = take 4 (encode_record m @ [])" by (simp add: min_def)
  then show ?thesis
    using assms False encode_record_parts(3,4) [OF assms(1)]
    by (simp add: torn_def del: take_take append_Nil2)
qed

lemma json_Marshal_nonempty [simp]: "json_Marshal r \<noteq> []"
  by (simp add: json_Marshal_def)

lemma Append_io_segment:
  assumes "file_storable (m\<lparr>msgOffset := int (length ms)\<rparr>)"
  defines "m' \<equiv> m\<lparr>msgOffset := int (length ms)\<rparr>"
  shows "\<exists>k. segment (fst (FileLog_Append_io io (file_of ms) m)) = segment_of ms @ take k (encode_record m')
    \<and> (k < length (encode_record m') \<longleftrightarrow> \<not> io_complete io (json_Marshal (record_of m')))"
proof -
  let ?d = "json_Marshal (record_of m')"
  have e: "encode_record m' = le32 (uint32 (int (length ?d))) @ ?d" by (simp add: encode_record_def Let_def)
  note defs = FileLog_Append_io_def write_record_def Let_def file_of_def m'_def [symmetric]
  show ?thesis
  proof (cases io)
    case IO_ok
    then show ?thesis by (intro exI [of _ "length (encode_record m')"]) (simp add: defs e)
  next
    case SeekFails
    then show ?thesis by (intro exI [of _ 0]) (simp add: defs e)
  next
    case (HeaderFails k)
    moreover have "min k 4 < 4 + length ?d" using json_Marshal_nonempty [of "record_of m'"] by (cases ?d) auto
    ultimately show ?thesis by (intro exI [of _ "min k 4"]) (cases "k \<le> 4"; simp add: defs e min_def)
  next
    case (BodyFails k)
    then show ?thesis by (intro exI [of _ "4 + k"]) (auto simp: defs e)
  qed
qed

section \<open>Properties\<close>

text \<open>
  C3: Crash recovery.  Whatever point a write of an append reached when the process or the disk failed,
  opening the segment again gives exactly the log before the append, or exactly the log after it
  when every byte had been written; no earlier message is lost and no partial record is visible.
\<close>

theorem filelog_crash_recovery:
  assumes "file_invar fl" "file_storable (m\<lparr>msgOffset := FileLog_Len fl\<rparr>)"
  shows "NewFileLog (Inr (segment (fst (FileLog_Append_io io fl m)))) =
    Inr (if io_complete io (json_Marshal (record_of (m\<lparr>msgOffset := FileLog_Len fl\<rparr>)))
         then fst (FileLog_Append fl m) else fl)"
proof -
  obtain ms where ms: "fl = file_of ms" "list_all file_storable ms"
    using assms(1) by (elim file_invarE)
  then have len: "FileLog_Len fl = int (length ms)" by (simp add: FileLog_Len_def)
  let ?m = "m\<lparr>msgOffset := int (length ms)\<rparr>"
  have st: "file_storable ?m" using assms(2) len by simp
  obtain k where seg: "segment (fst (FileLog_Append_io io fl m)) = segment_of ms @ take k (encode_record ?m)"
    and k: "k < length (encode_record ?m) \<longleftrightarrow> \<not> io_complete io (json_Marshal (record_of ?m))"
    using Append_io_segment [OF st] ms(1) by blast
  show ?thesis
  proof (cases "k < length (encode_record ?m)")
    case True
    with rebuild_file_of [OF ms(2) torn_prefix_of_record [OF st True]] k len ms(1) seg
    show ?thesis by (simp add: NewFileLog_def)
  next
    case False
    then have "segment_of ms @ take k (encode_record ?m) = segment_of (ms @ [?m]) @ []" by simp
    moreover have "list_all file_storable (ms @ [?m])" using ms(2) st by simp
    ultimately show ?thesis
      using rebuild_file_of [of "ms @ [?m]" "[]"] False k len ms(1) seg
      by (simp add: NewFileLog_def Append_file_of)
  qed
qed

theorem filelog_crash_recovery_witness:
  "NewFileLog (Inr (segment (fst (FileLog_Append_io (BodyFails 7) (file_of []) msg_hello)))) = Inr (file_of [])
   \<and> NewFileLog (Inr (segment (fst (FileLog_Append_io IO_ok (file_of []) msg_hello))))
     = Inr (fst (FileLog_Append (file_of []) msg_hello))"
proof -
  have inv: "file_invar (file_of [])" by (simp add: file_invar_file_of)
  have st: "file_storable (msg_hello\<lparr>msgOffset := FileLog_Len (file_of [])\<rparr>)" by code_simp
  have "\<not> io_complete (BodyFails 7) (json_Marshal (record_of (msg_hello\<lparr>msgOffset := FileLog_Len (file_of [])\<rparr>)))"
    by code_simp
  then show ?thesis
    using filelog_crash_recovery [OF inv st, of "BodyFails 7"] filelog_crash_recovery [OF inv st, of IO_ok]
    by simp
qed

text \<open>
  C16: The two implementations of the interface cannot be told apart: on every sequence of calls of
  encodable messages a new file log returns what a new in-memory log returns, offsets, errors and
  messages alike.
\<close>

theorem filelog_equals_memlog:
  assumes "NewFileLog (Inr []) = Inr fl" "ops_within file_storable [] ops"
  shows "snd (run_log FileLog_Append FileLog_AppendReplica FileLog_Read FileLog_Len FileLog_TruncateTo fl ops)
    = snd (run_log MemLog_Append MemLog_AppendReplica MemLog_Read MemLog_Len MemLog_TruncateTo MemLog_new ops)"
    (is "snd ?f = snd ?m")
proof -
  have fl: "fl = file_of []"
    using assms(1) rebuild_file_of [of "[]" "[]"] by (simp add: NewFileLog_def)
  have f: "map_prod file_msgs id ?f = spec_run [] ops"
    using flog.run_spec [of fl ops] assms(2) file_invar_file_of [of "[]"] fl by simp
  have "ops_within (\<lambda>_. True) ms ops" for ms by (induction ops arbitrary: ms) (auto split: log_op.split)
  then have m: "map_prod memMsgs id ?m = spec_run [] ops"
    using mlog.run_spec [of MemLog_new ops] by (simp add: MemLog_new_def mem_invar_def)
  have "snd (map_prod file_msgs id ?f) = snd (map_prod memMsgs id ?m)" using f m by simp
  then show ?thesis by (metis id_apply snd_map_prod comp_apply)
qed

theorem filelog_equals_memlog_witness:
  "snd (run_log FileLog_Append FileLog_AppendReplica FileLog_Read FileLog_Len FileLog_TruncateTo (file_of [])
      [OpAppend msg_hello, OpAppend msg_hello, OpTruncate 1, OpRead 0 5, OpRead 4 1])
   = snd (run_log MemLog_Append MemLog_AppendReplica MemLog_Read MemLog_Len MemLog_TruncateTo MemLog_new
      [OpAppend msg_hello, OpAppend msg_hello, OpTruncate 1, OpRead 0 5, OpRead 4 1])"
  by (rule filelog_equals_memlog) code_simp+

text \<open>
  A failed write that does not end the process is not repaired: the orphaned length header stays in
  the segment, a later append is acknowledged after it, and once the log is opened again the
  acknowledged message cannot be read.
\<close>

lemma filelog_failed_write_loses_ack:
  "\<exists>fl1 fl2 fl3.
     FileLog_Append_io (BodyFails 0) (file_of []) msg_hello = (fl1, Inl IOError) \<and>
     FileLog_Append fl1 msg_hello = (fl2, Inr 0) \<and>
     FileLog_Read fl2 0 1 = Inr [msg_hello] \<and>
     NewFileLog (Inr (segment fl2)) = Inr fl3 \<and>
     FileLog_Read fl3 0 1 = Inl UnmarshalError"
proof -
  let ?fl1 = "fst (FileLog_Append_io (BodyFails 0) (file_of []) msg_hello)"
  let ?fl2 = "fst (FileLog_Append ?fl1 msg_hello)"
  have "FileLog_Append_io (BodyFails 0) (file_of []) msg_hello = (?fl1, Inl IOError)" by code_simp
  moreover have "FileLog_Append ?fl1 msg_hello = (?fl2, Inr 0)" by code_simp
  moreover have "FileLog_Read ?fl2 0 1 = Inr [msg_hello]" by code_simp
  moreover have "FileLog_Read (rebuildIndex \<lparr>segment = segment ?fl2, index = []\<rparr>) 0 1 = Inl UnmarshalError"
    by code_simp
  ultimately show ?thesis by (auto simp: NewFileLog_def)
qed

end
