(* ===== verification/Any_Log.thy ===== *)
theory Any_Log
  imports Mem_Log File_Log
begin

text \<open>
  A value of the Go interface \<^verbatim>\<open>log.Log\<close>: a partition holds a \<^verbatim>\<open>*MemLog\<close> or a \<^verbatim>\<open>*FileLog\<close>, and a
  method call goes to the one it holds.  The dispatching log satisfies the interface because both
  implementations do.
\<close>

datatype log_impl = Mem mem_log | File file_log

fun log_Append :: "log_impl \<Rightarrow> message \<Rightarrow> log_impl \<times> int result" where
  "log_Append (Mem l) m = map_prod Mem id (MemLog_Append l m)"
| "log_Append (File l) m = map_prod File id (FileLog_Append l m)"

fun log_AppendReplica :: "log_impl \<Rightarrow> message \<Rightarrow> log_impl \<times> unit result" where
  "log_AppendReplica (Mem l) m = map_prod Mem id (MemLog_AppendReplica l m)"
| "log_AppendReplica (File l) m = map_prod File id (FileLog_AppendReplica l m)"

fun log_Read :: "log_impl \<Rightarrow> int \<Rightarrow> int \<Rightarrow> message list result" where
  "log_Read (Mem l) off n = MemLog_Read l off n"
| "log_Read (File l) off n = FileLog_Read l off n"

fun log_Len :: "log_impl \<Rightarrow> int" where
  "log_Len (Mem l) = MemLog_Len l"
| "log_Len (File l) = FileLog_Len l"

fun log_LogEndOffset :: "log_impl \<Rightarrow> int" where
  "log_LogEndOffset (Mem l) = MemLog_LogEndOffset l"
| "log_LogEndOffset (File l) = FileLog_LogEndOffset l"

fun log_TruncateTo :: "log_impl \<Rightarrow> int \<Rightarrow> log_impl \<times> unit result" where
  "log_TruncateTo (Mem l) off = map_prod Mem id (MemLog_TruncateTo l off)"
| "log_TruncateTo (File l) off = map_prod File id (FileLog_TruncateTo l off)"

fun log_msgs :: "log_impl \<Rightarrow> message list" where
  "log_msgs (Mem l) = memMsgs l"
| "log_msgs (File l) = file_msgs l"

fun log_invar :: "log_impl \<Rightarrow> bool" where
  "log_invar (Mem l) = mem_invar l"
| "log_invar (File l) = file_invar l"

fun log_storable :: "log_impl \<Rightarrow> message \<Rightarrow> bool" where
  "log_storable (Mem l) m = True"
| "log_storable (File l) m = file_storable m"

lemma map_prod_map_prod_eq:
  "(\<And>x. f (g x) = h x) \<Longrightarrow> map_prod f id (map_prod g id p) = map_prod h id p"
  by (cases p) simp

interpretation alog: partition_log log_Append log_AppendReplica log_Read log_Len log_TruncateTo
  log_msgs log_invar log_storable
proof (unfold_locales, goal_cases)
  case (1 l)
  then show ?case by (cases l) (simp_all add: mlog.invar_offsets flog.invar_offsets)
next
  case (2 l)
  then show ?case by (cases l) (simp_all add: mlog.len_msgs flog.len_msgs)
next
  case (3 l off n)
  then show ?case by (cases l) (simp_all add: mlog.rd_msgs flog.rd_msgs)
next
  case (4 l m)
  then show ?case
    by (cases l) (simp_all add: map_prod_map_prod_eq mlog.app_msgs flog.app_msgs)
next
  case (5 l m)
  then show ?case by (cases l) (simp_all add: mlog.app_invar flog.app_invar)
next
  case (6 l m)
  then show ?case
    by (cases l) (simp_all add: map_prod_map_prod_eq mlog.rep_msgs flog.rep_msgs)
next
  case (7 l m)
  then show ?case by (cases l) (simp_all add: mlog.rep_invar flog.rep_invar)
next
  case (8 l off)
  then show ?case
    by (cases l) (simp_all add: map_prod_map_prod_eq mlog.trunc_msgs flog.trunc_msgs)
next
  case (9 l off)
  then show ?case by (cases l) (simp_all add: mlog.trunc_invar flog.trunc_invar)
next
  case (10 l m)
  then show ?case by (cases l) (simp_all add: fun_eq_iff)
next
  case (11 l m)
  then show ?case by (cases l) (simp_all add: fun_eq_iff)
next
  case (12 l off)
  then show ?case by (cases l) (simp_all add: fun_eq_iff)
qed

lemma log_LogEndOffset_Len [simp]: "log_LogEndOffset l = log_Len l"
  by (cases l) (simp_all add: MemLog_LogEndOffset_def FileLog_LogEndOffset_def)

lemma log_Len_nonneg [simp]: "0 \<le> log_Len l"
  by (cases l) (simp_all add: MemLog_Len_def FileLog_Len_def)

text \<open>A read never returns more than what lies between its offset and the end, whatever the log holds.\<close>

lemma log_Read_length:
  assumes "log_Read l off n = Inr ms"
  shows "0 \<le> off" "off + int (length ms) \<le> log_Len l"
  using assms
  by (cases l; auto simp: MemLog_Read_def FileLog_Read_def MemLog_Len_def FileLog_Len_def Let_def
      dest!: collect_length split: if_splits)+

end
