(* ===== verification/Partition.thy ===== *)
theory Partition
  imports Any_Log
begin

text \<open>
  The replica of one partition, src/internal/broker/partition.go: its role and leader epoch, the
  high watermark, the leader's view of its followers and the follower's handling of replicated
  records.  Each definition is the body of one method between taking and releasing the partition
  mutex; where a method releases it in the middle (\<open>Append\<close>, \<open>stopBackground\<close>) the critical sections
  are definitions of their own and the method is their composition.  Time is an \<open>int\<close> of
  nanoseconds passed in as \<open>now\<close>; a goroutine the method spawns towards the coordinator is an element
  of the returned list of effects.  The condition variable is modelled by the predicate its waiters
  test.
\<close>

datatype replica_role = Leader | Follower

record replica_state =
  rsBrokerID :: int
  rsLogEndOffset :: int
  rsLastFetchTime :: int
  rsInSync :: bool

datatype background = NoTask | MonitorISR | ReplicationLoop

record partition =
  pTopic :: string
  pId :: int
  pLog :: log_impl
  pRole :: replica_role
  pLeaderEpoch :: int
  pHw :: int
  pReplicas :: "(int, replica_state) gomap"
  pLeaderBroker :: int
  pBackground :: background
  pIsrTimeout :: int
  pIsrTick :: int

record replica_record =
  rrMessage :: message
  rrHighWatermark :: int
  rrLeaderEpoch :: int

datatype effect =
    ReportISRChange string int "int list" int
  | ReportLeaderUnreachable string int int

definition second :: int where
  "second = 1000000000"

definition newPartition :: "string \<Rightarrow> int \<Rightarrow> log_impl \<Rightarrow> int \<Rightarrow> int \<Rightarrow> partition" where
  "newPartition topic i l bIsrTimeout bIsrTick =
     (let isrTimeout = (if bIsrTimeout \<le> 0 then 10 * second else bIsrTimeout);
          isrTick = (if bIsrTick \<le> 0 then second else bIsrTick)
      in \<lparr>pTopic = topic, pId = i, pLog = l, pRole = Leader, pLeaderEpoch = 0,
          pHw = log_LogEndOffset l, pReplicas = [], pLeaderBroker = 0, pBackground = NoTask,
          pIsrTimeout = isrTimeout, pIsrTick = isrTick\<rparr>)"

subsection \<open>Role transitions\<close>

definition stopBackground :: "partition \<Rightarrow> partition" where
  "stopBackground p = (if pBackground p \<noteq> NoTask then p\<lparr>pBackground := NoTask\<rparr> else p)"

text \<open>
  \<open>stopBackground\<close> unlocks the mutex while it waits for a running task, so a role change is two
  critical sections: the epoch check before, and the assignment after.
\<close>

definition epoch_accepted :: "partition \<Rightarrow> int \<Rightarrow> bool" where
  "epoch_accepted p epoch \<longleftrightarrow> \<not> epoch < pLeaderEpoch p"

definition commitLeader :: "partition \<Rightarrow> int \<Rightarrow> partition" where
  "commitLeader p epoch =
     (stopBackground p)\<lparr>pRole := Leader, pLeaderEpoch := epoch, pReplicas := [],
        pBackground := MonitorISR\<rparr>"

definition commitFollower :: "partition \<Rightarrow> int \<Rightarrow> int \<Rightarrow> partition" where
  "commitFollower p leaderBroker epoch =
     (stopBackground p)\<lparr>pRole := Follower, pLeaderEpoch := epoch, pLeaderBroker := leaderBroker,
        pBackground := ReplicationLoop\<rparr>"

definition BecomeLeader :: "partition \<Rightarrow> int \<Rightarrow> int list \<Rightarrow> partition" where
  "BecomeLeader p epoch isr = (if epoch_accepted p epoch then commitLeader p epoch else p)"

definition BecomeFollower :: "partition \<Rightarrow> int \<Rightarrow> int \<Rightarrow> partition" where
  "BecomeFollower p leaderBroker epoch =
     (if epoch_accepted p epoch then commitFollower p leaderBroker epoch else p)"

definition Partition_Close :: "partition \<Rightarrow> partition" where
  "Partition_Close p = stopBackground p"

subsection \<open>The leader's view of its followers\<close>

definition currentISRIDs :: "partition \<Rightarrow> int list" where
  "currentISRIDs p = map fst (filter (\<lambda>(i, r). rsInSync r) (pReplicas p))"

text \<open>The loop over the replicas that all three high-watermark updates contain.\<close>

fun minISR_loop :: "int \<Rightarrow> (int, replica_state) gomap \<Rightarrow> int" where
  "minISR_loop m [] = m"
| "minISR_loop m ((i, r) # rest) =
     minISR_loop (if rsInSync r \<and> rsLogEndOffset r < m then rsLogEndOffset r else m) rest"

definition minISR :: "partition \<Rightarrow> int" where
  "minISR p = minISR_loop (log_LogEndOffset (pLog p)) (pReplicas p)"

definition advanceHW :: "partition \<Rightarrow> partition" where
  "advanceHW p = (if minISR p > pHw p then p\<lparr>pHw := minISR p\<rparr> else p)"

definition reportISR :: "partition \<Rightarrow> effect" where
  "reportISR p = ReportISRChange (pTopic p) (pId p) (currentISRIDs p) (pLeaderEpoch p)"

definition lagging :: "int \<Rightarrow> int \<Rightarrow> replica_state \<Rightarrow> bool" where
  "lagging now timeout r \<longleftrightarrow> rsInSync r \<and> now - rsLastFetchTime r > timeout"

definition monitorISR_tick :: "int \<Rightarrow> partition \<Rightarrow> partition \<times> effect list" where
  "monitorISR_tick now p =
     (let changed = list_ex (\<lambda>(i, r). lagging now (pIsrTimeout p) r) (pReplicas p);
          p1 = p\<lparr>pReplicas := map (\<lambda>(i, r).
                  (i, if lagging now (pIsrTimeout p) r then r\<lparr>rsInSync := False\<rparr> else r)) (pReplicas p)\<rparr>
      in if changed then (advanceHW p1, [reportISR p1]) else (p1, []))"

definition scheduleReplicaEviction :: "int \<Rightarrow> int \<Rightarrow> int \<Rightarrow> partition \<Rightarrow> partition \<times> effect list" where
  "scheduleReplicaEviction replicaID grace now p =
     (if pRole p \<noteq> Leader then (p, [])
      else case map_get (pReplicas p) replicaID of
        None \<Rightarrow> (p, [])
      | Some r \<Rightarrow>
          if \<not> rsInSync r \<or> now - rsLastFetchTime r < grace then (p, [])
          else let p1 = p\<lparr>pReplicas := map_put replicaID (r\<lparr>rsInSync := False\<rparr>) (pReplicas p)\<rparr>
               in (advanceHW p1, [reportISR p1]))"

definition updateReplicaState :: "int \<Rightarrow> int \<Rightarrow> int \<Rightarrow> partition \<Rightarrow> partition \<times> effect list" where
  "updateReplicaState replicaID fetchOffset now p =
     (if pRole p \<noteq> Leader then (p, [])
      else let state = (case map_get (pReplicas p) replicaID of
                 None \<Rightarrow> \<lparr>rsBrokerID = replicaID, rsLogEndOffset = 0, rsLastFetchTime = 0, rsInSync = True\<rparr>
               | Some r \<Rightarrow> r);
               state = state\<lparr>rsLogEndOffset := fetchOffset, rsLastFetchTime := now\<rparr>;
               caughtUp = (\<not> rsInSync state \<and> rsLogEndOffset state \<ge> log_LogEndOffset (pLog p));
               state = (if caughtUp then state\<lparr>rsInSync := True\<rparr> else state);
               p1 = p\<lparr>pReplicas := map_put replicaID state (pReplicas p)\<rparr>
           in (advanceHW p1, if caughtUp then [reportISR p1] else []))"

subsection \<open>Appending and reading\<close>

definition Append_check :: "partition \<Rightarrow> unit result" where
  "Append_check p = (if pRole p \<noteq> Leader then Inl ErrNotLeader else Inr ())"

definition Append_log :: "partition \<Rightarrow> message \<Rightarrow> partition \<times> int result" where
  "Append_log p msg = (let (l, r) = log_Append (pLog p) msg in (p\<lparr>pLog := l\<rparr>, r))"

definition Append_hw :: "partition \<Rightarrow> partition" where
  "Append_hw p = (if pReplicas p = [] then p\<lparr>pHw := log_LogEndOffset (pLog p)\<rparr> else p)"

definition Partition_Append :: "partition \<Rightarrow> message \<Rightarrow> partition \<times> int result" where
  "Partition_Append p msg =
     (case Append_check p of
        Inl e \<Rightarrow> (p, Inl e)
      | Inr _ \<Rightarrow> (case Append_log p msg of
          (p1, Inl e) \<Rightarrow> (p1, Inl e)
        | (p1, Inr offset) \<Rightarrow> (Append_hw p1, Inr offset)))"

definition Partition_AppendReplica :: "partition \<Rightarrow> message \<Rightarrow> partition \<times> unit result" where
  "Partition_AppendReplica p msg =
     (let (l, r) = log_AppendReplica (pLog p) msg in (p\<lparr>pLog := l\<rparr>, r))"

definition Partition_Read :: "partition \<Rightarrow> int \<Rightarrow> int \<Rightarrow> message list result" where
  "Partition_Read p offset maxMsgs =
     (let hw = pHw p
      in if offset \<ge> hw then Inr []
         else case log_Read (pLog p) offset maxMsgs of
           Inl e \<Rightarrow> Inl e
         | Inr msgs \<Rightarrow> Inr (takeWhile (\<lambda>m. msgOffset m < hw) msgs))"

definition ReadReplica :: "partition \<Rightarrow> int \<Rightarrow> int \<Rightarrow> message list result" where
  "ReadReplica p offset maxMsgs = log_Read (pLog p) offset maxMsgs"

definition Partition_HW :: "partition \<Rightarrow> int" where
  "Partition_HW p = pHw p"

definition Partition_LeaderEpoch :: "partition \<Rightarrow> int" where
  "Partition_LeaderEpoch p = pLeaderEpoch p"

definition Partition_LogEndOffset :: "partition \<Rightarrow> int" where
  "Partition_LogEndOffset p = log_LogEndOffset (pLog p)"

definition Partition_Len :: "partition \<Rightarrow> int" where
  "Partition_Len p = log_Len (pLog p)"

text \<open>Whether the loop of \<open>WaitForData\<close> and of \<open>WaitForHW\<close> ends without the context being done.\<close>

definition WaitForData_done :: "partition \<Rightarrow> int \<Rightarrow> bool" where
  "WaitForData_done p minLen \<longleftrightarrow> \<not> log_Len (pLog p) \<le> minLen"

definition WaitForHW_done :: "partition \<Rightarrow> int \<Rightarrow> bool" where
  "WaitForHW_done p hw \<longleftrightarrow> \<not> pHw p \<le> hw"

subsection \<open>The follower's replication loop\<close>

text \<open>
  One record received by \<open>replicationLoop\<close>: cut the log back to the record's offset if it is longer,
  append the record, and raise the high watermark.  \<open>Inl\<close> is the \<open>break\<close> of the receive loop.
\<close>

definition replica_receive :: "partition \<Rightarrow> replica_record \<Rightarrow> partition \<times> unit result" where
  "replica_receive p rec =
     (let leo = log_LogEndOffset (pLog p);
          off = msgOffset (rrMessage rec);
          p1 = (if off \<noteq> leo \<and> off < leo
                then p\<lparr>pLog := fst (log_TruncateTo (pLog p) off)\<rparr> else p)
      in case Partition_AppendReplica p1 (rrMessage rec) of
           (p2, Inl e) \<Rightarrow> (p2, Inl e)
         | (p2, Inr _) \<Rightarrow>
             (if rrHighWatermark rec > pHw p2 then p2\<lparr>pHw := rrHighWatermark rec\<rparr> else p2, Inr ()))"

text \<open>The receive loop over the records a stream delivers before it breaks.\<close>

fun replica_stream :: "partition \<Rightarrow> replica_record list \<Rightarrow> partition" where
  "replica_stream p [] = p"
| "replica_stream p (rec # recs) =
     (case replica_receive p rec of (p', Inl e) \<Rightarrow> p' | (p', Inr _) \<Rightarrow> replica_stream p' recs)"

text \<open>
  One turn of the outer loop: without a client for the leader, or when the stream cannot be opened,
  it only sleeps; otherwise it drains the stream and, unless it was cancelled, reports the leader.
  \<open>connect\<close> is what the gRPC client does with the request: nothing, or a stream of records.
\<close>

record fetch_replica_request =
  frTopic :: string
  frPartition :: int
  frFetchOffset :: int
  frReplicaId :: int
  frLeaderEpoch :: int

definition replication_request :: "int \<Rightarrow> partition \<Rightarrow> fetch_replica_request" where
  "replication_request selfId p =
     \<lparr>frTopic = pTopic p, frPartition = pId p, frFetchOffset = log_LogEndOffset (pLog p),
      frReplicaId = selfId, frLeaderEpoch = pLeaderEpoch p\<rparr>"

definition replicationLoop_turn ::
    "int \<Rightarrow> (int \<Rightarrow> (fetch_replica_request \<Rightarrow> replica_record list option) option) \<Rightarrow> bool \<Rightarrow>
     partition \<Rightarrow> partition \<times> effect list" where
  "replicationLoop_turn selfId peerClients cancelled p =
     (case peerClients (pLeaderBroker p) of
        None \<Rightarrow> (p, [])
      | Some client \<Rightarrow>
         (case client (replication_request selfId p) of
            None \<Rightarrow> (p, [])
          | Some recs \<Rightarrow>
             (replica_stream p recs,
              if cancelled then [] else [ReportLeaderUnreachable (pTopic p) (pId p) (pLeaderBroker p)])))"

subsection \<open>Invariants and runs of a leader\<close>

definition part_inv :: "partition \<Rightarrow> bool" where
  "part_inv p \<longleftrightarrow> log_invar (pLog p) \<and> gomap_ok (pReplicas p) \<and> 0 \<le> pHw p"

definition committed_inv :: "partition \<Rightarrow> bool" where
  "committed_inv p \<longleftrightarrow> part_inv p \<and> pHw p \<le> log_Len (pLog p)"

abbreviation p_msgs :: "partition \<Rightarrow> message list" where
  "p_msgs p \<equiv> log_msgs (pLog p)"

abbreviation leo :: "partition \<Rightarrow> int" where
  "leo p \<equiv> log_Len (pLog p)"

text \<open>Every in-sync replica, as the leader knows it, holds the log up to \<open>h\<close>.\<close>

definition isr_holds :: "partition \<Rightarrow> int \<Rightarrow> bool" where
  "isr_holds p h \<longleftrightarrow> (\<forall>(i, r) \<in> set (pReplicas p). rsInSync r \<longrightarrow> h \<le> rsLogEndOffset r)"

text \<open>What can happen to a partition while it leads: produce, follower fetch, monitor tick, eviction.\<close>

datatype leader_op =
    LProduce message
  | LFetch int int int
  | LTick int
  | LEvict int int int

fun leader_step :: "partition \<Rightarrow> leader_op \<Rightarrow> partition" where
  "leader_step p (LProduce m) = fst (Partition_Append p m)"
| "leader_step p (LFetch i off now) = fst (updateReplicaState i off now p)"
| "leader_step p (LTick now) = fst (monitorISR_tick now p)"
| "leader_step p (LEvict i grace now) = fst (scheduleReplicaEviction i grace now p)"

fun leader_run :: "partition \<Rightarrow> leader_op list \<Rightarrow> partition" where
  "leader_run p [] = p"
| "leader_run p (op # ops) = leader_run (leader_step p op) ops"

fun leader_ops_ok :: "partition \<Rightarrow> leader_op list \<Rightarrow> bool" where
  "leader_ops_ok p [] = True"
| "leader_ops_ok p (op # ops) =
     ((case op of LProduce m \<Rightarrow> log_storable (pLog p) (m\<lparr>msgOffset := leo p\<rparr>) | _ \<Rightarrow> True)
      \<and> leader_ops_ok (leader_step p op) ops)"

text \<open>Role changes one after the other, each finished before the next begins.\<close>

datatype role_change = ToLeader int "int list" | ToFollower int int

fun role_epoch :: "role_change \<Rightarrow> int" where
  "role_epoch (ToLeader epoch isr) = epoch"
| "role_epoch (ToFollower leader epoch) = epoch"

fun change_role :: "partition \<Rightarrow> role_change \<Rightarrow> partition" where
  "change_role p (ToLeader epoch isr) = BecomeLeader p epoch isr"
| "change_role p (ToFollower leader epoch) = BecomeFollower p leader epoch"

text \<open>A partition with an empty in-memory log, for the concrete instances.\<close>

definition fresh_partition :: partition where
  "fresh_partition = newPartition ''t'' 0 (Mem MemLog_new) 0 0"

section \<open>The high watermark\<close>

lemma le_minISR_loop:
  "k \<le> minISR_loop m rs \<longleftrightarrow> k \<le> m \<and> (\<forall>(i, r) \<in> set rs. rsInSync r \<longrightarrow> k \<le> rsLogEndOffset r)"
  by (induction m rs rule: minISR_loop.induct) (auto split: if_splits)

lemma le_minISR: "k \<le> minISR p \<longleftrightarrow> k \<le> leo p \<and> isr_holds p k"
  by (simp add: minISR_def le_minISR_loop isr_holds_def)

lemma minISR_le_leo: "minISR p \<le> leo p"
  using le_minISR [of "minISR p" p] by simp

lemma pHw_advanceHW: "pHw (advanceHW p) = max (pHw p) (minISR p)"
  by (simp add: advanceHW_def max_def)

lemma advanceHW_frame [simp]:
  "pLog (advanceHW p) = pLog p" "pReplicas (advanceHW p) = pReplicas p" "pRole (advanceHW p) = pRole p"
  "pLeaderEpoch (advanceHW p) = pLeaderEpoch p" "pTopic (advanceHW p) = pTopic p"
  "pId (advanceHW p) = pId p" "pIsrTimeout (advanceHW p) = pIsrTimeout p"
  by (simp_all add: advanceHW_def)

lemma advanceHW_raises: "pHw p < pHw (advanceHW p) \<Longrightarrow> isr_holds (advanceHW p) (pHw (advanceHW p))"
proof -
  assume "pHw p < pHw (advanceHW p)"
  then have "pHw (advanceHW p) = minISR p" by (simp add: pHw_advanceHW max_def split: if_splits)
  moreover have "isr_holds p (minISR p)" using le_minISR [of "minISR p" p] by simp
  ultimately show ?thesis by (simp add: isr_holds_def)
qed

text \<open>All three updates are a change of the replica table followed by \<open>advanceHW\<close>.\<close>

definition replicas_step :: "partition \<Rightarrow> partition \<Rightarrow> bool" where
  "replicas_step p q \<longleftrightarrow> (\<exists>rs. (gomap_ok (pReplicas p) \<longrightarrow> gomap_ok rs) \<and>
     (q = p\<lparr>pReplicas := rs\<rparr> \<or> q = advanceHW (p\<lparr>pReplicas := rs\<rparr>)))"

lemma replicas_step_keep: "(gomap_ok (pReplicas p) \<Longrightarrow> gomap_ok rs) \<Longrightarrow> replicas_step p (p\<lparr>pReplicas := rs\<rparr>)"
  by (auto simp: replicas_step_def)

lemma replicas_step_advance:
  "(gomap_ok (pReplicas p) \<Longrightarrow> gomap_ok rs) \<Longrightarrow> replicas_step p (advanceHW (p\<lparr>pReplicas := rs\<rparr>))"
  by (auto simp: replicas_step_def)

lemma replicas_step_refl: "replicas_step p p"
  using replicas_step_keep [of p "pReplicas p"] by simp

lemma replicas_step_update: "replicas_step p (fst (updateReplicaState i off now p))"
  by (simp add: updateReplicaState_def Let_def replicas_step_refl replicas_step_advance)

lemma map_snd_keys: "map fst (map (\<lambda>(i, r). (i, f i r)) rs) = map fst rs"
  by (induction rs) auto

lemma gomap_ok_map: "gomap_ok rs \<Longrightarrow> gomap_ok (map (\<lambda>(i, r). (i, f i r)) rs)"
  unfolding gomap_ok_def map_snd_keys .

lemma replicas_step_tick: "replicas_step p (fst (monitorISR_tick now p))"
  by (simp add: monitorISR_tick_def Let_def gomap_ok_map replicas_step_keep replicas_step_advance)

lemma replicas_step_evict: "replicas_step p (fst (scheduleReplicaEviction i grace now p))"
  by (simp add: scheduleReplicaEviction_def Let_def replicas_step_refl replicas_step_advance
      split: option.splits)

lemma replicas_step_frame:
  assumes "replicas_step p q"
  shows "pLog q = pLog p" "pRole q = pRole p" "pLeaderEpoch q = pLeaderEpoch p"
    "pTopic q = pTopic p" "pId q = pId p"
  using assms by (auto simp: replicas_step_def)

lemma replicas_step_hw:
  assumes "replicas_step p q"
  shows "pHw p \<le> pHw q" "pHw q \<le> max (pHw p) (leo p)"
    "pHw p < pHw q \<Longrightarrow> isr_holds q (pHw q)"
proof -
  have le: "minISR (p\<lparr>pReplicas := rs\<rparr>) \<le> max (pHw p) (leo p)" for rs
    using minISR_le_leo [of "p\<lparr>pReplicas := rs\<rparr>"] by simp
  show "pHw p \<le> pHw q" "pHw q \<le> max (pHw p) (leo p)"
    using assms le by (auto simp: replicas_step_def pHw_advanceHW)
  show "isr_holds q (pHw q)" if "pHw p < pHw q"
    using assms that advanceHW_raises by (auto simp: replicas_step_def)
qed

lemma replicas_step_inv:
  assumes "replicas_step p q" "committed_inv p"
  shows "committed_inv q"
  using replicas_step_frame [OF assms(1)] replicas_step_hw [OF assms(1)] assms
  by (auto simp: committed_inv_def part_inv_def replicas_step_def)

lemmas replicas_steps = replicas_step_update replicas_step_tick replicas_step_evict

section \<open>Appending\<close>

lemma Partition_Append_leader:
  assumes "part_inv p" "pRole p = Leader" "log_storable (pLog p) (m\<lparr>msgOffset := leo p\<rparr>)"
  shows "snd (Partition_Append p m) = Inr (leo p)"
    and "p_msgs (fst (Partition_Append p m)) = p_msgs p @ [m\<lparr>msgOffset := leo p\<rparr>]"
    and "log_invar (pLog (fst (Partition_Append p m)))"
    and "pReplicas (fst (Partition_Append p m)) = pReplicas p"
    and "pHw (fst (Partition_Append p m)) = (if pReplicas p = [] then leo p + 1 else pHw p)"
    and "pRole (fst (Partition_Append p m)) = Leader"
    and "pLeaderEpoch (fst (Partition_Append p m)) = pLeaderEpoch p"
    and "log_storable (pLog (fst (Partition_Append p m))) = log_storable (pLog p)"
proof -
  have inv: "log_invar (pLog p)" and len: "leo p = int (length (p_msgs p))"
    using assms(1) by (auto simp: part_inv_def alog.len_msgs)
  have st: "log_storable (pLog p) (m\<lparr>msgOffset := int (length (p_msgs p))\<rparr>)"
    using assms(3) len by simp
  obtain l where l: "log_Append (pLog p) m = (l, Inr (leo p))"
    using alog.app_result(2) [OF inv st] len by (cases "log_Append (pLog p) m") auto
  note app = alog.app_result(1) [OF inv st] alog.app_invar [OF inv st] alog.storable_app [of "pLog p" m]
  have pa: "Partition_Append p m = (Append_hw (p\<lparr>pLog := l\<rparr>), Inr (leo p))"
    using assms(2) l by (simp add: Partition_Append_def Append_check_def Append_log_def)
  have leo: "log_Len l = leo p + 1" using app l len by (simp add: alog.len_msgs)
  show "snd (Partition_Append p m) = Inr (leo p)"
    and "p_msgs (fst (Partition_Append p m)) = p_msgs p @ [m\<lparr>msgOffset := leo p\<rparr>]"
    and "log_invar (pLog (fst (Partition_Append p m)))"
    and "pReplicas (fst (Partition_Append p m)) = pReplicas p"
    and "pHw (fst (Partition_Append p m)) = (if pReplicas p = [] then leo p + 1 else pHw p)"
    and "pRole (fst (Partition_Append p m)) = Leader"
    and "pLeaderEpoch (fst (Partition_Append p m)) = pLeaderEpoch p"
    and "log_storable (pLog (fst (Partition_Append p m))) = log_storable (pLog p)"
    using app l len leo assms(2) by (simp_all add: pa Append_hw_def)
qed

lemma committed_inv_append:
  assumes "committed_inv p" "pRole p = Leader" "log_storable (pLog p) (m\<lparr>msgOffset := leo p\<rparr>)"
  shows "committed_inv (fst (Partition_Append p m))" "pHw p \<le> pHw (fst (Partition_Append p m))"
    "isr_holds (fst (Partition_Append p m)) (pHw (fst (Partition_Append p m))) \<or>
      pHw (fst (Partition_Append p m)) = pHw p"
proof -
  have inv: "part_inv p" using assms(1) by (simp add: committed_inv_def)
  note app = Partition_Append_leader [OF inv assms(2,3)]
  have "leo (fst (Partition_Append p m)) = leo p + 1"
    using app(2,3) inv by (simp add: alog.len_msgs part_inv_def)
  then show "committed_inv (fst (Partition_Append p m))" "pHw p \<le> pHw (fst (Partition_Append p m))"
    "isr_holds (fst (Partition_Append p m)) (pHw (fst (Partition_Append p m))) \<or>
      pHw (fst (Partition_Append p m)) = pHw p"
    using app assms(1) by (auto simp: committed_inv_def part_inv_def isr_holds_def)
qed

section \<open>Runs of a leader\<close>

lemma leader_step_replicas:
  "\<nexists>m. op = LProduce m \<Longrightarrow> replicas_step p (leader_step p op)"
  by (cases op) (simp_all add: replicas_steps)

lemma leader_step_correct:
  assumes "committed_inv p" "pRole p = Leader" "leader_ops_ok p [op]"
  shows "committed_inv (leader_step p op)" "pRole (leader_step p op) = Leader"
    "pHw p \<le> pHw (leader_step p op)"
    "pHw p < pHw (leader_step p op) \<Longrightarrow> isr_holds (leader_step p op) (pHw (leader_step p op))"
    "\<exists>ms. p_msgs (leader_step p op) = p_msgs p @ ms"
    "pLeaderEpoch (leader_step p op) = pLeaderEpoch p"
proof -
  have "committed_inv (leader_step p op) \<and> pRole (leader_step p op) = Leader
    \<and> pHw p \<le> pHw (leader_step p op)
    \<and> (pHw p < pHw (leader_step p op) \<longrightarrow> isr_holds (leader_step p op) (pHw (leader_step p op)))
    \<and> (\<exists>ms. p_msgs (leader_step p op) = p_msgs p @ ms)
    \<and> pLeaderEpoch (leader_step p op) = pLeaderEpoch p"
  proof (cases "\<exists>m. op = LProduce m")
    case True
    then obtain m where op: "op = LProduce m" by blast
    then have st: "log_storable (pLog p) (m\<lparr>msgOffset := leo p\<rparr>)" using assms(3) by simp
    have inv: "part_inv p" using assms(1) by (simp add: committed_inv_def)
    show ?thesis
      using op committed_inv_append [OF assms(1,2) st] Partition_Append_leader [OF inv assms(2) st]
      by auto
  next
    case False
    then have st: "replicas_step p (leader_step p op)" by (simp add: leader_step_replicas)
    show ?thesis
      using replicas_step_frame [OF st] replicas_step_hw [OF st] replicas_step_inv [OF st] assms by auto
  qed
  then show "committed_inv (leader_step p op)" "pRole (leader_step p op) = Leader"
    "pHw p \<le> pHw (leader_step p op)"
    "pHw p < pHw (leader_step p op) \<Longrightarrow> isr_holds (leader_step p op) (pHw (leader_step p op))"
    "\<exists>ms. p_msgs (leader_step p op) = p_msgs p @ ms"
    "pLeaderEpoch (leader_step p op) = pLeaderEpoch p"
    by auto
qed

lemma leader_ops_ok_Cons: "leader_ops_ok p (op # ops) \<Longrightarrow> leader_ops_ok p [op] \<and> leader_ops_ok (leader_step p op) ops"
  by simp

lemma leader_run_correct:
  assumes "committed_inv p" "pRole p = Leader" "leader_ops_ok p ops"
  shows "committed_inv (leader_run p ops) \<and> pRole (leader_run p ops) = Leader
    \<and> pHw p \<le> pHw (leader_run p ops) \<and> (\<exists>ms. p_msgs (leader_run p ops) = p_msgs p @ ms)
    \<and> pLeaderEpoch (leader_run p ops) = pLeaderEpoch p"
  using assms
proof (induction ops arbitrary: p)
  case Nil
  then show ?case by simp
next
  case (Cons op ops)
  note ok = leader_ops_ok_Cons [OF Cons.prems(3)]
  note step = leader_step_correct [OF Cons.prems(1,2) conjunct1 [OF ok]]
  note IH = Cons.IH [OF step(1,2) conjunct2 [OF ok]]
  from step(5) IH obtain ms ms' where "p_msgs (leader_run (leader_step p op) ops) = p_msgs p @ ms @ ms'"
    by fastforce
  then show ?case using IH step(3,6) by auto
qed

lemma committed_inv_new:
  "log_invar l \<Longrightarrow> committed_inv (newPartition t i l a b) \<and> pRole (newPartition t i l a b) = Leader"
  by (simp add: newPartition_def committed_inv_def part_inv_def Let_def)

section \<open>Reading\<close>

lemma takeWhile_offsets:
  assumes "\<And>i. i < length xs \<Longrightarrow> msgOffset (xs ! i) = off + int i"
  shows "takeWhile (\<lambda>m. msgOffset m < hw) xs = take (nat (hw - off)) xs"
  using assms
proof (induction xs arbitrary: off)
  case Nil
  then show ?case by simp
next
  case (Cons x xs)
  have x: "msgOffset x = off" using Cons.prems [of 0] by simp
  have "msgOffset (xs ! i) = (off + 1) + int i" if "i < length xs" for i
    using Cons.prems [of "Suc i"] that by simp
  from Cons.IH [OF this] have "takeWhile (\<lambda>m. msgOffset m < hw) xs = take (nat (hw - (off + 1))) xs" .
  moreover have "nat (hw - off) = Suc (nat (hw - (off + 1)))" if "off < hw" using that by simp
  ultimately show ?case using x by (cases "off < hw") simp_all
qed

lemma Partition_Read_spec:
  assumes "log_invar (pLog p)" "0 \<le> off" "off < pHw p" "off \<le> leo p" "0 \<le> n" "off + n < 2 ^ 63"
  shows "Partition_Read p off n = Inr (take (nat (min n (pHw p - off))) (drop (nat off) (p_msgs p)))"
proof -
  let ?ms = "take (nat n) (drop (nat off) (p_msgs p))"
  have r: "log_Read (pLog p) off n = Inr ?ms"
    using assms by (simp add: alog.rd_msgs spec_read_in_range alog.len_msgs)
  have "msgOffset (?ms ! i) = off + int i" if "i < length ?ms" for i
    using alog.read_offsets [OF assms(1) r that] .
  then have "takeWhile (\<lambda>m. msgOffset m < pHw p) ?ms = take (nat (pHw p - off)) ?ms"
    by (rule takeWhile_offsets)
  moreover have "min (nat (pHw p - off)) (nat n) = nat (min n (pHw p - off))"
    by (auto simp: min_def)
  ultimately show ?thesis
    using assms r by (simp add: Partition_Read_def Let_def)
qed

lemma Partition_Read_Inr:
  assumes "log_invar (pLog p)" "Partition_Read p off n = Inr xs" "i < length xs"
  shows "xs ! i = p_msgs p ! (nat off + i)" "nat off + i < length (p_msgs p)"
    "off + int i < pHw p" "msgOffset (xs ! i) = off + int i" "0 \<le> off"
proof -
  obtain ms where r: "log_Read (pLog p) off n = Inr ms" and xs: "xs = takeWhile (\<lambda>m. msgOffset m < pHw p) ms"
    using assms(2,3) by (auto simp: Partition_Read_def Let_def split: if_splits sum.splits)
  have i: "i < length ms" using assms(3) xs length_takeWhile_le order_less_le_trans by blast
  have nth: "xs ! i = ms ! i" using assms(3) xs by (simp add: takeWhile_nth)
  show "xs ! i = p_msgs p ! (nat off + i)" "nat off + i < length (p_msgs p)"
    using alog.read_from_log [OF assms(1) r i] nth by simp_all
  show o: "msgOffset (xs ! i) = off + int i" using alog.read_offsets [OF assms(1) r i] nth by simp
  have "msgOffset (xs ! i) < pHw p"
    using assms(3) xs by (metis nth_mem set_takeWhileD)
  then show "off + int i < pHw p" using o by simp
  show "0 \<le> off" using log_Read_length(1) [OF r] .
qed

section \<open>Replication and roles\<close>

lemma replica_receive_in_order:
  assumes "log_invar (pLog p)" "msgOffset (rrMessage rec) = leo p" "log_storable (pLog p) (rrMessage rec)"
  shows "snd (replica_receive p rec) = Inr ()"
    and "p_msgs (fst (replica_receive p rec)) = p_msgs p @ [rrMessage rec]"
    and "log_invar (pLog (fst (replica_receive p rec)))"
    and "pHw (fst (replica_receive p rec)) = max (pHw p) (rrHighWatermark rec)"
    and "pReplicas (fst (replica_receive p rec)) = pReplicas p"
    and "pRole (fst (replica_receive p rec)) = pRole p"
    and "log_storable (pLog (fst (replica_receive p rec))) = log_storable (pLog p)"
proof -
  have len: "leo p = int (length (p_msgs p))" using assms(1) by (simp add: alog.len_msgs)
  note rep = alog.rep_result [OF assms(1), of "rrMessage rec"] alog.rep_invar [OF assms(1), of "rrMessage rec"]
    alog.storable_rep [of "pLog p" "rrMessage rec"]
  obtain l where l: "log_AppendReplica (pLog p) (rrMessage rec) = (l, Inr ())"
    using rep(2) assms len by (cases "log_AppendReplica (pLog p) (rrMessage rec)")
      (simp add: spec_append_replica_def)
  show "snd (replica_receive p rec) = Inr ()"
    and "p_msgs (fst (replica_receive p rec)) = p_msgs p @ [rrMessage rec]"
    and "log_invar (pLog (fst (replica_receive p rec)))"
    and "pHw (fst (replica_receive p rec)) = max (pHw p) (rrHighWatermark rec)"
    and "pReplicas (fst (replica_receive p rec)) = pReplicas p"
    and "pRole (fst (replica_receive p rec)) = pRole p"
    and "log_storable (pLog (fst (replica_receive p rec))) = log_storable (pLog p)"
    using rep l assms len
    by (auto simp: replica_receive_def Partition_AppendReplica_def Let_def spec_append_replica_def max_def)
qed

lemma role_changes_hd:
  "pLeaderEpoch (change_role p c) = max (pLeaderEpoch p) (role_epoch c)"
  by (cases c) (auto simp: BecomeLeader_def BecomeFollower_def epoch_accepted_def commitLeader_def
      commitFollower_def)

lemma change_role_frame:
  "pLog (change_role p c) = pLog p \<and> pHw (change_role p c) = pHw p"
  by (cases c) (auto simp: BecomeLeader_def BecomeFollower_def commitLeader_def commitFollower_def
      stopBackground_def)

lemma committed_inv_fresh: "committed_inv fresh_partition" "pRole fresh_partition = Leader"
  using committed_inv_new [of "Mem MemLog_new"] by (auto simp: fresh_partition_def)

lemma spec_truncate_in_range:
  "0 \<le> off \<Longrightarrow> off \<le> int (length ms) \<Longrightarrow> spec_truncate ms off = (take (nat off) ms, Inr ())"
  by (simp add: spec_truncate_def)

lemma replica_receive_cut:
  assumes "log_invar (pLog p)" "0 \<le> msgOffset (rrMessage rec)" "msgOffset (rrMessage rec) < leo p"
  defines "q \<equiv> p\<lparr>pLog := fst (log_TruncateTo (pLog p) (msgOffset (rrMessage rec)))\<rparr>"
  shows "replica_receive p rec = replica_receive q rec"
    and "log_invar (pLog q)" "p_msgs q = take (nat (msgOffset (rrMessage rec))) (p_msgs p)"
    and "leo q = msgOffset (rrMessage rec)" "log_storable (pLog q) = log_storable (pLog p)"
proof -
  let ?off = "msgOffset (rrMessage rec)"
  have len: "leo p = int (length (p_msgs p))" using assms(1) by (simp add: alog.len_msgs)
  show i: "log_invar (pLog q)" and m: "p_msgs q = take (nat ?off) (p_msgs p)"
    and "log_storable (pLog q) = log_storable (pLog p)"
    using assms len alog.trunc_result(1) [OF assms(1), of ?off] alog.trunc_invar [OF assms(1), of ?off]
    by (simp_all add: alog.storable_trunc spec_truncate_in_range)
  show l: "leo q = ?off" using m assms(2,3) len by (simp add: alog.len_msgs [OF i])
  show "replica_receive p rec = replica_receive q rec"
    using assms(3) l by (simp add: replica_receive_def q_def Let_def)
qed

lemma replica_receive_rejects:
  assumes "log_invar (pLog p)" "msgOffset (rrMessage rec) < 0 \<or> leo p < msgOffset (rrMessage rec)"
    and "log_storable (pLog p) (rrMessage rec)"
  shows "\<exists>e. snd (replica_receive p rec) = Inl e"
    and "p_msgs (fst (replica_receive p rec)) = p_msgs p" "pHw (fst (replica_receive p rec)) = pHw p"
proof -
  let ?off = "msgOffset (rrMessage rec)"
  let ?l = "if ?off \<noteq> leo p \<and> ?off < leo p then fst (log_TruncateTo (pLog p) ?off) else pLog p"
  have len: "leo p = int (length (p_msgs p))" using assms(1) by (simp add: alog.len_msgs)
  have l: "log_msgs ?l = p_msgs p" "log_invar ?l" "log_storable ?l (rrMessage rec)"
    using assms len alog.trunc_result(1) [OF assms(1), of ?off] alog.trunc_invar [OF assms(1), of ?off]
    by (auto simp: alog.storable_trunc spec_truncate_def)
  have ne: "?off \<noteq> int (length (p_msgs p))" using assms(2) len by linarith
  obtain l' e where r: "log_AppendReplica ?l (rrMessage rec) = (l', Inl e)" "log_msgs l' = p_msgs p"
    using alog.rep_result [OF l(2,3)] l(1) ne
    by (cases "log_AppendReplica ?l (rrMessage rec)") (simp add: spec_append_replica_def)
  have q: "pLog (if ?off \<noteq> leo p \<and> ?off < leo p then p\<lparr>pLog := fst (log_TruncateTo (pLog p) ?off)\<rparr> else p) = ?l"
    "pHw (if ?off \<noteq> leo p \<and> ?off < leo p then p\<lparr>pLog := fst (log_TruncateTo (pLog p) ?off)\<rparr> else p) = pHw p"
    by simp_all
  show "\<exists>e. snd (replica_receive p rec) = Inl e"
    and "p_msgs (fst (replica_receive p rec)) = p_msgs p" "pHw (fst (replica_receive p rec)) = pHw p"
    using r q by (auto simp: replica_receive_def Partition_AppendReplica_def Let_def)
qed

lemma filter_same_iff:
  "map fst (filter (\<lambda>x. P x \<and> Q x) xs) = map fst (filter P xs) \<longleftrightarrow> (\<forall>x \<in> set xs. P x \<longrightarrow> Q x)"
proof
  assume "map fst (filter (\<lambda>x. P x \<and> Q x) xs) = map fst (filter P xs)"
  moreover have "filter (\<lambda>x. P x \<and> Q x) xs = filter Q (filter P xs)" by (simp add: conj_commute)
  ultimately have "length (filter Q (filter P xs)) = length (filter P xs)" by (metis length_map)
  then show "\<forall>x \<in> set xs. P x \<longrightarrow> Q x" using length_filter_less [of _ "filter P xs" Q] by fastforce
qed (auto intro!: arg_cong [of _ _ "map fst"] filter_cong)

lemma map_fst_kept: "map (fst \<circ> (\<lambda>(i, r). (i, f i r))) rs = map fst rs"
  by (simp add: case_prod_unfold comp_def)

lemma currentISRIDs_evicted:
  "map fst (filter (\<lambda>(i, r). rsInSync r)
      (map (\<lambda>(i, r). (i, if lagging now t r then r\<lparr>rsInSync := False\<rparr> else r)) rs))
   = map fst (filter (\<lambda>(i, r). rsInSync r \<and> now - rsLastFetchTime r \<le> t) rs)"
  by (induction rs) (auto simp: lagging_def split: if_splits)

text \<open>A partition with one message and a record for its offset, for the concrete instances.\<close>

definition one_msg :: partition where
  "one_msg = leader_step fresh_partition (LProduce msg_hello)"

definition rec_hello :: replica_record where
  "rec_hello = \<lparr>rrMessage = msg_hello, rrHighWatermark = 3, rrLeaderEpoch = 1\<rparr>"

section \<open>Properties\<close>

text \<open>
  C19: While a partition leads, whatever sequence of produces, follower fetches, monitor ticks and
  evictions happens, the high watermark stays within the log and never falls, offsets equal
  positions, and the log only grows.
\<close>

theorem leader_run_invariant:
  assumes "log_invar l" "leader_ops_ok (newPartition t i l a b) ops"
  shows "let p = leader_run (newPartition t i l a b) ops in
    log_Len l \<le> pHw p \<and> pHw p \<le> Partition_LogEndOffset p \<and> offsets_ok (log_msgs (pLog p))
    \<and> (\<exists>ms. log_msgs (pLog p) = log_msgs l @ ms) \<and> pRole p = Leader"
proof -
  let ?p0 = "newPartition t i l a b"
  have new: "committed_inv ?p0" "pRole ?p0 = Leader" using committed_inv_new [OF assms(1)] by auto
  have hw: "pHw ?p0 = log_Len l" "pLog ?p0 = l" by (simp_all add: newPartition_def Let_def)
  show ?thesis
    using leader_run_correct [OF new assms(2)] hw
    by (simp add: Let_def committed_inv_def part_inv_def Partition_LogEndOffset_def alog.invar_offsets)
qed

theorem leader_run_invariant_witness:
  "let p = leader_run (newPartition ''t'' 0 (Mem MemLog_new) 0 0)
       [LProduce msg_hello, LFetch 2 0 5, LProduce msg_hello, LFetch 2 2 6, LTick 99999999999]
   in 0 \<le> pHw p \<and> pHw p \<le> Partition_LogEndOffset p \<and> offsets_ok (log_msgs (pLog p))
      \<and> (\<exists>ms. log_msgs (pLog p) = [] @ ms) \<and> pRole p = Leader"
  using leader_run_invariant [of "Mem MemLog_new" "''t''" 0 0 0
      "[LProduce msg_hello, LFetch 2 0 5, LProduce msg_hello, LFetch 2 2 6, LTick 99999999999]"]
  by (simp add: newPartition_def MemLog_new_def MemLog_Len_def Partition_Append_def Append_check_def
      Append_log_def updateReplicaState_def MemLog_Append_def Append_hw_def mem_invar_def Let_def
      MemLog_LogEndOffset_def)

text \<open>
  The high watermark of a leader rises only to an offset that every replica it counts as in sync
  has reported, and that its own log holds.
\<close>

lemma hw_rises_to_isr_offset:
  assumes "committed_inv p" "pRole p = Leader" "leader_ops_ok p [op]"
    and "pHw p < pHw (leader_step p op)"
  shows "(\<forall>(i, r) \<in> set (pReplicas (leader_step p op)). rsInSync r \<longrightarrow> pHw (leader_step p op) \<le> rsLogEndOffset r)
    \<and> pHw (leader_step p op) \<le> Partition_LogEndOffset (leader_step p op)"
  using leader_step_correct(1,4) [OF assms(1-3)] assms(4)
  by (simp add: isr_holds_def committed_inv_def Partition_LogEndOffset_def)

lemma hw_rises_to_isr_offset_witness:
  "(\<forall>(i, r) \<in> set (pReplicas (leader_step fresh_partition (LProduce msg_hello))).
      rsInSync r \<longrightarrow> pHw (leader_step fresh_partition (LProduce msg_hello)) \<le> rsLogEndOffset r)
    \<and> pHw (leader_step fresh_partition (LProduce msg_hello))
        \<le> Partition_LogEndOffset (leader_step fresh_partition (LProduce msg_hello))"
proof (rule hw_rises_to_isr_offset)
  show "leader_ops_ok fresh_partition [LProduce msg_hello]"
    by (simp add: fresh_partition_def newPartition_def Let_def)
  show "pHw fresh_partition < pHw (leader_step fresh_partition (LProduce msg_hello))"
    by code_simp
qed (rule committed_inv_fresh)+



text \<open>
  A consumer read below the high watermark returns exactly the log from the requested offset on,
  cut at the batch size, at the high watermark and at the end of the log.
\<close>

lemma committed_read_exact:
  assumes "log_invar (pLog p)" "0 \<le> off" "off < pHw p" "off \<le> Partition_LogEndOffset p"
    and "0 \<le> n" "off + n < 2 ^ 63"
  shows "Partition_Read p off n = Inr (take (nat (min n (pHw p - off))) (drop (nat off) (log_msgs (pLog p))))"
  using assms by (intro Partition_Read_spec) (simp_all add: Partition_LogEndOffset_def)

lemma committed_read_exact_witness:
  "Partition_Read (leader_step fresh_partition (LProduce msg_hello)) 0 64 =
    Inr (take (nat (min 64 (pHw (leader_step fresh_partition (LProduce msg_hello)) - 0)))
      (drop (nat 0) (log_msgs (pLog (leader_step fresh_partition (LProduce msg_hello))))))"
  by (rule committed_read_exact) code_simp+

text \<open>
  C21: What a consumer has read stays: after any further activity of the leader, reading the same
  offset again returns the same messages.
\<close>

theorem committed_reads_stable:
  assumes "committed_inv p" "pRole p = Leader" "leader_ops_ok p ops"
    and "Partition_Read p off n = Inr xs" "xs \<noteq> []" "off + int (length xs) < 2 ^ 63"
  shows "Partition_Read (leader_run p ops) off (int (length xs)) = Inr xs"
proof -
  let ?q = "leader_run p ops"
  have pinv: "log_invar (pLog p)" using assms(1) by (simp add: committed_inv_def part_inv_def)
  note rd = Partition_Read_Inr [OF pinv assms(4)]
  have q: "committed_inv ?q" "pHw p \<le> pHw ?q" using leader_run_correct [OF assms(1-3)] by auto
  obtain ms where ms: "p_msgs ?q = p_msgs p @ ms" using leader_run_correct [OF assms(1-3)] by blast
  let ?l = "length xs - 1"
  have l: "?l < length xs" using assms(5) by simp
  have off: "0 \<le> off" "off + int (length xs) \<le> pHw ?q"
    using rd(3,5) [OF l] q(2) l by auto
  have below: "off < pHw ?q" using off l by linarith
  have "Partition_Read ?q off (int (length xs)) =
      Inr (take (nat (min (int (length xs)) (pHw ?q - off))) (drop (nat off) (p_msgs ?q)))"
    using q(1) off below assms(6) by (intro Partition_Read_spec)
      (auto simp: committed_inv_def part_inv_def)
  also have "take (nat (min (int (length xs)) (pHw ?q - off))) (drop (nat off) (p_msgs ?q)) = xs"
  proof (rule nth_equalityI)
    have "nat off + length xs \<le> length (p_msgs p)" using rd(2) [OF l] l by simp
    then show "length (take (nat (min (int (length xs)) (pHw ?q - off))) (drop (nat off) (p_msgs ?q))) = length xs"
      using off ms by simp
    fix j
    assume "j < length (take (nat (min (int (length xs)) (pHw ?q - off))) (drop (nat off) (p_msgs ?q)))"
    then have j: "j < length xs" using off by simp
    show "take (nat (min (int (length xs)) (pHw ?q - off))) (drop (nat off) (p_msgs ?q)) ! j = xs ! j"
      using j off ms rd(1,2) [OF j] by (simp add: nth_append)
  qed
  finally show ?thesis .
qed

theorem committed_reads_stable_witness:
  "Partition_Read (leader_run (leader_step fresh_partition (LProduce msg_hello)) [LProduce msg_hello, LFetch 2 0 5])
     0 (int (length [msg_hello])) = Inr [msg_hello]"
  by (rule committed_reads_stable [where n = 64]) code_simp+

text \<open>
  One turn of the ISR monitor takes exactly the replicas out of the ISR that have been silent for
  longer than the timeout; it reports the remaining ISR, with the current epoch, exactly when it
  took one out, and it never forgets a replica.
\<close>

lemma monitorISR_evicts_exactly:
  "let live = map fst (filter (\<lambda>(i, r). rsInSync r \<and> now - rsLastFetchTime r \<le> pIsrTimeout p) (pReplicas p))
   in currentISRIDs (fst (monitorISR_tick now p)) = live
    \<and> snd (monitorISR_tick now p) =
        (if live = currentISRIDs p then [] else [ReportISRChange (pTopic p) (pId p) live (pLeaderEpoch p)])
    \<and> map fst (pReplicas (fst (monitorISR_tick now p))) = map fst (pReplicas p)"
proof -
  let ?live = "map fst (filter (\<lambda>(i, r). rsInSync r \<and> now - rsLastFetchTime r \<le> pIsrTimeout p) (pReplicas p))"
  let ?q = "p\<lparr>pReplicas := map (\<lambda>(i, r). (i, if lagging now (pIsrTimeout p) r then r\<lparr>rsInSync := False\<rparr> else r))
      (pReplicas p)\<rparr>"
  let ?late = "list_ex (\<lambda>(i, r). lagging now (pIsrTimeout p) r) (pReplicas p)"
  have q: "currentISRIDs ?q = ?live"
    by (simp add: currentISRIDs_def currentISRIDs_evicted)
  have same: "?live = currentISRIDs p \<longleftrightarrow> \<not> ?late"
    using filter_same_iff [of "\<lambda>x. rsInSync (snd x)" "\<lambda>x. now - rsLastFetchTime (snd x) \<le> pIsrTimeout p" "pReplicas p"]
    by (auto simp: currentISRIDs_def list_ex_iff lagging_def case_prod_unfold not_less)
  have adv: "currentISRIDs (advanceHW ?q) = currentISRIDs ?q" by (simp add: currentISRIDs_def)
  show ?thesis
    using q same adv by (simp add: Let_def monitorISR_tick_def reportISR_def map_fst_kept)
qed

text \<open>
  What a follower does with a replicated record, for every offset: at or below its log end the
  log is cut there and the record appended, and the high watermark rises to the leader's; a negative
  offset or one beyond the log end is refused and changes neither log nor high watermark.
\<close>

lemma replica_receive_exact:
  assumes "log_invar (pLog p)" "log_storable (pLog p) (rrMessage rec)"
  defines "off \<equiv> msgOffset (rrMessage rec)"
  shows "if 0 \<le> off \<and> off \<le> Partition_LogEndOffset p
    then snd (replica_receive p rec) = Inr ()
      \<and> log_msgs (pLog (fst (replica_receive p rec))) = take (nat off) (log_msgs (pLog p)) @ [rrMessage rec]
      \<and> pHw (fst (replica_receive p rec)) = max (pHw p) (rrHighWatermark rec)
    else (\<exists>e. snd (replica_receive p rec) = Inl e)
      \<and> log_msgs (pLog (fst (replica_receive p rec))) = log_msgs (pLog p)
      \<and> pHw (fst (replica_receive p rec)) = pHw p"
proof -
  consider (cut) "0 \<le> off" "off < leo p" | (eq) "off = leo p" | (bad) "off < 0 \<or> leo p < off" by linarith
  then show ?thesis
  proof cases
    case cut
    note c = replica_receive_cut [OF assms(1) cut [unfolded off_def]]
    show ?thesis
      using replica_receive_in_order [OF c(2)] c cut assms(2)
      by (simp add: off_def Partition_LogEndOffset_def)
  next
    case eq
    moreover have "0 \<le> leo p" "nat (leo p) = length (p_msgs p)"
      using alog.len_msgs [OF assms(1)] by simp_all
    ultimately show ?thesis
      using replica_receive_in_order [OF assms(1) _ assms(2)] by (simp add: off_def Partition_LogEndOffset_def)
  next
    case bad
    then show ?thesis
      using replica_receive_rejects [OF assms(1) _ assms(2)] by (auto simp: off_def Partition_LogEndOffset_def)
  qed
qed

lemma replica_receive_exact_witness:
  "log_msgs (pLog (fst (replica_receive one_msg rec_hello))) = [rrMessage rec_hello]
    \<and> pHw (fst (replica_receive one_msg rec_hello)) = 3"
proof -
  have "log_invar (pLog one_msg)" "log_storable (pLog one_msg) (rrMessage rec_hello)" by code_simp+
  note r = replica_receive_exact [OF this]
  have "0 \<le> msgOffset (rrMessage rec_hello)
      \<and> msgOffset (rrMessage rec_hello) \<le> Partition_LogEndOffset one_msg" by code_simp
  moreover have "nat (msgOffset (rrMessage rec_hello)) = 0" "max (pHw one_msg) (rrHighWatermark rec_hello) = 3"
    by code_simp+
  ultimately show ?thesis using r by simp
qed

text \<open>
  C35: The epoch fence of role changes carried out one after the other: a request with a smaller epoch
  changes nothing, the epoch becomes the larger of the two, and neither the log nor the high
  watermark is touched.
\<close>

theorem role_change_epoch_fence:
  "(role_epoch c < pLeaderEpoch p \<longrightarrow> change_role p c = p)
   \<and> pLeaderEpoch (fold (\<lambda>c p. change_role p c) cs p) = fold max (map role_epoch cs) (pLeaderEpoch p)
   \<and> pLog (change_role p c) = pLog p \<and> pHw (change_role p c) = pHw p"
proof (intro conjI impI)
  show "change_role p c = p" if "role_epoch c < pLeaderEpoch p"
    using that by (cases c) (simp_all add: BecomeLeader_def BecomeFollower_def epoch_accepted_def)
  show "pLeaderEpoch (fold (\<lambda>c p. change_role p c) cs p) = fold max (map role_epoch cs) (pLeaderEpoch p)"
    by (induction cs arbitrary: p) (simp_all add: role_changes_hd max.commute)
qed (simp_all add: change_role_frame)

theorem role_change_epoch_fence_witness:
  "change_role (BecomeLeader fresh_partition 3 []) (ToFollower 1 0) = BecomeLeader fresh_partition 3 []
   \<and> pLeaderEpoch (fold (\<lambda>c p. change_role p c) [ToLeader 4 [], ToFollower 2 1] (BecomeLeader fresh_partition 3 [])) = 4"
proof -
  have "role_epoch (ToFollower 1 0) < pLeaderEpoch (BecomeLeader fresh_partition 3 [])"
    "fold max (map role_epoch [ToLeader 4 [], ToFollower 2 1]) (pLeaderEpoch (BecomeLeader fresh_partition 3 [])) = 4" by code_simp+
  then show ?thesis
    using role_change_epoch_fence [where p = "BecomeLeader fresh_partition 3 []" and c = "ToFollower 1 0"
        and cs = "[ToLeader 4 [], ToFollower 2 1]"] by metis
qed

text \<open>
  The epoch is not checked again after \<open>stopBackground\<close> has given up the mutex: when two role
  changes have both passed the check, the one with the smaller epoch can be the last to be
  assigned, and the partition ends in the older epoch and in the role of the older request.
\<close>

lemma role_change_race_lowers_epoch:
  "\<exists>p. pBackground p \<noteq> NoTask \<and> epoch_accepted p 5 \<and> epoch_accepted p 6 \<and>
     pLeaderEpoch (commitLeader (commitFollower p 2 6) 5) = 5 \<and>
     pRole (commitLeader (commitFollower p 2 6) 5) = Leader"
  by (intro exI [of _ "BecomeLeader fresh_partition 1 []"])
     (simp add: BecomeLeader_def epoch_accepted_def commitLeader_def commitFollower_def
       fresh_partition_def newPartition_def Let_def stopBackground_def)

text \<open>
  \<open>Append\<close> checks the role and appends in different critical sections: a role change to follower
  between the two lets the produced message into the follower's log, acknowledged and, when the
  replica table is empty, at once visible below the follower's high watermark.
\<close>

lemma append_race_writes_to_follower:
  assumes "part_inv p" "Append_check p = Inr ()" "epoch_accepted p epoch"
    and "log_storable (pLog p) (m\<lparr>msgOffset := leo p\<rparr>)" "pReplicas p = []"
  shows "let f = BecomeFollower p leader epoch in pRole f = Follower \<and>
    (\<exists>f'. Append_log f m = (f', Inr (leo p)) \<and> pRole (Append_hw f') = Follower
       \<and> log_msgs (pLog (Append_hw f')) = log_msgs (pLog p) @ [m\<lparr>msgOffset := leo p\<rparr>]
       \<and> pHw (Append_hw f') = leo p + 1)"
proof -
  let ?f = "BecomeFollower p leader epoch"
  have f: "pRole ?f = Follower" "pLog ?f = pLog p" "pReplicas ?f = []"
    using assms(3,5) by (simp_all add: BecomeFollower_def commitFollower_def stopBackground_def)
  have inv: "log_invar (pLog p)" and len: "leo p = int (length (p_msgs p))"
    using assms(1) by (auto simp: part_inv_def alog.len_msgs)
  have st: "log_storable (pLog p) (m\<lparr>msgOffset := int (length (p_msgs p))\<rparr>)" using assms(4) len by simp
  obtain l where l: "log_Append (pLog p) m = (l, Inr (leo p))"
    using alog.app_result(2) [OF inv st] len by (cases "log_Append (pLog p) m") auto
  have "log_Len l = leo p + 1" "log_msgs l = p_msgs p @ [m\<lparr>msgOffset := leo p\<rparr>]"
    using alog.app_result(1) [OF inv st] alog.app_invar [OF inv st] l len by (simp_all add: alog.len_msgs)
  then show ?thesis using f l by (simp add: Let_def Append_log_def Append_hw_def)
qed

lemma append_race_writes_to_follower_witness:
  "let f = BecomeFollower fresh_partition 2 1 in pRole f = Follower \<and>
    (\<exists>f'. Append_log f msg_hello = (f', Inr (leo fresh_partition)) \<and> pRole (Append_hw f') = Follower
       \<and> log_msgs (pLog (Append_hw f')) = log_msgs (pLog fresh_partition) @ [msg_hello\<lparr>msgOffset := leo fresh_partition\<rparr>]
       \<and> pHw (Append_hw f') = leo fresh_partition + 1)"
  by (rule append_race_writes_to_follower) code_simp+

end
