(* ===== verification/Replication.thy ===== *)
theory Replication
  imports Partition
begin

text \<open>
  One leader and one follower of a partition joined by a \<^verbatim>\<open>FetchReplica\<close> stream: the server side of
  the stream (\<^verbatim>\<open>Broker.FetchReplica\<close> in src/internal/broker/broker.go) and the client side (the receive
  loop of \<^verbatim>\<open>replicationLoop\<close> in src/internal/broker/partition.go), interleaved freely with produces,
  monitor ticks, evictions and broken streams.  A produce is two steps, because \<open>Append\<close> takes the
  mutex again for the watermark after it has appended.  The channel holds the records sent and not yet
  received.  Every reachable state keeps the follower's log a prefix of the leader's.
\<close>

record fetch_stream =
  fsOffset :: int
  fsPending :: "message list"
  fsBatch :: bool
  fsChannel :: "replica_record list"

definition batchSize :: int where
  "batchSize = 64"

definition FetchReplica_open :: "int \<Rightarrow> int \<Rightarrow> int \<Rightarrow> partition \<Rightarrow> partition \<times> fetch_stream" where
  "FetchReplica_open replicaId fetchOffset now p =
     (fst (updateReplicaState replicaId fetchOffset now p),
      \<lparr>fsOffset = fetchOffset, fsPending = [], fsBatch = False, fsChannel = []\<rparr>)"

text \<open>The read at the head of the loop; an error ends the stream with \<open>Internal\<close>.\<close>

definition FetchReplica_read :: "partition \<Rightarrow> fetch_stream \<Rightarrow> fetch_stream result" where
  "FetchReplica_read p st =
     (case ReadReplica p (fsOffset st) batchSize of
        Inl e \<Rightarrow> Inl (Status Internal)
      | Inr msgs \<Rightarrow> Inr (st\<lparr>fsPending := msgs, fsBatch := (msgs \<noteq> [])\<rparr>))"

fun FetchReplica_send :: "partition \<Rightarrow> fetch_stream \<Rightarrow> fetch_stream" where
  "FetchReplica_send p st =
     (case fsPending st of
        [] \<Rightarrow> st
      | msg # rest \<Rightarrow>
          st\<lparr>fsPending := rest, fsOffset := fsOffset st + 1,
             fsChannel := fsChannel st @
               [\<lparr>rrMessage = msg, rrHighWatermark = Partition_HW p, rrLeaderEpoch = Partition_LeaderEpoch p\<rparr>]\<rparr>)"

definition FetchReplica_batchDone :: "int \<Rightarrow> int \<Rightarrow> partition \<Rightarrow> fetch_stream \<Rightarrow> partition \<times> fetch_stream" where
  "FetchReplica_batchDone replicaId now p st =
     (if fsBatch st then (fst (updateReplicaState replicaId (fsOffset st) now p), st\<lparr>fsBatch := False\<rparr>)
      else (p, st))"

text \<open>The grace window the handler passes to \<open>scheduleReplicaEviction\<close> when the stream closes.\<close>

definition evictGrace :: "partition \<Rightarrow> int" where
  "evictGrace p = (let g = pIsrTimeout p div 2 in if g < 2 * second then 2 * second else g)"

record replica_sys =
  sysLeader :: partition
  sysFollower :: partition
  sysStream :: "fetch_stream option"

inductive sys_step :: "int \<Rightarrow> replica_sys \<Rightarrow> replica_sys \<Rightarrow> bool" for fid :: int where
  append_log: "Append_check (sysLeader s) = Inr () \<Longrightarrow>
     log_storable (pLog (sysLeader s)) (m\<lparr>msgOffset := leo (sysLeader s)\<rparr>) \<Longrightarrow>
     log_storable (pLog (sysFollower s)) (m\<lparr>msgOffset := leo (sysLeader s)\<rparr>) \<Longrightarrow>
     sys_step fid s (s\<lparr>sysLeader := fst (Append_log (sysLeader s) m)\<rparr>)"
| append_hw: "sys_step fid s (s\<lparr>sysLeader := Append_hw (sysLeader s)\<rparr>)"
| connect: "sysStream s = None \<Longrightarrow>
     FetchReplica_open fid (frFetchOffset (replication_request fid (sysFollower s))) now (sysLeader s) = (p, st) \<Longrightarrow>
     sys_step fid s (s\<lparr>sysLeader := p, sysStream := Some st\<rparr>)"
| read: "sysStream s = Some st \<Longrightarrow> fsPending st = [] \<Longrightarrow> \<not> fsBatch st \<Longrightarrow>
     FetchReplica_read (sysLeader s) st = Inr st' \<Longrightarrow>
     sys_step fid s (s\<lparr>sysStream := Some st'\<rparr>)"
| send: "sysStream s = Some st \<Longrightarrow> fsPending st \<noteq> [] \<Longrightarrow>
     sys_step fid s (s\<lparr>sysStream := Some (FetchReplica_send (sysLeader s) st)\<rparr>)"
| batch_done: "sysStream s = Some st \<Longrightarrow> fsPending st = [] \<Longrightarrow> fsBatch st \<Longrightarrow>
     FetchReplica_batchDone fid now (sysLeader s) st = (p, st') \<Longrightarrow>
     sys_step fid s (s\<lparr>sysLeader := p, sysStream := Some st'\<rparr>)"
| recv: "sysStream s = Some st \<Longrightarrow> fsChannel st = rec # recs \<Longrightarrow>
     replica_receive (sysFollower s) rec = (f, Inr ()) \<Longrightarrow>
     sys_step fid s (s\<lparr>sysFollower := f, sysStream := Some (st\<lparr>fsChannel := recs\<rparr>)\<rparr>)"
| recv_error: "sysStream s = Some st \<Longrightarrow> fsChannel st = rec # recs \<Longrightarrow>
     replica_receive (sysFollower s) rec = (f, Inl e) \<Longrightarrow>
     sys_step fid s (s\<lparr>sysFollower := f, sysStream := None\<rparr>)"
| break_stream: "sys_step fid s (s\<lparr>sysStream := None\<rparr>)"
| tick: "sys_step fid s (s\<lparr>sysLeader := fst (monitorISR_tick now (sysLeader s))\<rparr>)"
| evict: "sys_step fid s
     (s\<lparr>sysLeader := fst (scheduleReplicaEviction fid (evictGrace (sysLeader s)) now (sysLeader s))\<rparr>)"

text \<open>
  Where a run may start: no stream yet, the leader's high watermark within its log, and the
  follower holding a prefix of the leader's log (a fresh follower holds the empty one).
\<close>

definition sys_start :: "replica_sys \<Rightarrow> bool" where
  "sys_start s \<longleftrightarrow> sysStream s = None \<and> committed_inv (sysLeader s) \<and> pRole (sysLeader s) = Leader
     \<and> part_inv (sysFollower s) \<and> pHw (sysFollower s) \<le> pHw (sysLeader s)
     \<and> p_msgs (sysFollower s) = take (length (p_msgs (sysFollower s))) (p_msgs (sysLeader s))
     \<and> list_all (log_storable (pLog (sysFollower s))) (p_msgs (sysLeader s))"

inductive sys_reachable :: "int \<Rightarrow> replica_sys \<Rightarrow> replica_sys \<Rightarrow> bool" for fid :: int and s0 :: replica_sys where
  start: "sys_start s0 \<Longrightarrow> sys_reachable fid s0 s0"
| step: "sys_reachable fid s0 s \<Longrightarrow> sys_step fid s t \<Longrightarrow> sys_reachable fid s0 t"

text \<open>The invariant: the leader's log is the follower's, then the channel, then the pending batch, then the rest.\<close>

definition stream_inv :: "partition \<Rightarrow> partition \<Rightarrow> fetch_stream \<Rightarrow> bool" where
  "stream_inv L F st \<longleftrightarrow>
     fsOffset st = leo F + int (length (fsChannel st))
     \<and> (\<exists>rest. p_msgs L = p_msgs F @ map rrMessage (fsChannel st) @ fsPending st @ rest)
     \<and> (\<forall>rec \<in> set (fsChannel st). rrHighWatermark rec \<le> pHw L)"

definition sys_inv :: "replica_sys \<Rightarrow> bool" where
  "sys_inv s \<longleftrightarrow> committed_inv (sysLeader s) \<and> pRole (sysLeader s) = Leader
     \<and> part_inv (sysFollower s) \<and> pHw (sysFollower s) \<le> pHw (sysLeader s)
     \<and> (\<exists>rest. p_msgs (sysLeader s) = p_msgs (sysFollower s) @ rest)
     \<and> list_all (log_storable (pLog (sysFollower s))) (p_msgs (sysLeader s))
     \<and> (case sysStream s of None \<Rightarrow> True | Some st \<Rightarrow> stream_inv (sysLeader s) (sysFollower s) st)"

text \<open>The same steps as a function of a schedule, to run concrete cases.\<close>

datatype sys_action =
    AppendLogA message | AppendHwA | ConnectA int | ReadA | SendA | BatchDoneA int | RecvA | BreakA
  | TickA int | EvictA int

fun sys_exec :: "int \<Rightarrow> sys_action \<Rightarrow> replica_sys \<Rightarrow> replica_sys option" where
  "sys_exec fid (AppendLogA m) s =
     (let m' = m\<lparr>msgOffset := leo (sysLeader s)\<rparr>
      in if Append_check (sysLeader s) = Inr () \<and> log_storable (pLog (sysLeader s)) m'
            \<and> log_storable (pLog (sysFollower s)) m'
         then Some (s\<lparr>sysLeader := fst (Append_log (sysLeader s) m)\<rparr>) else None)"
| "sys_exec fid AppendHwA s = Some (s\<lparr>sysLeader := Append_hw (sysLeader s)\<rparr>)"
| "sys_exec fid (ConnectA now) s =
     (case sysStream s of Some _ \<Rightarrow> None
      | None \<Rightarrow> let (p, st) = FetchReplica_open fid (frFetchOffset (replication_request fid (sysFollower s))) now (sysLeader s)
                in Some (s\<lparr>sysLeader := p, sysStream := Some st\<rparr>))"
| "sys_exec fid ReadA s =
     (case sysStream s of None \<Rightarrow> None
      | Some st \<Rightarrow> if fsPending st = [] \<and> \<not> fsBatch st
          then (case FetchReplica_read (sysLeader s) st of Inl e \<Rightarrow> None | Inr st' \<Rightarrow> Some (s\<lparr>sysStream := Some st'\<rparr>))
          else None)"
| "sys_exec fid SendA s =
     (case sysStream s of None \<Rightarrow> None
      | Some st \<Rightarrow> if fsPending st = [] then None
          else Some (s\<lparr>sysStream := Some (FetchReplica_send (sysLeader s) st)\<rparr>))"
| "sys_exec fid (BatchDoneA now) s =
     (case sysStream s of None \<Rightarrow> None
      | Some st \<Rightarrow> if fsPending st = [] \<and> fsBatch st
          then let (p, st') = FetchReplica_batchDone fid now (sysLeader s) st
               in Some (s\<lparr>sysLeader := p, sysStream := Some st'\<rparr>)
          else None)"
| "sys_exec fid RecvA s =
     (case sysStream s of None \<Rightarrow> None
      | Some st \<Rightarrow> (case fsChannel st of [] \<Rightarrow> None
          | rec # recs \<Rightarrow> (case replica_receive (sysFollower s) rec of
                (f, Inr _) \<Rightarrow> Some (s\<lparr>sysFollower := f, sysStream := Some (st\<lparr>fsChannel := recs\<rparr>)\<rparr>)
              | (f, Inl _) \<Rightarrow> Some (s\<lparr>sysFollower := f, sysStream := None\<rparr>))))"
| "sys_exec fid BreakA s = Some (s\<lparr>sysStream := None\<rparr>)"
| "sys_exec fid (TickA now) s = Some (s\<lparr>sysLeader := fst (monitorISR_tick now (sysLeader s))\<rparr>)"
| "sys_exec fid (EvictA now) s = Some (s\<lparr>sysLeader :=
       fst (scheduleReplicaEviction fid (evictGrace (sysLeader s)) now (sysLeader s))\<rparr>)"

fun sys_run :: "int \<Rightarrow> sys_action list \<Rightarrow> replica_sys \<Rightarrow> replica_sys option" where
  "sys_run fid [] s = Some s"
| "sys_run fid (a # as) s = (case sys_exec fid a s of None \<Rightarrow> None | Some t \<Rightarrow> sys_run fid as t)"

definition fresh_follower :: partition where
  "fresh_follower = BecomeFollower fresh_partition 1 0"

definition fresh_sys :: replica_sys where
  "fresh_sys = \<lparr>sysLeader = fresh_partition, sysFollower = fresh_follower, sysStream = None\<rparr>"

text \<open>
  A weaker invariant, which asks nothing of the two logs' contents: what is on its way to the
  follower carries consecutive offsets from the follower's log end on.
\<close>

primrec offsets_from :: "int \<Rightarrow> message list \<Rightarrow> bool" where
  "offsets_from a [] = True"
| "offsets_from a (m # ms) = (msgOffset m = a \<and> offsets_from (a + 1) ms)"

definition flow_inv :: "replica_sys \<Rightarrow> bool" where
  "flow_inv s \<longleftrightarrow> log_invar (pLog (sysLeader s)) \<and> log_invar (pLog (sysFollower s))
     \<and> list_all (log_storable (pLog (sysFollower s))) (p_msgs (sysLeader s))
     \<and> (case sysStream s of None \<Rightarrow> True
        | Some st \<Rightarrow> fsOffset st = leo (sysFollower s) + int (length (fsChannel st))
            \<and> offsets_from (leo (sysFollower s)) (map rrMessage (fsChannel st) @ fsPending st)
            \<and> list_all (log_storable (pLog (sysFollower s))) (map rrMessage (fsChannel st) @ fsPending st))"

inductive_cases sys_step_cases: "sys_step fid s t"

section \<open>The leader's side\<close>

lemma sys_inv_start: "sys_start s \<Longrightarrow> sys_inv s"
  by (auto simp: sys_start_def sys_inv_def) (metis append_take_drop_id)

lemma stream_inv_leader:
  assumes "stream_inv L F st" "p_msgs L' = p_msgs L @ ms" "pHw L \<le> pHw L'"
  shows "stream_inv L' F st"
  using assms by (fastforce simp: stream_inv_def)

text \<open>Any step of the leader that extends its log and does not lower its watermark keeps the invariant.\<close>

lemma sys_inv_leader:
  assumes "sys_inv s" "committed_inv L" "pRole L = Leader" "p_msgs L = p_msgs (sysLeader s) @ ms"
    and "pHw (sysLeader s) \<le> pHw L" "list_all (log_storable (pLog (sysFollower s))) ms"
  shows "sys_inv (s\<lparr>sysLeader := L\<rparr>)"
  using assms stream_inv_leader [OF _ assms(4,5)]
  by (auto simp: sys_inv_def split: option.splits)

lemma sys_inv_replicas:
  assumes "sys_inv s" "replicas_step (sysLeader s) L"
  shows "sys_inv (s\<lparr>sysLeader := L\<rparr>)"
proof (rule sys_inv_leader [where ms = "[]"])
  show "committed_inv L" using assms by (auto simp: sys_inv_def intro: replicas_step_inv)
  show "pRole L = Leader" "p_msgs L = p_msgs (sysLeader s) @ []"
    using assms replicas_step_frame [OF assms(2)] by (auto simp: sys_inv_def)
  show "pHw (sysLeader s) \<le> pHw L" using replicas_step_hw(1) [OF assms(2)] .
qed (use assms in auto)

lemma Append_log_result:
  assumes "log_invar (pLog p)" "log_storable (pLog p) (m\<lparr>msgOffset := leo p\<rparr>)"
  shows "snd (Append_log p m) = Inr (leo p)"
    and "p_msgs (fst (Append_log p m)) = p_msgs p @ [m\<lparr>msgOffset := leo p\<rparr>]"
    and "log_invar (pLog (fst (Append_log p m)))"
    and "leo (fst (Append_log p m)) = leo p + 1"
proof -
  have len: "leo p = int (length (p_msgs p))" using assms(1) by (simp add: alog.len_msgs)
  have st: "log_storable (pLog p) (m\<lparr>msgOffset := int (length (p_msgs p))\<rparr>)" using assms(2) len by simp
  note app = alog.app_result [OF assms(1) st] alog.app_invar [OF assms(1) st]
  have pr: "Append_log p m = (p\<lparr>pLog := fst (log_Append (pLog p) m)\<rparr>, snd (log_Append (pLog p) m))"
    by (simp add: Append_log_def split_beta)
  show "snd (Append_log p m) = Inr (leo p)"
    and msgs: "p_msgs (fst (Append_log p m)) = p_msgs p @ [m\<lparr>msgOffset := leo p\<rparr>]"
    and inv: "log_invar (pLog (fst (Append_log p m)))"
    using app len by (simp_all add: pr)
  show "leo (fst (Append_log p m)) = leo p + 1"
    using msgs len alog.len_msgs [OF inv] by simp
qed

lemma Append_log_frame [simp]:
  "pHw (fst (Append_log p m)) = pHw p" "pReplicas (fst (Append_log p m)) = pReplicas p"
  "pRole (fst (Append_log p m)) = pRole p"
  by (simp_all add: Append_log_def split_beta)

lemma Append_hw_frame [simp]:
  "pLog (Append_hw p) = pLog p" "pReplicas (Append_hw p) = pReplicas p" "pRole (Append_hw p) = pRole p"
  by (simp_all add: Append_hw_def)

lemma sys_inv_append_log:
  assumes "sys_inv s" "log_storable (pLog (sysLeader s)) (m\<lparr>msgOffset := leo (sysLeader s)\<rparr>)"
    "log_storable (pLog (sysFollower s)) (m\<lparr>msgOffset := leo (sysLeader s)\<rparr>)"
  shows "sys_inv (s\<lparr>sysLeader := fst (Append_log (sysLeader s) m)\<rparr>)"
proof -
  have L: "committed_inv (sysLeader s)" "pRole (sysLeader s) = Leader" "log_invar (pLog (sysLeader s))"
    using assms(1) by (auto simp: sys_inv_def committed_inv_def part_inv_def)
  show ?thesis
    using Append_log_result [OF L(3) assms(2)] L assms(3)
    by (intro sys_inv_leader [OF assms(1), where ms = "[m\<lparr>msgOffset := leo (sysLeader s)\<rparr>]"])
       (auto simp: committed_inv_def part_inv_def)
qed

lemma sys_inv_append_hw: "sys_inv s \<Longrightarrow> sys_inv (s\<lparr>sysLeader := Append_hw (sysLeader s)\<rparr>)"
  by (rule sys_inv_leader [where ms = "[]"])
     (auto simp: sys_inv_def committed_inv_def part_inv_def Append_hw_def)

section \<open>The stream\<close>

lemma sys_inv_stream:
  "sys_inv s \<Longrightarrow> stream_inv (sysLeader s) (sysFollower s) st \<Longrightarrow> sys_inv (s\<lparr>sysStream := Some st\<rparr>)"
  by (simp add: sys_inv_def)

lemma sys_inv_no_stream: "sys_inv s \<Longrightarrow> sys_inv (s\<lparr>sysStream := None\<rparr>)"
  by (simp add: sys_inv_def)

lemma stream_inv_open:
  assumes "sys_inv s" "leo (sysFollower s) = off"
  shows "stream_inv (sysLeader s) (sysFollower s)
    \<lparr>fsOffset = off, fsPending = [], fsBatch = False, fsChannel = []\<rparr>"
  using assms by (auto simp: stream_inv_def sys_inv_def)

lemma stream_inv_read:
  assumes "stream_inv L F st" "fsPending st = []" "FetchReplica_read L st = Inr st'"
    and "log_invar (pLog L)" "log_invar (pLog F)"
  shows "stream_inv L F st'"
proof -
  obtain ms where r: "log_Read (pLog L) (fsOffset st) batchSize = Inr ms"
    and st': "st' = st\<lparr>fsPending := ms, fsBatch := (ms \<noteq> [])\<rparr>"
    using assms(3) by (auto simp: FetchReplica_read_def ReadReplica_def split: sum.splits)
  have "spec_read (p_msgs L) (fsOffset st) batchSize = Inr ms"
    using r assms(4) by (simp add: alog.rd_msgs)
  then obtain k where ms: "ms = take k (drop (nat (fsOffset st)) (p_msgs L))"
    using spec_read_Inr(3) by blast
  obtain rest where rest: "p_msgs L = p_msgs F @ map rrMessage (fsChannel st) @ rest"
    using assms(1,2) by (auto simp: stream_inv_def)
  have "nat (fsOffset st) = length (p_msgs F @ map rrMessage (fsChannel st))"
    using assms(1,5) by (simp add: stream_inv_def alog.len_msgs)
  then have "ms @ drop k rest = rest" using ms rest by simp
  then have "p_msgs L = p_msgs F @ map rrMessage (fsChannel st) @ ms @ drop k rest" using rest by simp
  then show ?thesis using assms(1) st' by (auto simp: stream_inv_def)
qed

lemma stream_inv_send:
  assumes "stream_inv L F st" "fsPending st \<noteq> []"
  shows "stream_inv L F (FetchReplica_send L st)"
proof -
  obtain m ms where pend: "fsPending st = m # ms" using assms(2) by (cases "fsPending st") auto
  obtain rest where "p_msgs L = p_msgs F @ map rrMessage (fsChannel st) @ fsPending st @ rest"
    using assms(1) by (auto simp: stream_inv_def)
  then show ?thesis
    using assms(1) pend by (auto simp: stream_inv_def Partition_HW_def)
qed

text \<open>The next record of the channel is the message the follower's log lacks next.\<close>

lemma sys_next_record:
  assumes "sys_inv s" "sysStream s = Some st" "fsChannel st = rec # recs"
  shows "log_invar (pLog (sysFollower s))" "msgOffset (rrMessage rec) = leo (sysFollower s)"
    "log_storable (pLog (sysFollower s)) (rrMessage rec)"
    "\<exists>rest. p_msgs (sysLeader s) = p_msgs (sysFollower s) @ rrMessage rec # map rrMessage recs @ fsPending st @ rest"
proof -
  let ?F = "sysFollower s" and ?L = "sysLeader s"
  have Li: "log_invar (pLog ?L)" using assms(1) by (simp add: sys_inv_def committed_inv_def part_inv_def)
  show Fi: "log_invar (pLog ?F)" using assms(1) by (simp add: sys_inv_def part_inv_def)
  show "\<exists>rest. p_msgs ?L = p_msgs ?F @ rrMessage rec # map rrMessage recs @ fsPending st @ rest"
    using assms by (auto simp: sys_inv_def stream_inv_def)
  then obtain rest where Lm: "p_msgs ?L = p_msgs ?F @ rrMessage rec # map rrMessage recs @ fsPending st @ rest" ..
  have "msgOffset (p_msgs ?L ! length (p_msgs ?F)) = int (length (p_msgs ?F))"
    using alog.invar_offsets [OF Li] Lm by (intro offsets_ok_nth) auto
  then show "msgOffset (rrMessage rec) = leo ?F" using Lm Fi by (simp add: alog.len_msgs)
  show "log_storable (pLog ?F) (rrMessage rec)" using assms(1) Lm by (simp add: sys_inv_def)
qed

lemma sys_receive_result:
  assumes "sys_inv s" "sysStream s = Some st" "fsChannel st = rec # recs"
  defines "f \<equiv> fst (replica_receive (sysFollower s) rec)"
  shows "snd (replica_receive (sysFollower s) rec) = Inr ()" "p_msgs f = p_msgs (sysFollower s) @ [rrMessage rec]"
    "log_invar (pLog f)" "pHw f = max (pHw (sysFollower s)) (rrHighWatermark rec)" "pReplicas f = pReplicas (sysFollower s)"
    "pRole f = pRole (sysFollower s)" "log_storable (pLog f) = log_storable (pLog (sysFollower s))"
  unfolding f_def by (fact replica_receive_in_order [OF sys_next_record(1-3) [OF assms(1-3)]])+

lemma sys_inv_recv:
  assumes "sys_inv s" "sysStream s = Some st" "fsChannel st = rec # recs"
  shows "replica_receive (sysFollower s) rec = (fst (replica_receive (sysFollower s) rec), Inr ())"
    and "sys_inv (s\<lparr>sysFollower := fst (replica_receive (sysFollower s) rec),
           sysStream := Some (st\<lparr>fsChannel := recs\<rparr>)\<rparr>)"
proof -
  let ?F = "sysFollower s" and ?L = "sysLeader s"
  note r = sys_receive_result [OF assms]
  obtain rest where Lm: "p_msgs ?L = p_msgs ?F @ rrMessage rec # map rrMessage recs @ fsPending st @ rest"
    using sys_next_record(4) [OF assms] ..
  show "replica_receive ?F rec = (fst (replica_receive ?F rec), Inr ())"
    using r(1) by (cases "replica_receive ?F rec") simp
  have "leo (fst (replica_receive ?F rec)) = leo ?F + 1"
    using r(2,3) sys_next_record(1) [OF assms] by (simp add: alog.len_msgs)
  moreover have si: "stream_inv ?L ?F st" using assms(1,2) by (simp add: sys_inv_def)
  moreover have "rrHighWatermark rec \<le> pHw ?L" using si assms(3) by (simp add: stream_inv_def)
  ultimately show "sys_inv (s\<lparr>sysFollower := fst (replica_receive ?F rec),
      sysStream := Some (st\<lparr>fsChannel := recs\<rparr>)\<rparr>)"
    using r assms Lm by (auto simp: sys_inv_def stream_inv_def part_inv_def)
qed

lemma sys_step_inv:
  assumes "sys_step fid s t" "sys_inv s"
  shows "sys_inv t"
  using assms
proof (induction rule: sys_step.induct)
  case (append_log s m)
  then show ?case by (intro sys_inv_append_log)
next
  case (append_hw s)
  then show ?case by (rule sys_inv_append_hw)
next
  case (connect s now p st)
  then have "p = fst (updateReplicaState fid (leo (sysFollower s)) now (sysLeader s))"
    and st: "st = \<lparr>fsOffset = leo (sysFollower s), fsPending = [], fsBatch = False, fsChannel = []\<rparr>"
    by (auto simp: FetchReplica_open_def replication_request_def)
  with sys_inv_replicas [OF connect(3) replicas_step_update] have p: "sys_inv (s\<lparr>sysLeader := p\<rparr>)" by simp
  from sys_inv_stream [OF p] stream_inv_open [OF p] st show ?case by simp
next
  case (read s st st')
  then show ?case
    using stream_inv_read [of "sysLeader s" "sysFollower s" st st']
    by (intro sys_inv_stream) (auto simp: sys_inv_def committed_inv_def part_inv_def)
next
  case (send s st)
  then show ?case by (intro sys_inv_stream stream_inv_send) (auto simp: sys_inv_def)
next
  case (batch_done s st now p st')
  then have "p = fst (updateReplicaState fid (fsOffset st) now (sysLeader s))"
    and st': "st' = st\<lparr>fsBatch := False\<rparr>"
    by (auto simp: FetchReplica_batchDone_def)
  with sys_inv_replicas [OF batch_done(5) replicas_step_update] have p: "sys_inv (s\<lparr>sysLeader := p\<rparr>)" by simp
  then have "stream_inv p (sysFollower s) st" using batch_done(1) by (simp add: sys_inv_def)
  with sys_inv_stream [OF p, of st'] st' show ?case by (simp add: stream_inv_def)
next
  case (recv s st rec recs f)
  then show ?case using sys_inv_recv(2) by fastforce
next
  case (recv_error s st rec recs f e)
  then show ?case using sys_inv_recv(1) by fastforce
next
  case (break_stream s)
  then show ?case by (rule sys_inv_no_stream)
next
  case (tick s now)
  then show ?case by (intro sys_inv_replicas replicas_step_tick)
next
  case (evict s now)
  then show ?case by (intro sys_inv_replicas replicas_step_evict)
qed

lemma sys_reachable_inv: "sys_reachable fid s0 s \<Longrightarrow> sys_inv s"
  by (induction rule: sys_reachable.induct) (auto intro: sys_inv_start sys_step_inv)

section \<open>Schedules\<close>

lemma sys_exec_step: "sys_exec fid a s = Some t \<Longrightarrow> sys_step fid s t"
  by (cases a)
     (auto simp: Let_def simp del: FetchReplica_send.simps
       split: if_splits option.splits sum.splits list.splits prod.splits intro: sys_step.intros)

lemma sys_run_steps: "sys_run fid as s = Some t \<Longrightarrow> (sys_step fid)\<^sup>*\<^sup>* s t"
  by (induction as arbitrary: s)
     (auto split: option.splits intro: converse_rtranclp_into_rtranclp sys_exec_step)

lemma sys_reachable_steps: "(sys_step fid)\<^sup>*\<^sup>* s t \<Longrightarrow> sys_start s \<Longrightarrow> sys_reachable fid s t"
  by (induction rule: rtranclp_induct) (auto intro: sys_reachable.intros)

lemma sys_reachable_run: "sys_run fid as s = Some t \<Longrightarrow> sys_start s \<Longrightarrow> sys_reachable fid s t"
  by (intro sys_reachable_steps sys_run_steps)

section \<open>The flow of offsets\<close>

lemma offsets_from_append:
  "offsets_from a (xs @ ys) \<longleftrightarrow> offsets_from a xs \<and> offsets_from (a + int (length xs)) ys"
  by (induction xs arbitrary: a) (auto simp: algebra_simps)

lemma offsets_from_nth:
  "(\<And>i. i < length ms \<Longrightarrow> msgOffset (ms ! i) = a + int i) \<Longrightarrow> offsets_from a ms"
proof (induction ms arbitrary: a)
  case (Cons m ms)
  have "msgOffset (ms ! i) = (a + 1) + int i" if "i < length ms" for i
    using Cons.prems [of "Suc i"] that by simp
  then show ?case using Cons.IH [of "a + 1"] Cons.prems [of 0] by simp
qed simp

lemma flow_inv_leader:
  assumes "flow_inv s" "log_invar (pLog L)" "p_msgs L = p_msgs (sysLeader s) @ ms"
    and "list_all (log_storable (pLog (sysFollower s))) ms"
  shows "flow_inv (s\<lparr>sysLeader := L\<rparr>)"
  using assms by (auto simp: flow_inv_def split: option.splits)

lemma flow_inv_same_log:
  "flow_inv s \<Longrightarrow> pLog L = pLog (sysLeader s) \<Longrightarrow> flow_inv (s\<lparr>sysLeader := L\<rparr>)"
  by (auto simp: flow_inv_def split: option.splits)

lemma flow_inv_read:
  assumes "flow_inv s" "sysStream s = Some st" "fsPending st = []" "FetchReplica_read (sysLeader s) st = Inr st'"
  shows "flow_inv (s\<lparr>sysStream := Some st'\<rparr>)"
proof -
  obtain ms where r: "log_Read (pLog (sysLeader s)) (fsOffset st) batchSize = Inr ms"
    and st': "st' = st\<lparr>fsPending := ms, fsBatch := (ms \<noteq> [])\<rparr>"
    using assms(4) by (auto simp: FetchReplica_read_def ReadReplica_def split: sum.splits)
  have Li: "log_invar (pLog (sysLeader s))" using assms(1) by (simp add: flow_inv_def)
  have "set ms \<subseteq> set (p_msgs (sysLeader s))"
    using alog.read_from_log [OF Li r] by (auto simp: in_set_conv_nth) metis
  then have "list_all (log_storable (pLog (sysFollower s))) ms"
    using assms(1) by (auto simp: flow_inv_def list_all_iff)
  moreover have "offsets_from (fsOffset st) ms"
    using alog.read_offsets [OF Li r] by (rule offsets_from_nth)
  ultimately show ?thesis using assms(1-3) st' by (simp add: flow_inv_def offsets_from_append)
qed

lemma flow_inv_recv:
  assumes "flow_inv s" "sysStream s = Some st" "fsChannel st = rec # recs"
  shows "snd (replica_receive (sysFollower s) rec) = Inr ()"
    and "p_msgs (fst (replica_receive (sysFollower s) rec)) = p_msgs (sysFollower s) @ [rrMessage rec]"
    and "flow_inv (s\<lparr>sysFollower := fst (replica_receive (sysFollower s) rec),
           sysStream := Some (st\<lparr>fsChannel := recs\<rparr>)\<rparr>)"
proof -
  let ?F = "sysFollower s"
  have F: "log_invar (pLog ?F)" "msgOffset (rrMessage rec) = leo ?F" "log_storable (pLog ?F) (rrMessage rec)"
    using assms by (auto simp: flow_inv_def)
  note r = replica_receive_in_order [OF F]
  show "snd (replica_receive ?F rec) = Inr ()"
    and "p_msgs (fst (replica_receive ?F rec)) = p_msgs ?F @ [rrMessage rec]"
    using r by simp_all
  have "leo (fst (replica_receive ?F rec)) = leo ?F + 1"
    using r(2) alog.len_msgs [OF r(3)] alog.len_msgs [OF F(1)] by simp
  then show "flow_inv (s\<lparr>sysFollower := fst (replica_receive ?F rec),
           sysStream := Some (st\<lparr>fsChannel := recs\<rparr>)\<rparr>)"
    using r(3,7) assms by (simp add: flow_inv_def)
qed

lemma flow_step:
  assumes "sys_step fid s t" "flow_inv s"
  shows "flow_inv t \<and> (\<exists>ms. p_msgs (sysFollower t) = p_msgs (sysFollower s) @ ms)
    \<and> (\<exists>ms. p_msgs (sysLeader t) = p_msgs (sysLeader s) @ ms)"
  using assms
proof (induction rule: sys_step.induct)
  case (append_log s m)
  then have "log_invar (pLog (sysLeader s))" by (simp add: flow_inv_def)
  from Append_log_result [OF this append_log(2)] append_log show ?case
    using flow_inv_leader [of s "fst (Append_log (sysLeader s) m)" "[m\<lparr>msgOffset := leo (sysLeader s)\<rparr>]"] by simp
next
  case (connect s now p st)
  then have p: "replicas_step (sysLeader s) p"
    and st: "st = \<lparr>fsOffset = leo (sysFollower s), fsPending = [], fsBatch = False, fsChannel = []\<rparr>"
    by (auto simp: FetchReplica_open_def replication_request_def replicas_step_update)
  then show ?case using connect(3) replicas_step_frame(1) [OF p] by (simp add: flow_inv_def)
next
  case (read s st st')
  then show ?case using flow_inv_read by simp
next
  case (send s st)
  then obtain m ms where pend: "fsPending st = m # ms" by (cases "fsPending st") auto
  then show ?case using send by (simp add: flow_inv_def)
next
  case (batch_done s st now p st')
  then have p: "replicas_step (sysLeader s) p" and st': "st' = st\<lparr>fsBatch := False\<rparr>"
    by (auto simp: FetchReplica_batchDone_def replicas_step_update)
  then show ?case using batch_done replicas_step_frame(1) [OF p] by (simp add: flow_inv_def)
next
  case (recv s st rec recs f)
  then show ?case using flow_inv_recv [OF recv(4,1,2)] by simp
next
  case (recv_error s st rec recs f e)
  then show ?case using flow_inv_recv(1) [OF recv_error(4,1,2)] by simp
next
  case (tick s now)
  then show ?case using replicas_step_frame(1) [OF replicas_step_tick] by (simp add: flow_inv_same_log)
next
  case (evict s now)
  then show ?case using replicas_step_frame(1) [OF replicas_step_evict] by (simp add: flow_inv_same_log)
qed (simp_all add: flow_inv_def split: option.splits)

lemma flow_steps:
  assumes "(sys_step fid)\<^sup>*\<^sup>* s t" "flow_inv s"
  shows "flow_inv t \<and> (\<exists>ms. p_msgs (sysFollower t) = p_msgs (sysFollower s) @ ms)
    \<and> (\<exists>ms. p_msgs (sysLeader t) = p_msgs (sysLeader s) @ ms)"
  using assms
proof (induction rule: rtranclp_induct)
  case (step t u)
  then show ?case using flow_step [OF step(2)] by fastforce
qed auto

lemma fresh_sys_start: "sys_start fresh_sys"
  by code_simp

section \<open>Properties\<close>

text \<open>
  C2: In every state that leader and follower can reach, however produces, stream steps, monitor
  ticks, evictions and broken streams interleave, the follower's log is a prefix of the leader's,
  and its high watermark is at most the leader's, which lies within the leader's log.
\<close>

theorem follower_log_is_prefix:
  assumes "sys_reachable fid s0 s"
  shows "log_msgs (pLog (sysFollower s)) =
      take (length (log_msgs (pLog (sysFollower s)))) (log_msgs (pLog (sysLeader s)))
    \<and> pHw (sysFollower s) \<le> pHw (sysLeader s)
    \<and> pHw (sysLeader s) \<le> Partition_LogEndOffset (sysLeader s)"
  using sys_reachable_inv [OF assms]
  by (auto simp: sys_inv_def committed_inv_def Partition_LogEndOffset_def)

definition replicated_sys :: replica_sys where
  "replicated_sys = the (sys_run 2
     [ConnectA 1, AppendLogA msg_hello, AppendHwA, ReadA, SendA, BatchDoneA 2, RecvA] fresh_sys)"

lemma replicated_reachable: "sys_reachable 2 fresh_sys replicated_sys"
proof (rule sys_reachable_run [OF _ fresh_sys_start])
  show "sys_run 2 [ConnectA 1, AppendLogA msg_hello, AppendHwA, ReadA, SendA, BatchDoneA 2, RecvA] fresh_sys
    = Some replicated_sys" by code_simp
qed

theorem follower_log_is_prefix_witness:
  "log_msgs (pLog (sysFollower replicated_sys)) =
      take (length (log_msgs (pLog (sysFollower replicated_sys)))) (log_msgs (pLog (sysLeader replicated_sys)))
    \<and> pHw (sysFollower replicated_sys) \<le> pHw (sysLeader replicated_sys)
    \<and> pHw (sysLeader replicated_sys) \<le> Partition_LogEndOffset (sysLeader replicated_sys)"
  by (rule follower_log_is_prefix [OF replicated_reachable])

text \<open>
  Whatever a consumer reads from the follower is committed on the leader: each message is the
  one the leader holds at that offset, and the offset is below the leader's high watermark.
\<close>

lemma follower_read_is_committed:
  assumes "sys_reachable fid s0 s" "Partition_Read (sysFollower s) off n = Inr xs" "i < length xs"
  shows "xs ! i = log_msgs (pLog (sysLeader s)) ! (nat off + i) \<and> off + int i < pHw (sysLeader s)"
proof -
  note inv = sys_reachable_inv [OF assms(1)]
  then have F: "log_invar (pLog (sysFollower s))" by (simp add: sys_inv_def part_inv_def)
  obtain rest where "p_msgs (sysLeader s) = p_msgs (sysFollower s) @ rest" using inv by (auto simp: sys_inv_def)
  then show ?thesis
    using Partition_Read_Inr(1-3) [OF F assms(2,3)] inv by (simp add: sys_inv_def nth_append)
qed

definition committed_sys :: replica_sys where
  "committed_sys = the (sys_run 2 [AppendLogA msg_hello, ReadA, SendA, RecvA] replicated_sys)"

lemma committed_reachable: "sys_reachable 2 fresh_sys committed_sys"
proof -
  have "(sys_step 2)\<^sup>*\<^sup>* fresh_sys committed_sys"
    by (rule sys_run_steps [where as = "[ConnectA 1, AppendLogA msg_hello, AppendHwA, ReadA, SendA,
        BatchDoneA 2, RecvA, AppendLogA msg_hello, ReadA, SendA, RecvA]"]) code_simp
  then show ?thesis using sys_reachable_steps fresh_sys_start by blast
qed

lemma follower_read_is_committed_witness:
  "[msg_hello] ! 0 = log_msgs (pLog (sysLeader committed_sys)) ! (nat 0 + 0)
    \<and> 0 + int 0 < pHw (sysLeader committed_sys)"
  by (rule follower_read_is_committed [OF committed_reachable, where n = 64]) code_simp+

text \<open>
  The follower accepts every record the stream delivers, in order: the append never fails, the
  record lands at the end of the log, and nothing is cut off.
\<close>

lemma follower_accepts_stream:
  assumes "sys_reachable fid s0 s" "sysStream s = Some st" "fsChannel st = rec # recs"
  shows "\<exists>f. replica_receive (sysFollower s) rec = (f, Inr ())
    \<and> log_msgs (pLog f) = log_msgs (pLog (sysFollower s)) @ [rrMessage rec]
    \<and> log_msgs (pLog f) = take (length (log_msgs (pLog f))) (log_msgs (pLog (sysLeader s)))"
proof -
  let ?f = "fst (replica_receive (sysFollower s) rec)"
  note inv = sys_reachable_inv [OF assms(1)]
  obtain rest where L: "p_msgs (sysLeader s) = p_msgs (sysFollower s) @ rrMessage rec # rest"
    using inv assms(2,3) by (auto simp: sys_inv_def stream_inv_def)
  have i: "log_invar (pLog (sysLeader s))" "log_invar (pLog (sysFollower s))"
    using inv by (auto simp: sys_inv_def part_inv_def committed_inv_def)
  have "msgOffset (p_msgs (sysLeader s) ! length (p_msgs (sysFollower s))) = int (length (p_msgs (sysFollower s)))"
    using alog.invar_offsets [OF i(1)] L by (intro offsets_ok_nth) auto
  then have "msgOffset (rrMessage rec) = leo (sysFollower s)" using L i by (simp add: alog.len_msgs)
  moreover have "log_storable (pLog (sysFollower s)) (rrMessage rec)" using inv L by (simp add: sys_inv_def)
  ultimately have "p_msgs ?f = p_msgs (sysFollower s) @ [rrMessage rec]"
    using replica_receive_in_order(2) i by blast
  then show ?thesis using sys_inv_recv(1) [OF inv assms(2,3)] L by (intro exI [of _ ?f]) simp
qed

definition sending_sys :: replica_sys where
  "sending_sys = the (sys_run 2 [ConnectA 1, AppendLogA msg_hello, ReadA, SendA] fresh_sys)"

lemma follower_accepts_stream_witness:
  "\<exists>f. replica_receive (sysFollower sending_sys) (hd (fsChannel (the (sysStream sending_sys)))) = (f, Inr ())
    \<and> log_msgs (pLog f) = log_msgs (pLog (sysFollower sending_sys)) @
        [rrMessage (hd (fsChannel (the (sysStream sending_sys))))]
    \<and> log_msgs (pLog f) = take (length (log_msgs (pLog f))) (log_msgs (pLog (sysLeader sending_sys)))"
proof (rule follower_accepts_stream)
  show "sys_reachable 2 fresh_sys sending_sys"
    by (rule sys_reachable_run [OF _ fresh_sys_start,
          where as = "[ConnectA 1, AppendLogA msg_hello, ReadA, SendA]"]) code_simp
  show "sysStream sending_sys = Some (the (sysStream sending_sys))" by code_simp
  show "fsChannel (the (sysStream sending_sys)) = hd (fsChannel (the (sysStream sending_sys))) # []"
    by code_simp
qed


definition diverged_sys :: replica_sys where
  "diverged_sys = \<lparr>sysLeader = leader_run fresh_partition [LProduce msg_hello, LProduce msg_hello],
     sysFollower = BecomeFollower (leader_run fresh_partition [LProduce (msg_hello\<lparr>msgValue := []\<rparr>)]) 1 2,
     sysStream = None\<rparr>"

definition diverged_end :: replica_sys where
  "diverged_end = the (sys_run 2 [ConnectA 1, ReadA, SendA, BatchDoneA 2, RecvA] diverged_sys)"


text \<open>
  The leader commits on sending, not on the follower's acknowledgement: it can reach a state
  where the follower has stored nothing, the stream is gone, and a message is below the high
  watermark and served to consumers.
\<close>

lemma commit_before_follower_stores:
  "\<exists>s. sys_reachable 2 fresh_sys s \<and> log_msgs (pLog (sysFollower s)) = [] \<and> sysStream s = None
     \<and> currentISRIDs (sysLeader s) = [2] \<and> Partition_Read (sysLeader s) 0 64 = Inr [msg_hello]"
proof -
  let ?as = "[ConnectA 1, AppendLogA msg_hello, AppendHwA, ReadA, SendA, BatchDoneA 2, BreakA]"
  have "\<exists>s. sys_run 2 ?as fresh_sys = Some s \<and> log_msgs (pLog (sysFollower s)) = [] \<and> sysStream s = None
     \<and> currentISRIDs (sysLeader s) = [2] \<and> Partition_Read (sysLeader s) 0 64 = Inr [msg_hello]"
    by (intro exI [of _ "the (sys_run 2 ?as fresh_sys)"]) code_simp
  then show ?thesis using sys_reachable_run fresh_sys_start by blast
qed

end
