(* ===== verification/Commit_Log.thy ===== *)
theory Commit_Log
  imports Refinement Replication
begin

text \<open>
  What a replicated partition promises, without roles, replica states, streams or channels: an
  append-only sequence of messages, a committed prefix that only grows, a replica that holds a prefix
  and learns a bound on the committed part.  The leader alone (src/internal/broker/partition.go) and
  the leader joined to a follower by a \<^verbatim>\<open>FetchReplica\<close> stream refine it; the refinement is a locale with
  the step of the implementation, its invariant and the abstraction function as parameters.
\<close>

record commit_log =
  clEntries :: "message list"
  clCommitted :: nat
  clReplica :: nat
  clReplicaHW :: nat

inductive clog_step :: "commit_log \<Rightarrow> commit_log \<Rightarrow> bool" where
  append: "clog_step c (c\<lparr>clEntries := clEntries c @ [m\<lparr>msgOffset := int (length (clEntries c))\<rparr>]\<rparr>)"
| commit: "clCommitted c \<le> n \<Longrightarrow> n \<le> length (clEntries c) \<Longrightarrow> clog_step c (c\<lparr>clCommitted := n\<rparr>)"
| replicate: "clReplica c < length (clEntries c) \<Longrightarrow> clog_step c (c\<lparr>clReplica := clReplica c + 1\<rparr>)"
| learn: "clReplicaHW c \<le> n \<Longrightarrow> n \<le> clCommitted c \<Longrightarrow> clog_step c (c\<lparr>clReplicaHW := n\<rparr>)"

definition clog_ok :: "commit_log \<Rightarrow> bool" where
  "clog_ok c \<longleftrightarrow> offsets_ok (clEntries c) \<and> clCommitted c \<le> length (clEntries c)
     \<and> clReplica c \<le> length (clEntries c) \<and> clReplicaHW c \<le> clCommitted c"

text \<open>A consumer's read: of the committed messages, of those the replica both holds and knows committed.\<close>

definition clog_slice :: "message list \<Rightarrow> nat \<Rightarrow> nat \<Rightarrow> message list" where
  "clog_slice ms off n = take n (drop off ms)"

definition clog_read :: "commit_log \<Rightarrow> nat \<Rightarrow> nat \<Rightarrow> message list" where
  "clog_read c = clog_slice (take (clCommitted c) (clEntries c))"

definition clog_replica_read :: "commit_log \<Rightarrow> nat \<Rightarrow> nat \<Rightarrow> message list" where
  "clog_replica_read c = clog_slice (take (min (clReplica c) (clReplicaHW c)) (clEntries c))"

inductive_simps clog_step_iff: "clog_step c d"

section \<open>The specification\<close>

lemma clog_step_ok: "clog_step c d \<Longrightarrow> clog_ok c \<Longrightarrow> clog_ok d"
  by (induction rule: clog_step.induct) (auto simp: clog_ok_def offsets_ok_snoc)

lemma clog_steps_grow:
  assumes "clog_step\<^sup>*\<^sup>* c d"
  shows "(\<exists>ms. clEntries d = clEntries c @ ms) \<and> clCommitted c \<le> clCommitted d \<and> clReplica c \<le> clReplica d"
  using assms by (induction rule: rtranclp_induct) (auto simp: clog_step_iff)

section \<open>The leader\<close>

definition leader_abs :: "partition \<Rightarrow> commit_log" where
  "leader_abs p = \<lparr>clEntries = log_msgs (pLog p), clCommitted = nat (pHw p), clReplica = 0, clReplicaHW = 0\<rparr>"

definition leader_does :: "partition \<Rightarrow> partition \<Rightarrow> bool" where
  "leader_does p q \<longleftrightarrow> (\<exists>op. leader_ops_ok p [op] \<and> q = leader_step p op)"

definition leading :: "partition \<Rightarrow> bool" where
  "leading p \<longleftrightarrow> committed_inv p \<and> pRole p = Leader"

lemma leader_abs_commit:
  assumes "committed_inv q" "p_msgs q = p_msgs p" "pHw p \<le> pHw q"
  shows "clog_step\<^sup>*\<^sup>* (leader_abs p) (leader_abs q)"
proof -
  have "nat (pHw q) \<le> length (p_msgs p)"
    using assms by (auto simp: committed_inv_def part_inv_def alog.len_msgs)
  then show ?thesis
    using commit [of "leader_abs p" "nat (pHw q)"] assms(2,3) by (intro r_into_rtranclp) (simp add: leader_abs_def nat_mono)
qed

lemma leader_does_refines:
  assumes "leading p" "leader_does p q"
  shows "leading q \<and> clog_step\<^sup>*\<^sup>* (leader_abs p) (leader_abs q)"
proof -
  obtain op where op: "leader_ops_ok p [op]" "q = leader_step p op" using assms(2) by (auto simp: leader_does_def)
  have L: "committed_inv p" "pRole p = Leader" "part_inv p" using assms(1) by (auto simp: leading_def committed_inv_def)
  note c = leader_step_correct [OF L(1,2) op(1), folded op(2)]
  have "clog_step\<^sup>*\<^sup>* (leader_abs p) (leader_abs q)"
  proof (cases "\<exists>m. op = LProduce m")
    case False
    then have "p_msgs q = p_msgs p" using replicas_step_frame(1) [OF leader_step_replicas] op(2) by simp
    then show ?thesis using c(1,3) by (intro leader_abs_commit) auto
  next
    case True
    then obtain m where m: "op = LProduce m" by blast
    have msgs: "p_msgs q = p_msgs p @ [m\<lparr>msgOffset := int (length (p_msgs p))\<rparr>]"
      using Partition_Append_leader(2) [OF L(3,2)] op m L(3) by (simp add: alog.len_msgs part_inv_def)
    let ?mid = "(leader_abs p)\<lparr>clEntries := p_msgs q\<rparr>"
    have "clog_step (leader_abs p) ?mid" using append [of "leader_abs p" m] msgs by (simp add: leader_abs_def)
    moreover have "clog_step ?mid (leader_abs q)"
      using commit [of ?mid "nat (pHw q)"] c(1,3) by (auto simp: leader_abs_def committed_inv_def part_inv_def alog.len_msgs)
    ultimately show ?thesis by (meson converse_rtranclp_into_rtranclp r_into_rtranclp)
  qed
  then show ?thesis using c(1,2) by (simp add: leading_def)
qed

interpretation leader_refines: refinement leader_does leading clog_step leader_abs
  by unfold_locales (use leader_does_refines in blast)+

section \<open>Leader and follower\<close>

definition sys_abs :: "replica_sys \<Rightarrow> commit_log" where
  "sys_abs s = \<lparr>clEntries = log_msgs (pLog (sysLeader s)), clCommitted = nat (pHw (sysLeader s)),
     clReplica = length (log_msgs (pLog (sysFollower s))), clReplicaHW = nat (pHw (sysFollower s))\<rparr>"

lemma sys_abs_ok: "sys_inv s \<Longrightarrow> clog_ok (sys_abs s)"
  by (auto simp: sys_inv_def clog_ok_def sys_abs_def committed_inv_def part_inv_def alog.len_msgs nat_mono dest: alog.invar_offsets)

lemma sys_abs_leader:
  assumes "sys_inv t" "p_msgs (sysLeader t) = p_msgs (sysLeader s)" "pHw (sysLeader s) \<le> pHw (sysLeader t)"
    and "sysFollower t = sysFollower s"
  shows "clog_step\<^sup>*\<^sup>* (sys_abs s) (sys_abs t)"
proof -
  have "nat (pHw (sysLeader t)) \<le> length (p_msgs (sysLeader s))"
    using sys_abs_ok [OF assms(1)] assms(2) by (simp add: clog_ok_def sys_abs_def)
  then show ?thesis
    using commit [of "sys_abs s" "nat (pHw (sysLeader t))"] assms(2-4) by (intro r_into_rtranclp) (simp add: sys_abs_def nat_mono)
qed

lemma sys_abs_replicas:
  assumes "sys_inv (s\<lparr>sysLeader := L\<rparr>)" "replicas_step (sysLeader s) L"
  shows "clog_step\<^sup>*\<^sup>* (sys_abs s) (sys_abs (s\<lparr>sysLeader := L, sysStream := x\<rparr>))"
proof -
  have "clog_step\<^sup>*\<^sup>* (sys_abs s) (sys_abs (s\<lparr>sysLeader := L\<rparr>))"
    using assms replicas_step_frame(1) [OF assms(2)] replicas_step_hw(1) [OF assms(2)] by (intro sys_abs_leader) simp_all
  then show ?thesis by (simp add: sys_abs_def)
qed

lemma sys_abs_recv:
  assumes "sys_inv s" "sysStream s = Some st" "fsChannel st = rec # recs"
  defines "f \<equiv> fst (replica_receive (sysFollower s) rec)"
  shows "clog_step\<^sup>*\<^sup>* (sys_abs s) (sys_abs (s\<lparr>sysFollower := f, sysStream := x\<rparr>))"
proof -
  let ?t = "s\<lparr>sysFollower := f, sysStream := Some (st\<lparr>fsChannel := recs\<rparr>)\<rparr>"
  have t: "sys_inv ?t" using sys_inv_recv(2) [OF assms(1-3)] by (simp add: f_def)
  have grow: "length (p_msgs f) = length (p_msgs (sysFollower s)) + 1" "pHw (sysFollower s) \<le> pHw f"
    using sys_receive_result(2,4) [OF assms(1-3)] by (simp_all add: f_def)
  let ?mid = "(sys_abs s)\<lparr>clReplica := clReplica (sys_abs s) + 1\<rparr>"
  have ok: "clog_ok (sys_abs ?t)" using sys_abs_ok [OF t] .
  have "clog_step (sys_abs s) ?mid"
    using ok grow(1) by (intro replicate) (simp add: clog_ok_def sys_abs_def)
  moreover have "clog_step ?mid (sys_abs (s\<lparr>sysFollower := f, sysStream := x\<rparr>))"
    using learn [of ?mid "nat (pHw f)"] ok grow by (simp add: clog_ok_def sys_abs_def nat_mono)
  ultimately show ?thesis by (meson converse_rtranclp_into_rtranclp r_into_rtranclp)
qed


lemma sys_step_refines:
  assumes "sys_inv s" "sys_step fid s t"
  shows "clog_step\<^sup>*\<^sup>* (sys_abs s) (sys_abs t)"
  using assms(2,1)
proof (induction rule: sys_step.induct)
  case (append_log s m)
  have "log_invar (pLog (sysLeader s))" using append_log(4) by (simp add: sys_inv_def committed_inv_def part_inv_def)
  then show ?case
    using append [of "sys_abs s" m] Append_log_result(2) [OF _ append_log(2)]
    by (intro r_into_rtranclp) (simp add: sys_abs_def alog.len_msgs)
next
  case (append_hw s)
  show ?case
    by (rule sys_abs_leader [OF sys_inv_append_hw [OF append_hw]])
      (use append_hw in \<open>auto simp: Append_hw_def sys_inv_def committed_inv_def\<close>)
next
  case (connect s now p st)
  then have p: "replicas_step (sysLeader s) p" using replicas_step_update by (auto simp: FetchReplica_open_def)
  show ?case by (rule sys_abs_replicas [OF sys_inv_replicas [OF connect(3) p] p])
next
  case (batch_done s st now p st')
  then have p: "replicas_step (sysLeader s) p" using replicas_step_update by (auto simp: FetchReplica_batchDone_def)
  show ?case by (rule sys_abs_replicas [OF sys_inv_replicas [OF batch_done(5) p] p])
next
  case (recv s st rec recs f)
  then show ?case using sys_abs_recv [OF recv(4,1,2)] by simp
next
  case (recv_error s st rec recs f e)
  then show ?case using sys_inv_recv(1) [OF recv_error(4,1,2)] by simp
next
  case (tick s now)
  show ?case
    using sys_abs_replicas [OF sys_inv_replicas [OF tick replicas_step_tick] replicas_step_tick, where x = "sysStream s"] by simp
next
  case (evict s now)
  show ?case
    using sys_abs_replicas [OF sys_inv_replicas [OF evict replicas_step_evict] replicas_step_evict, where x = "sysStream s"] by simp
qed (simp_all add: sys_abs_def)

interpretation sys_refines: refinement "sys_step fid" sys_inv clog_step sys_abs
  for fid by unfold_locales (blast intro: sys_step_inv sys_step_refines)+

section \<open>Reads\<close>

lemma Partition_Read_committed:
  assumes "part_inv p" "0 \<le> off" "0 \<le> n" "off \<le> leo p" "off + n < 2 ^ 63"
  shows "Partition_Read p off n = Inr (clog_slice (take (nat (pHw p)) (p_msgs p)) (nat off) (nat n))"
proof (cases "off < pHw p")
  case True
  have inv: "log_invar (pLog p)" using assms(1) by (simp add: part_inv_def)
  have "nat (min n (pHw p - off)) = min (nat n) (nat (pHw p) - nat off)" using True assms(2,3) by linarith
  then show ?thesis
    using Partition_Read_spec [OF inv assms(2) True assms(4,3,5)] by (simp add: clog_slice_def drop_take min.commute)
qed (use assms in \<open>simp add: Partition_Read_def clog_slice_def\<close>)

lemma Partition_Read_below_hw:
  assumes "committed_inv p" "0 \<le> off" "0 \<le> n" "off + n \<le> pHw p" "off + n < 2 ^ 63"
  shows "Partition_Read p off n = Inr (take (nat n) (drop (nat off) (p_msgs p)))"
proof -
  have p: "part_inv p" "pHw p \<le> leo p" using assms(1) by (auto simp: committed_inv_def)
  have "nat n \<le> nat (pHw p) - nat off" using assms(2-4) by linarith
  then have "clog_slice (take (nat (pHw p)) (p_msgs p)) (nat off) (nat n) = take (nat n) (drop (nat off) (p_msgs p))"
    by (simp add: clog_slice_def drop_take min_absorb2)
  then show ?thesis using Partition_Read_committed [OF p(1) assms(2,3) _ assms(5)] p(2) assms(3,4) by simp
qed

section \<open>Properties\<close>

text \<open>
  C10: Refinement: the leader and the follower, with everything that happens between them, are together
  one append-only commit log.  Every run corresponds to steps of the specification, in which entries
  are only added, commits only grow and the replica follows; a consumer's read on the leader is the
  specification's read of the committed entries, and a read on the follower returns entries that are
  stored there and committed.
\<close>

theorem replicated_partition_refines:
  assumes "sys_start s0" "(sys_step fid)\<^sup>*\<^sup>* s0 s" "0 \<le> off" "0 \<le> n" "off + n < 2 ^ 63"
  shows "clog_step\<^sup>*\<^sup>* (sys_abs s0) (sys_abs s) \<and> clog_ok (sys_abs s)
    \<and> (off \<le> Partition_LogEndOffset (sysLeader s) \<longrightarrow>
        Partition_Read (sysLeader s) off n = Inr (clog_read (sys_abs s) (nat off) (nat n)))
    \<and> (off \<le> Partition_LogEndOffset (sysFollower s) \<longrightarrow>
        Partition_Read (sysFollower s) off n = Inr (clog_replica_read (sys_abs s) (nat off) (nat n)))"
proof -
  have run: "sys_inv s" "clog_step\<^sup>*\<^sup>* (sys_abs s0) (sys_abs s)"
    using sys_refines.run [OF assms(2) sys_inv_start [OF assms(1)]] by simp_all
  have inv: "part_inv (sysLeader s)" "part_inv (sysFollower s)" using run(1) by (simp_all add: sys_inv_def committed_inv_def)
  obtain rest where "p_msgs (sysLeader s) = p_msgs (sysFollower s) @ rest" using run(1) by (auto simp: sys_inv_def)
  then have "take (nat (pHw (sysFollower s))) (p_msgs (sysFollower s)) =
      take (min (length (p_msgs (sysFollower s))) (nat (pHw (sysFollower s)))) (p_msgs (sysLeader s))"
    by (simp add: min_def)
  then show ?thesis
    using run sys_abs_ok [OF run(1)] Partition_Read_committed [OF inv(1) assms(3,4) _ assms(5)] Partition_Read_committed [OF inv(2) assms(3,4) _ assms(5)]
    by (simp add: clog_read_def clog_replica_read_def sys_abs_def Partition_LogEndOffset_def)
qed


theorem replicated_partition_refines_witness:
  "clog_step\<^sup>*\<^sup>* (sys_abs fresh_sys) (sys_abs committed_sys)
    \<and> Partition_Read (sysFollower committed_sys) 0 64 = Inr (clog_replica_read (sys_abs committed_sys) (nat 0) (nat 64))"
proof -
  have "(sys_step 2)\<^sup>*\<^sup>* fresh_sys committed_sys"
    by (rule sys_run_steps [where as = "[ConnectA 1, AppendLogA msg_hello, AppendHwA, ReadA, SendA,
        BatchDoneA 2, RecvA, AppendLogA msg_hello, ReadA, SendA, RecvA]"]) code_simp
  moreover have "(0::int) \<le> Partition_LogEndOffset (sysFollower committed_sys)" by code_simp
  ultimately show ?thesis using replicated_partition_refines [OF fresh_sys_start, of 2 committed_sys 0 64] by simp
qed

text \<open>
  A leading partition is, for its producers and consumers, an append-only log with a growing committed
  prefix: whatever it does, what was committed stays committed at the same offsets.
\<close>

lemma leader_refines_commit_log:
  assumes "committed_inv p" "pRole p = Leader" "leader_does\<^sup>*\<^sup>* p q"
  shows "clog_step\<^sup>*\<^sup>* (leader_abs p) (leader_abs q)
    \<and> take (clCommitted (leader_abs p)) (clEntries (leader_abs q)) = take (clCommitted (leader_abs p)) (clEntries (leader_abs p))"
proof -
  have "leading p" using assms(1,2) by (simp add: leading_def)
  with assms(3) have steps: "clog_step\<^sup>*\<^sup>* (leader_abs p) (leader_abs q)" using leader_refines.run by blast
  have "clCommitted (leader_abs p) \<le> length (clEntries (leader_abs p))"
    using assms(1) by (auto simp: leader_abs_def committed_inv_def part_inv_def alog.len_msgs)
  then show ?thesis using steps clog_steps_grow [OF steps] by auto
qed

section \<open>Promotion of the follower\<close>

lemma BecomeLeader_promotes:
  assumes "pLeaderEpoch p \<le> epoch"
  shows "pRole (BecomeLeader p epoch isr) = Leader" "pLeaderEpoch (BecomeLeader p epoch isr) = epoch"
    "pReplicas (BecomeLeader p epoch isr) = []" "pLog (BecomeLeader p epoch isr) = pLog p" "pHw (BecomeLeader p epoch isr) = pHw p"
  using assms by (simp_all add: BecomeLeader_def epoch_accepted_def commitLeader_def stopBackground_def)

text \<open>A promoted follower that produced once has committed its whole log, and keeps doing so.\<close>

lemma promoted_run:
  assumes "part_inv f" "pHw f \<le> leo f" "pLeaderEpoch f \<le> epoch"
    and "leader_ops_ok (BecomeLeader f epoch isr) (LProduce m # ops)"
  defines "q \<equiv> leader_run (BecomeLeader f epoch isr) (LProduce m # ops)"
  shows "committed_inv q \<and> pRole q = Leader \<and> pLeaderEpoch q = epoch \<and> leo f < pHw q
    \<and> (\<exists>ms. p_msgs q = p_msgs f @ m\<lparr>msgOffset := leo f\<rparr> # ms)"
proof -
  let ?p = "BecomeLeader f epoch isr"
  let ?p1 = "fst (Partition_Append ?p m)"
  note b = BecomeLeader_promotes [OF assms(3), of isr]
  have p: "committed_inv ?p" using assms(1,2) b by (simp add: committed_inv_def part_inv_def)
  have st: "log_storable (pLog ?p) (m\<lparr>msgOffset := leo ?p\<rparr>)" "leader_ops_ok ?p1 ops" using assms(4) by simp_all
  note app = Partition_Append_leader [OF _ b(1) st(1)] committed_inv_append(1) [OF p b(1) st(1)]
  have "part_inv ?p" using p by (simp add: committed_inv_def)
  with app have p1: "committed_inv ?p1" "pRole ?p1 = Leader" "pLeaderEpoch ?p1 = epoch" "pHw ?p1 = leo f + 1"
    "p_msgs ?p1 = p_msgs f @ [m\<lparr>msgOffset := leo f\<rparr>]" using b by simp_all
  then show ?thesis using leader_run_correct [OF p1(1,2) st(2)] by (auto simp: q_def)
qed

text \<open>
  C6: Failover loses nothing that was committed: a follower whose log reaches the old leader's high watermark and
  that is promoted serves, from its first produce on and whatever it does after that, every committed read as
  the old leader did, in the epoch of its promotion.
\<close>

theorem promotion_keeps_committed:
  assumes "sys_reachable fid s0 s" "pHw (sysLeader s) \<le> Partition_LogEndOffset (sysFollower s)"
    and "pLeaderEpoch (sysFollower s) \<le> epoch"
    and "leader_ops_ok (BecomeLeader (sysFollower s) epoch isr) (LProduce m # ops)"
    and "0 \<le> off" "0 \<le> n" "off + n \<le> pHw (sysLeader s)" "pHw (sysLeader s) < 2 ^ 63"
  shows "let q = leader_run (BecomeLeader (sysFollower s) epoch isr) (LProduce m # ops)
    in pRole q = Leader \<and> pLeaderEpoch q = epoch \<and> pHw (sysLeader s) < pHw q
       \<and> Partition_Read q off n = Partition_Read (sysLeader s) off n"
proof -
  let ?q = "leader_run (BecomeLeader (sysFollower s) epoch isr) (LProduce m # ops)"
  have inv: "committed_inv (sysLeader s)" "part_inv (sysFollower s)" "pHw (sysFollower s) \<le> pHw (sysLeader s)"
    using sys_reachable_inv [OF assms(1)] by (simp_all add: sys_inv_def)
  have leo: "pHw (sysLeader s) \<le> leo (sysFollower s)" using assms(2) by (simp add: Partition_LogEndOffset_def)
  then have q: "committed_inv ?q \<and> pRole ?q = Leader \<and> pLeaderEpoch ?q = epoch \<and> leo (sysFollower s) < pHw ?q
      \<and> (\<exists>ms. p_msgs ?q = p_msgs (sysFollower s) @ m\<lparr>msgOffset := leo (sysFollower s)\<rparr> # ms)"
    using inv(3) by (intro promoted_run [OF inv(2) _ assms(3,4)]) simp
  obtain ms where ms: "p_msgs ?q = p_msgs (sysFollower s) @ ms" using q by blast
  obtain rest where L: "p_msgs (sysLeader s) = p_msgs (sysFollower s) @ rest"
    using sys_reachable_inv [OF assms(1)] by (auto simp: sys_inv_def)
  have len: "nat (pHw (sysLeader s)) \<le> length (p_msgs (sysFollower s))"
    using leo inv(2) by (simp add: alog.len_msgs part_inv_def)
  then have fits: "nat n \<le> length (p_msgs (sysFollower s)) - nat off" "nat off \<le> length (p_msgs (sysFollower s))"
    using assms(5-7) by linarith+
  have "Partition_Read p off n = Inr (take (nat n) (drop (nat off) (p_msgs (sysFollower s))))"
    if "committed_inv p" "pHw (sysLeader s) \<le> pHw p" "p_msgs p = p_msgs (sysFollower s) @ x" for p x
    using Partition_Read_below_hw [OF that(1) assms(5,6)] that(2,3) assms(7,8) fits by simp
  from this [of ?q ms] this [of "sysLeader s" rest] show ?thesis
    using q inv(1) leo ms L by (simp add: Let_def)
qed

theorem promotion_keeps_committed_witness:
  "let q = leader_run (BecomeLeader (sysFollower committed_sys) 7 []) [LProduce msg_hello, LFetch 3 0 5]
   in pRole q = Leader \<and> pLeaderEpoch q = 7 \<and> pHw (sysLeader committed_sys) < pHw q
     \<and> Partition_Read q 0 1 = Partition_Read (sysLeader committed_sys) 0 1"
proof -
  have "pHw (sysLeader committed_sys) \<le> Partition_LogEndOffset (sysFollower committed_sys)"
    "pLeaderEpoch (sysFollower committed_sys) \<le> 7"
    "leader_ops_ok (BecomeLeader (sysFollower committed_sys) 7 []) [LProduce msg_hello, LFetch 3 0 5]"
    "0 + 1 \<le> pHw (sysLeader committed_sys)" "pHw (sysLeader committed_sys) < 2 ^ 63" by code_simp+
  from promotion_keeps_committed [OF committed_reachable this(1-3) _ _ this(4,5)] show ?thesis by simp
qed

text \<open>
  A follower that has not stored everything the leader committed, which \<open>commit_before_follower_stores\<close> shows to be
  possible, puts its first own message at an offset that consumers have already read.
\<close>

lemma promotion_overwrites_committed:
  assumes "sys_reachable fid s0 s" "Partition_LogEndOffset (sysFollower s) < pHw (sysLeader s)"
    and "pHw (sysFollower s) \<le> Partition_LogEndOffset (sysFollower s)" "pLeaderEpoch (sysFollower s) \<le> epoch"
    and "leader_ops_ok (BecomeLeader (sysFollower s) epoch isr) (LProduce m # ops)"
  shows "p_msgs (leader_run (BecomeLeader (sysFollower s) epoch isr) (LProduce m # ops)) ! nat (leo (sysFollower s))
      = m\<lparr>msgOffset := leo (sysFollower s)\<rparr>
    \<and> leo (sysFollower s) < pHw (leader_run (BecomeLeader (sysFollower s) epoch isr) (LProduce m # ops))"
proof -
  have f: "part_inv (sysFollower s)" using sys_reachable_inv [OF assms(1)] by (simp add: sys_inv_def)
  then show ?thesis
    using promoted_run [OF f _ assms(4,5)] assms(3)
    by (auto simp: Partition_LogEndOffset_def alog.len_msgs part_inv_def)
qed

end
