(* ===== verification/Catch_Up.thy ===== *)
theory Catch_Up
  imports Replication
begin

text \<open>
  Replication makes progress: left to themselves, the leader's \<open>FetchReplica\<close> handler (src/internal/broker/broker.go) and the
  follower's \<open>replicationLoop\<close> (src/internal/broker/partition.go), each doing what its code does next, bring the follower's
  log up to the leader's.  The step relation says what may happen; here the next step is chosen by the code.
\<close>

text \<open>The follower receives what is in the channel, the handler sends its batch, reports it, and reads the next.\<close>

definition next_action :: "int \<Rightarrow> replica_sys \<Rightarrow> sys_action" where
  "next_action now s = (case sysStream s of
      None \<Rightarrow> ConnectA now
    | Some st \<Rightarrow> if fsChannel st \<noteq> [] then RecvA
        else if fsPending st \<noteq> [] then SendA
        else if fsBatch st then BatchDoneA now
        else ReadA)"

fun pump :: "int \<Rightarrow> int \<Rightarrow> nat \<Rightarrow> replica_sys \<Rightarrow> replica_sys option" where
  "pump fid now 0 s = Some s"
| "pump fid now (Suc n) s = (case sys_exec fid (next_action now s) s of None \<Rightarrow> None | Some t \<Rightarrow> pump fid now n t)"

definition caught_up :: "replica_sys \<Rightarrow> bool" where
  "caught_up s \<longleftrightarrow> log_msgs (pLog (sysFollower s)) = log_msgs (pLog (sysLeader s))"

text \<open>
  How many steps are left: four for a message that is not read yet (a share of reading its batch and reporting
  it, sending, receiving), two for one in the batch, one for one in the channel.
\<close>

definition missing :: "replica_sys \<Rightarrow> nat" where
  "missing s = length (p_msgs (sysLeader s)) - length (p_msgs (sysFollower s))"

definition work :: "replica_sys \<Rightarrow> nat" where
  "work s = (case sysStream s of
      None \<Rightarrow> 4 * missing s + 1
    | Some st \<Rightarrow> 4 * (missing s - length (fsChannel st) - length (fsPending st)) + 2 * length (fsPending st) + length (fsChannel st)
        + (if fsBatch st then 1 else 0))"

lemma stream_room:
  assumes "sys_inv s" "sysStream s = Some st"
  shows "length (fsChannel st) + length (fsPending st) \<le> missing s"
  using assms by (auto simp: sys_inv_def stream_inv_def missing_def)

lemma read_result:
  assumes "sys_inv s" "sysStream s = Some st" "fsChannel st = []" "fsPending st = []" "\<not> caught_up s"
    and "int (length (p_msgs (sysLeader s))) + 64 < 2 ^ 63"
  shows "\<exists>ms. FetchReplica_read (sysLeader s) st = Inr (st\<lparr>fsPending := ms, fsBatch := True\<rparr>) \<and> ms \<noteq> [] \<and> length ms \<le> missing s"
proof -
  have inv: "log_invar (pLog (sysLeader s))" "log_invar (pLog (sysFollower s))" "stream_inv (sysLeader s) (sysFollower s) st"
    using assms(1,2) by (simp_all add: sys_inv_def committed_inv_def part_inv_def)
  obtain rest where L: "p_msgs (sysLeader s) = p_msgs (sysFollower s) @ rest" "rest \<noteq> []"
    using assms(1,5) by (auto simp: sys_inv_def caught_up_def)
  have off: "fsOffset st = int (length (p_msgs (sysFollower s)))" using inv assms(3) by (simp add: stream_inv_def alog.len_msgs)
  let ?ms = "take 64 rest"
  have "spec_read (p_msgs (sysLeader s)) (fsOffset st) batchSize = Inr ?ms"
    using L off assms(6) by (simp add: spec_read_in_range batchSize_def)
  then have "FetchReplica_read (sysLeader s) st = Inr (st\<lparr>fsPending := ?ms, fsBatch := True\<rparr>)"
    using inv(1) L(2) by (simp add: FetchReplica_read_def ReadReplica_def alog.rd_msgs)
  then show ?thesis using L by (intro exI [of _ ?ms]) (simp add: missing_def)
qed

lemma work_left:
  assumes "sys_inv s" "work s = 0"
  shows "\<exists>st. sysStream s = Some st \<and> fsChannel st = [] \<and> fsPending st = [] \<and> \<not> fsBatch st \<and> caught_up s"
  using assms by (auto simp: work_def caught_up_def missing_def sys_inv_def split: option.splits if_splits)

text \<open>Every step that the code takes while there is work left uses up some of it.\<close>

lemma pump_step:
  assumes "sys_inv s" "0 < work s" "int (length (p_msgs (sysLeader s))) + 64 < 2 ^ 63"
  shows "\<exists>t. sys_exec fid (next_action now s) s = Some t \<and> work t < work s \<and> p_msgs (sysLeader t) = p_msgs (sysLeader s)"
proof (cases "sysStream s")
  case None
  obtain p st where fr: "FetchReplica_open fid (frFetchOffset (replication_request fid (sysFollower s))) now (sysLeader s) = (p, st)" by force
  then have "replicas_step (sysLeader s) p" "fsPending st = []" "fsChannel st = []" "\<not> fsBatch st"
    using replicas_step_update by (auto simp: FetchReplica_open_def)
  then show ?thesis using None fr replicas_step_frame(1) by (simp add: next_action_def work_def missing_def)
next
  case (Some st)
  note room = stream_room [OF assms(1) Some]
  show ?thesis
  proof (cases "fsChannel st")
    case (Cons rec recs)
    note r = sys_receive_result(2) [OF assms(1) Some Cons] sys_inv_recv(1) [OF assms(1) Some Cons]
    show ?thesis
      using r room Some Cons
      by (cases "replica_receive (sysFollower s) rec") (auto simp: next_action_def work_def missing_def)
  next
    case Nil
    consider (send) m ms where "fsPending st = m # ms" | (batch) "fsPending st = []" "fsBatch st" | (read) "fsPending st = []" "\<not> fsBatch st"
      by (cases "fsPending st") auto
    then show ?thesis
    proof cases
      case send
      then show ?thesis using Some Nil room by (simp add: next_action_def work_def missing_def)
    next
      case batch
      obtain p st' where b: "FetchReplica_batchDone fid now (sysLeader s) st = (p, st')" by force
      then have "replicas_step (sysLeader s) p" "st' = st\<lparr>fsBatch := False\<rparr>"
        using batch replicas_step_update by (auto simp: FetchReplica_batchDone_def)
      then show ?thesis using batch Some Nil b replicas_step_frame(1) by (simp add: next_action_def work_def missing_def)
    next
      case read
      then have "\<not> caught_up s" using assms(2) Some Nil by (auto simp: work_def caught_up_def missing_def)
      then obtain ms where "FetchReplica_read (sysLeader s) st = Inr (st\<lparr>fsPending := ms, fsBatch := True\<rparr>)" "ms \<noteq> []" "length ms \<le> missing s"
        using read_result [OF assms(1) Some Nil read(1) _ assms(3)] by blast
      then show ?thesis using read Some Nil by (cases ms) (auto simp: next_action_def work_def missing_def)
    qed
  qed
qed

lemma pump_steps: "pump fid now n s = Some t \<Longrightarrow> (sys_step fid)\<^sup>*\<^sup>* s t"
  by (induction n arbitrary: s) (auto split: option.splits intro: converse_rtranclp_into_rtranclp sys_exec_step)

lemma pump_reaches:
  assumes "sys_inv s" "int (length (p_msgs (sysLeader s))) + 64 < 2 ^ 63"
  shows "\<exists>n t. n \<le> work s \<and> pump fid now n s = Some t \<and> work t = 0 \<and> p_msgs (sysLeader t) = p_msgs (sysLeader s)"
  using assms
proof (induction "work s" arbitrary: s rule: less_induct)
  case less
  show ?case
  proof (cases "work s = 0")
    case True
    then show ?thesis by (intro exI [of _ 0] exI [of _ s]) simp
  next
    case False
    then obtain t where t: "sys_exec fid (next_action now s) s = Some t" "work t < work s" "p_msgs (sysLeader t) = p_msgs (sysLeader s)"
      using pump_step [OF less.prems(1) _ less.prems(2)] by blast
    have "sys_inv t" using sys_step_inv [OF sys_exec_step [OF t(1)] less.prems(1)] .
    then obtain n u where "n \<le> work t" "pump fid now n t = Some u" "work u = 0" "p_msgs (sysLeader u) = p_msgs (sysLeader t)"
      using less.hyps [OF t(2)] less.prems(2) t(3) by auto
    then show ?thesis using t by (intro exI [of _ "Suc n"] exI [of _ u]) simp
  qed
qed

section \<open>What the leader has been told\<close>

text \<open>
  A leader with one follower: between batches it has committed all that the handler has sent, because both the
  start of a stream and the end of a batch report the stream's offset.
\<close>

definition only_replica :: "int \<Rightarrow> partition \<Rightarrow> bool" where
  "only_replica fid p \<longleftrightarrow> list_all (\<lambda>(i, r). i = fid) (pReplicas p)"

definition acked :: "int \<Rightarrow> replica_sys \<Rightarrow> bool" where
  "acked fid s \<longleftrightarrow> only_replica fid (sysLeader s) \<and> (case sysStream s of None \<Rightarrow> True
     | Some st \<Rightarrow> (fsPending st \<noteq> [] \<longrightarrow> fsBatch st) \<and> (\<not> fsBatch st \<longrightarrow> fsOffset st \<le> pHw (sysLeader s)))"

lemma update_commits:
  assumes "part_inv p" "pRole p = Leader" "only_replica fid p"
  shows "only_replica fid (fst (updateReplicaState fid off now p)) \<and> pHw p \<le> pHw (fst (updateReplicaState fid off now p))
    \<and> (off \<le> leo p \<longrightarrow> off \<le> pHw (fst (updateReplicaState fid off now p)))"
proof -
  have "pReplicas p = [] \<or> (\<exists>r. pReplicas p = [(fid, r)])"
    using assms(1,3) by (cases "pReplicas p"; cases "tl (pReplicas p)") (auto simp: only_replica_def part_inv_def gomap_ok_def)
  then show ?thesis
    using assms(2) by (auto simp: updateReplicaState_def Let_def only_replica_def pHw_advanceHW minISR_def)
qed

lemma only_replica_others:
  assumes "only_replica fid p"
  shows "only_replica fid (fst (monitorISR_tick now p))" "only_replica fid (fst (scheduleReplicaEviction fid grace now p))"
  using assms
  by (auto simp: only_replica_def monitorISR_tick_def scheduleReplicaEviction_def Let_def list.pred_map comp_def case_prod_unfold split: option.split)

lemma acked_step:
  assumes "sys_step fid s t" "sys_inv s" "acked fid s"
  shows "acked fid t"
  using assms
proof (induction rule: sys_step.induct)
  case (append_log s m)
  then show ?case
    by (cases "log_Append (pLog (sysLeader s)) m") (simp add: acked_def only_replica_def Append_log_def split: option.splits)
next
  case (append_hw s)
  then have "pHw (sysLeader s) \<le> pHw (Append_hw (sysLeader s))" by (simp add: Append_hw_def sys_inv_def committed_inv_def)
  then show ?case using append_hw by (auto simp: acked_def only_replica_def Append_hw_def split: option.splits)
next
  case (connect s now p st)
  have L: "part_inv (sysLeader s)" "pRole (sysLeader s) = Leader" using connect(3) by (simp_all add: sys_inv_def committed_inv_def)
  have "leo (sysFollower s) \<le> leo (sysLeader s)" using connect(3) by (auto simp: sys_inv_def committed_inv_def part_inv_def alog.len_msgs)
  then show ?case
    using connect(2,4) update_commits [OF L, of fid "leo (sysFollower s)" now]
    by (auto simp: acked_def FetchReplica_open_def replication_request_def)
next
  case (batch_done s st now p st')
  have L: "part_inv (sysLeader s)" "pRole (sysLeader s) = Leader" using batch_done(5) by (simp_all add: sys_inv_def committed_inv_def)
  have "fsOffset st \<le> leo (sysLeader s)"
    using batch_done(1,5) by (auto simp: sys_inv_def committed_inv_def part_inv_def alog.len_msgs stream_inv_def)
  then show ?case
    using batch_done(2-4,6) update_commits [OF L, of fid "fsOffset st" now] by (auto simp: acked_def FetchReplica_batchDone_def)
next
  case (tick s now)
  then show ?case
    using only_replica_others(1) replicas_step_hw(1) [OF replicas_step_tick] by (auto simp: acked_def sys_inv_def split: option.splits) (meson order_trans)
next
  case (evict s now)
  then show ?case
    using only_replica_others(2) replicas_step_hw(1) [OF replicas_step_evict] by (auto simp: acked_def sys_inv_def split: option.splits) (meson order_trans)
next
  case (read s st st')
  then show ?case by (auto simp: acked_def FetchReplica_read_def split: sum.splits)
next
  case (send s st)
  then show ?case by (auto simp: acked_def split: list.splits)
qed (auto simp: acked_def)

lemma acked_steps: "(sys_step fid)\<^sup>*\<^sup>* s t \<Longrightarrow> sys_inv s \<Longrightarrow> acked fid s \<Longrightarrow> acked fid t \<and> sys_inv t"
  by (induction rule: rtranclp_induct) (auto intro: acked_step sys_step_inv)

lemma sys_reachable_acked: "sys_reachable fid s0 s \<Longrightarrow> only_replica fid (sysLeader s0) \<Longrightarrow> acked fid s"
proof (induction rule: sys_reachable.induct)
  case (step s t)
  then show ?case using acked_step sys_reachable_inv by blast
qed (simp add: sys_start_def acked_def)

lemma acked_done:
  assumes "sys_inv s" "acked fid s" "work s = 0"
  shows "pHw (sysLeader s) = leo (sysLeader s)"
proof -
  obtain st where st: "sysStream s = Some st" "fsChannel st = []" "\<not> fsBatch st" "caught_up s" using work_left [OF assms(1,3)] by blast
  then have "fsOffset st = leo (sysLeader s)"
    using assms(1) by (simp add: sys_inv_def stream_inv_def caught_up_def committed_inv_def part_inv_def alog.len_msgs)
  then show ?thesis using st assms(1,2) by (auto simp: acked_def sys_inv_def committed_inv_def)
qed

section \<open>Properties\<close>

text \<open>
  C11: Replication always catches up: from every state that leader and follower can reach, with the stream open, broken or
  half way through a batch, the handler and the loop doing what their code does next bring the follower's
  log up to the leader's, in at most four steps for each missing message and one to connect.  If the follower is the
  only one the leader counts, all that was appended is then committed.
\<close>

theorem follower_catches_up:
  assumes "sys_reachable fid s0 s" "Partition_LogEndOffset (sysLeader s) + 64 < 2 ^ 63"
  shows "\<exists>n t. pump fid now n s = Some t
    \<and> n \<le> 4 * nat (Partition_LogEndOffset (sysLeader s) - Partition_LogEndOffset (sysFollower s)) + 1
    \<and> log_msgs (pLog (sysFollower t)) = log_msgs (pLog (sysLeader s)) \<and> log_msgs (pLog (sysLeader t)) = log_msgs (pLog (sysLeader s))
    \<and> (only_replica fid (sysLeader s0) \<longrightarrow> Partition_HW (sysLeader t) = Partition_LogEndOffset (sysLeader s))"
proof -
  note inv = sys_reachable_inv [OF assms(1)]
  have len: "leo (sysLeader s) = int (length (p_msgs (sysLeader s)))" "leo (sysFollower s) = int (length (p_msgs (sysFollower s)))"
    using inv by (simp_all add: sys_inv_def committed_inv_def part_inv_def alog.len_msgs)
  have "work s \<le> 4 * missing s + 1"
    using stream_room [OF inv] by (auto simp: work_def split: option.split)
  moreover have "missing s = nat (leo (sysLeader s) - leo (sysFollower s))" using len by (simp add: missing_def)
  moreover obtain n t where t: "n \<le> work s" "pump fid now n s = Some t" "work t = 0" "p_msgs (sysLeader t) = p_msgs (sysLeader s)"
    using pump_reaches [OF inv] assms(2) len by (force simp: Partition_LogEndOffset_def)
  moreover have "sys_inv t" using pump_steps [OF t(2)] inv by (induction rule: rtranclp_induct) (auto intro: sys_step_inv)
  moreover have "pHw (sysLeader t) = leo (sysLeader t)" if "only_replica fid (sysLeader s0)"
    using acked_steps [OF pump_steps [OF t(2)] inv sys_reachable_acked [OF assms(1) that]] acked_done t(3) by blast
  ultimately show ?thesis
    using work_left [of t] len
    by (intro exI [of _ n] exI [of _ t])
      (auto simp: caught_up_def Partition_LogEndOffset_def Partition_HW_def sys_inv_def committed_inv_def part_inv_def alog.len_msgs)
qed

definition behind_sys :: replica_sys where
  "behind_sys = the (sys_run 2 [AppendLogA msg_hello, AppendHwA, ConnectA 1, ReadA, BreakA, AppendLogA msg_hello] fresh_sys)"

lemma behind_reachable: "sys_reachable 2 fresh_sys behind_sys"
proof (rule sys_reachable_run [OF _ fresh_sys_start])
  show "sys_run 2 [AppendLogA msg_hello, AppendHwA, ConnectA 1, ReadA, BreakA, AppendLogA msg_hello] fresh_sys = Some behind_sys" by code_simp
qed

theorem follower_catches_up_witness:
  "\<exists>n t. pump 2 9 n behind_sys = Some t \<and> length (log_msgs (pLog (sysFollower behind_sys))) = 0
    \<and> log_msgs (pLog (sysFollower t)) = log_msgs (pLog (sysLeader behind_sys)) \<and> length (log_msgs (pLog (sysLeader behind_sys))) = 2
    \<and> Partition_HW (sysLeader t) = 2"
proof -
  have "Partition_LogEndOffset (sysLeader behind_sys) + 64 < 2 ^ 63" by code_simp
  moreover have "only_replica 2 (sysLeader fresh_sys)" "Partition_LogEndOffset (sysLeader behind_sys) = 2" by code_simp+
  moreover have "length (log_msgs (pLog (sysFollower behind_sys))) = 0" "length (log_msgs (pLog (sysLeader behind_sys))) = 2" by code_simp+
  ultimately show ?thesis using follower_catches_up [OF behind_reachable, of 9] by auto
qed

end
