(* ===== verification/Replica_Set.thy ===== *)
theory Replica_Set
  imports Commit_Log Catch_Up
begin

text \<open>
  A partition with any number of replicas over any number of terms: one leader, each follower joined to it by
  its own stream as in \<open>Replication\<close>, the promotion of a follower when the leader is lost, replicas that join empty and replicas that are lost.
  A step of one follower is a step of the pair that it forms with the leader; the other followers only see
  the leader change.  \<open>gCommitted\<close> is not in the code: it records the highest watermark any leader has had,
  which is what consumers may have read.
\<close>

record replica_set =
  gLeader :: partition
  gMembers :: "int list"
  gReplica :: "int \<Rightarrow> partition"
  gStream :: "int \<Rightarrow> fetch_stream option"
  gCommitted :: int

definition pair :: "replica_set \<Rightarrow> int \<Rightarrow> replica_sys" where
  "pair g i = \<lparr>sysLeader = gLeader g, sysFollower = gReplica g i, sysStream = gStream g i\<rparr>"

definition set_pair :: "int \<Rightarrow> replica_sys \<Rightarrow> replica_set \<Rightarrow> replica_set" where
  "set_pair i s g = g\<lparr>gLeader := sysLeader s, gReplica := (gReplica g)(i := sysFollower s), gStream := (gStream g)(i := sysStream s),
     gCommitted := max (gCommitted g) (pHw (sysLeader s))\<rparr>"

text \<open>The role assignments of a failover: \<open>w\<close> leads in the new epoch, the others follow it, all streams are cut.\<close>

definition promote :: "int \<Rightarrow> int \<Rightarrow> int list \<Rightarrow> replica_set \<Rightarrow> replica_set" where
  "promote w epoch isr g = g\<lparr>gLeader := BecomeLeader (gReplica g w) epoch isr, gMembers := filter (\<lambda>j. j \<noteq> w) (gMembers g),
     gReplica := (\<lambda>j. BecomeFollower (gReplica g j) w epoch), gStream := (\<lambda>_. None)\<rparr>"

definition storable_by_all :: "replica_set \<Rightarrow> message list \<Rightarrow> bool" where
  "storable_by_all g ms \<longleftrightarrow> list_all (\<lambda>j. list_all (log_storable (pLog (gReplica g j))) ms) (gMembers g)"

text \<open>
  A failover promotes a follower with the longest log that holds what was committed; that it does is what the
  choice of the coordinator has to ensure (\<open>pickNewLeader_best\<close>, \<open>promotion_overwrites_committed\<close>).
\<close>

inductive set_step :: "replica_set \<Rightarrow> replica_set \<Rightarrow> bool" where
  member: "i \<in> set (gMembers g) \<Longrightarrow> sys_step i (pair g i) s \<Longrightarrow> storable_by_all g (log_msgs (pLog (sysLeader s))) \<Longrightarrow>
     set_step g (set_pair i s g)"
| alone: "gMembers g = [] \<Longrightarrow> leader_does (gLeader g) p \<Longrightarrow> set_step g (g\<lparr>gLeader := p, gCommitted := max (gCommitted g) (pHw p)\<rparr>)"
| failover: "w \<in> set (gMembers g) \<Longrightarrow> list_all (\<lambda>j. leo (gReplica g j) \<le> leo (gReplica g w)) (gMembers g) \<Longrightarrow>
     list_all (\<lambda>j. pLeaderEpoch (gReplica g j) \<le> epoch) (gMembers g) \<Longrightarrow> gCommitted g \<le> leo (gReplica g w) \<Longrightarrow>
     set_step g (promote w epoch isr g)"
| join: "i \<notin> set (gMembers g) \<Longrightarrow> part_inv f \<Longrightarrow> log_msgs (pLog f) = [] \<Longrightarrow> pHw f = 0 \<Longrightarrow>
     list_all (log_storable (pLog f)) (log_msgs (pLog (gLeader g))) \<Longrightarrow>
     set_step g (g\<lparr>gMembers := i # gMembers g, gReplica := (gReplica g)(i := f), gStream := (gStream g)(i := None)\<rparr>)"
| leave: "set_step g (g\<lparr>gMembers := filter (\<lambda>j. j \<noteq> i) (gMembers g)\<rparr>)"

definition set_start :: "replica_set \<Rightarrow> bool" where
  "set_start g \<longleftrightarrow> leading (gLeader g) \<and> gCommitted g = pHw (gLeader g) \<and> list_all (\<lambda>i. sys_start (pair g i)) (gMembers g)"

text \<open>
  The invariant: every follower and its stream are related to the leader as in \<open>Replication\<close>, if the leader's
  watermark is taken to be the highest there has been; a new leader's own watermark may be behind for a while.
\<close>

definition raised :: "replica_set \<Rightarrow> partition" where
  "raised g = (gLeader g)\<lparr>pHw := gCommitted g\<rparr>"

definition set_inv :: "replica_set \<Rightarrow> bool" where
  "set_inv g \<longleftrightarrow> leading (gLeader g) \<and> pHw (gLeader g) \<le> gCommitted g \<and> gCommitted g \<le> leo (gLeader g)
     \<and> (\<forall>i \<in> set (gMembers g). sys_inv ((pair g i)\<lparr>sysLeader := raised g\<rparr>))"

text \<open>The specification: what was committed, to which only more is added.\<close>

definition durable :: "replica_set \<Rightarrow> message list" where
  "durable g = take (nat (gCommitted g)) (log_msgs (pLog (gLeader g)))"

definition grows :: "message list \<Rightarrow> message list \<Rightarrow> bool" where
  "grows a b \<longleftrightarrow> (\<exists>ms. b = a @ ms)"

text \<open>The same steps as a function of a schedule, to run concrete cases.\<close>

datatype set_action = MemberA int sys_action | AloneA leader_op | FailoverA int int "int list" | JoinA int partition | LeaveA int

fun set_exec :: "set_action \<Rightarrow> replica_set \<Rightarrow> replica_set option" where
  "set_exec (MemberA i a) g = (case sys_exec i a (pair g i) of None \<Rightarrow> None
     | Some s \<Rightarrow> if List.member (gMembers g) i \<and> storable_by_all g (log_msgs (pLog (sysLeader s))) then Some (set_pair i s g) else None)"
| "set_exec (AloneA op) g = (let p = leader_step (gLeader g) op
     in if gMembers g = [] \<and> leader_ops_ok (gLeader g) [op] then Some (g\<lparr>gLeader := p, gCommitted := max (gCommitted g) (pHw p)\<rparr>) else None)"
| "set_exec (FailoverA w epoch isr) g =
     (if List.member (gMembers g) w \<and> list_all (\<lambda>j. leo (gReplica g j) \<le> leo (gReplica g w)) (gMembers g)
         \<and> list_all (\<lambda>j. pLeaderEpoch (gReplica g j) \<le> epoch) (gMembers g) \<and> gCommitted g \<le> leo (gReplica g w)
      then Some (promote w epoch isr g) else None)"
| "set_exec (JoinA i f) g =
     (if \<not> List.member (gMembers g) i \<and> part_inv f \<and> log_msgs (pLog f) = [] \<and> pHw f = 0
         \<and> list_all (log_storable (pLog f)) (log_msgs (pLog (gLeader g)))
      then Some (g\<lparr>gMembers := i # gMembers g, gReplica := (gReplica g)(i := f), gStream := (gStream g)(i := None)\<rparr>) else None)"
| "set_exec (LeaveA i) g = Some (g\<lparr>gMembers := filter (\<lambda>j. j \<noteq> i) (gMembers g)\<rparr>)"

fun set_run :: "set_action list \<Rightarrow> replica_set \<Rightarrow> replica_set option" where
  "set_run [] g = Some g"
| "set_run (a # as) g = (case set_exec a g of None \<Rightarrow> None | Some h \<Rightarrow> set_run as h)"

lemma leader_does_op: "leader_ops_ok p [op] \<Longrightarrow> leader_does p (leader_step p op)"
  by (auto simp: leader_does_def simp del: leader_ops_ok.simps)

lemma set_exec_step: "set_exec a g = Some h \<Longrightarrow> set_step g h"
  by (cases a) (auto simp: Let_def simp del: leader_ops_ok.simps
    split: option.splits if_splits intro: set_step.intros leader_does_op dest: sys_exec_step)

lemma set_run_steps: "set_run as g = Some h \<Longrightarrow> set_step\<^sup>*\<^sup>* g h"
  by (induction as arbitrary: g) (auto split: option.splits intro: converse_rtranclp_into_rtranclp set_exec_step)

lemma set_start_inv: "set_start g \<Longrightarrow> set_inv g"
  by (auto simp: set_start_def set_inv_def raised_def pair_def list_all_iff leading_def committed_inv_def dest: sys_inv_start)

section \<open>The leader\<close>

text \<open>What a step of one pair does to the leader.\<close>

lemma leader_replicas:
  assumes "replicas_step p q" "leading p"
  shows "leading q" "pHw p \<le> pHw q" "p_msgs q = p_msgs p"
  using assms replicas_step_frame [OF assms(1)] replicas_step_hw(1) [OF assms(1)] replicas_step_inv [OF assms(1)]
  by (simp_all add: leading_def)

lemma sys_step_leader:
  assumes "sys_step i s t" "leading (sysLeader s)"
  shows "leading (sysLeader t) \<and> pHw (sysLeader s) \<le> pHw (sysLeader t) \<and> (\<exists>ms. p_msgs (sysLeader t) = p_msgs (sysLeader s) @ ms)"
  using assms
proof (induction rule: sys_step.induct)
  case (append_log s m)
  then show ?case
    using Append_log_result [of "sysLeader s" m] by (auto simp: leading_def committed_inv_def part_inv_def)
next
  case (append_hw s)
  then show ?case by (auto simp: leading_def committed_inv_def part_inv_def Append_hw_def)
next
  case (connect s now p st)
  then have "replicas_step (sysLeader s) p" using replicas_step_update by (auto simp: FetchReplica_open_def)
  from leader_replicas [OF this connect(3)] show ?case by simp
next
  case (batch_done s st now p st')
  then have "replicas_step (sysLeader s) p" using replicas_step_update by (auto simp: FetchReplica_batchDone_def)
  from leader_replicas [OF this batch_done(5)] show ?case by simp
next
  case (tick s now)
  from leader_replicas [OF replicas_step_tick tick] show ?case by simp
next
  case (evict s now)
  from leader_replicas [OF replicas_step_evict evict] show ?case by simp
qed auto

section \<open>The invariant\<close>

lemma raise_leader:
  assumes "sys_inv (s\<lparr>sysLeader := L\<lparr>pHw := c\<rparr>\<rparr>)" "leading L'" "p_msgs L' = p_msgs L @ ms"
    and "list_all (log_storable (pLog (sysFollower s))) ms"
  shows "sys_inv (s\<lparr>sysLeader := L'\<lparr>pHw := max c (pHw L')\<rparr>\<rparr>)"
proof -
  have L: "log_invar (pLog L)" "0 \<le> c" "c \<le> leo L" using assms(1) by (auto simp: sys_inv_def committed_inv_def part_inv_def)
  have L': "part_inv L'" "pHw L' \<le> leo L'" "pRole L' = Leader" using assms(2) by (auto simp: leading_def committed_inv_def)
  then have "leo L \<le> leo L'" using L(1) assms(3) by (simp add: alog.len_msgs part_inv_def)
  then have "committed_inv (L'\<lparr>pHw := max c (pHw L')\<rparr>)" using L L' by (auto simp: committed_inv_def part_inv_def)
  from sys_inv_leader [OF assms(1) this, of ms] show ?thesis using L' assms(3,4) by simp
qed

lemma leader_first:
  "s\<lparr>sysStream := st, sysLeader := L\<rparr> = s\<lparr>sysLeader := L, sysStream := st\<rparr>"
  "s\<lparr>sysFollower := F, sysLeader := L\<rparr> = s\<lparr>sysLeader := L, sysFollower := F\<rparr>"
  by (cases s; simp)+

lemma raised_stream:
  assumes "sys_inv (s\<lparr>sysLeader := L\<rparr>)" "stream_inv L (sysFollower s) st"
  shows "sys_inv (s\<lparr>sysLeader := L, sysStream := Some st\<rparr>)"
  using sys_inv_stream [OF assms(1)] assms(2) by simp

text \<open>A record is sent with the leader's own watermark, which is at most the raised one.\<close>

lemma raised_send:
  assumes "stream_inv (L\<lparr>pHw := c\<rparr>) F st" "fsPending st \<noteq> []" "pHw L \<le> c"
  shows "stream_inv (L\<lparr>pHw := c\<rparr>) F (FetchReplica_send L st)"
proof -
  obtain m ms where pend: "fsPending st = m # ms" using assms(2) by (cases "fsPending st") auto
  obtain rest where "p_msgs L = p_msgs F @ map rrMessage (fsChannel st) @ fsPending st @ rest"
    using assms(1) by (auto simp: stream_inv_def)
  then show ?thesis using assms(1,3) pend by (auto simp: stream_inv_def Partition_HW_def)
qed

lemma pair_step_raised:
  assumes "sys_step i s t" "leading (sysLeader s)" "pHw (sysLeader s) \<le> c" "sys_inv (s\<lparr>sysLeader := (sysLeader s)\<lparr>pHw := c\<rparr>\<rparr>)"
    and "list_all (log_storable (pLog (sysFollower s))) (p_msgs (sysLeader t))"
  shows "sys_inv (t\<lparr>sysLeader := (sysLeader t)\<lparr>pHw := max c (pHw (sysLeader t))\<rparr>\<rparr>)"
proof -
  let ?L = "(sysLeader t)\<lparr>pHw := max c (pHw (sysLeader t))\<rparr>"
  obtain ms where t: "leading (sysLeader t)" "pHw (sysLeader s) \<le> pHw (sysLeader t)" "p_msgs (sysLeader t) = p_msgs (sysLeader s) @ ms"
    using sys_step_leader [OF assms(1,2)] by blast
  then have up: "sys_inv (s\<lparr>sysLeader := ?L\<rparr>)" using raise_leader [OF assms(4)] assms(5) by simp
  from assms(1) show ?thesis
  proof cases
    case (connect now p st)
    then have "st = \<lparr>fsOffset = leo (sysFollower s), fsPending = [], fsBatch = False, fsChannel = []\<rparr>"
      by (auto simp: FetchReplica_open_def replication_request_def)
    then show ?thesis using raised_stream [OF up] stream_inv_open [OF up] connect(1) by (simp add: leader_first)
  next
    case (read st st')
    have "stream_inv ?L (sysFollower s) st" using up read(2) by (simp add: sys_inv_def)
    moreover have "FetchReplica_read ?L st = Inr st'" using read by (simp add: FetchReplica_read_def ReadReplica_def)
    ultimately have "stream_inv ?L (sysFollower s) st'"
      using stream_inv_read [of ?L "sysFollower s" st st'] read(3) up by (auto simp: sys_inv_def committed_inv_def part_inv_def)
    then show ?thesis using raised_stream [OF up] read(1) by (simp add: leader_first)
  next
    case (send st)
    have "stream_inv ?L (sysFollower s) (FetchReplica_send (sysLeader s) st)"
      using up send raised_send [where L = "sysLeader s" and c = "max c (pHw (sysLeader s))"] by (simp add: sys_inv_def)
    then show ?thesis using raised_stream [OF up] send(1) by (simp add: leader_first)
  next
    case (batch_done st now p st')
    then have "st' = st\<lparr>fsBatch := False\<rparr>" by (auto simp: FetchReplica_batchDone_def)
    moreover have "stream_inv ?L (sysFollower s) st" using up batch_done(2) by (simp add: sys_inv_def)
    ultimately show ?thesis using raised_stream [OF up, of st'] batch_done(1) by (simp add: stream_inv_def leader_first)
  next
    case (recv st rec recs f)
    then show ?thesis using sys_inv_recv(2) [OF up, of st rec recs] by (simp add: leader_first)
  next
    case (recv_error st rec recs f e)
    then show ?thesis using sys_inv_recv(1) [OF up, of st rec recs] by (simp add: leader_first)
  next
    case break_stream
    then show ?thesis using sys_inv_no_stream [OF up] by (simp add: leader_first)
  qed (use up in simp_all)
qed

lemma pair_set_pair:
  "(pair (set_pair i s g) j)\<lparr>sysLeader := raised (set_pair i s g)\<rparr> =
     (if j = i then s\<lparr>sysLeader := (sysLeader s)\<lparr>pHw := max (gCommitted g) (pHw (sysLeader s))\<rparr>\<rparr>
      else (pair g j)\<lparr>sysLeader := (sysLeader s)\<lparr>pHw := max (gCommitted g) (pHw (sysLeader s))\<rparr>\<rparr>)"
  by (simp add: pair_def set_pair_def raised_def)

lemma set_inv_member:
  assumes "set_inv g" "i \<in> set (gMembers g)" "sys_step i (pair g i) s" "storable_by_all g (p_msgs (sysLeader s))"
  shows "set_inv (set_pair i s g) \<and> (\<exists>ms. p_msgs (sysLeader s) = p_msgs (gLeader g) @ ms)"
proof -
  have g: "leading (gLeader g)" "pHw (gLeader g) \<le> gCommitted g" "gCommitted g \<le> leo (gLeader g)"
    and inv: "\<And>j. j \<in> set (gMembers g) \<Longrightarrow> sys_inv ((pair g j)\<lparr>sysLeader := (gLeader g)\<lparr>pHw := gCommitted g\<rparr>\<rparr>)"
    using assms(1) by (auto simp: set_inv_def raised_def)
  have L [simp]: "sysLeader (pair g j) = gLeader g" "sysFollower (pair g j) = gReplica g j" for j by (simp_all add: pair_def)
  obtain ms where s: "leading (sysLeader s)" "pHw (gLeader g) \<le> pHw (sysLeader s)" "p_msgs (sysLeader s) = p_msgs (gLeader g) @ ms"
    using sys_step_leader [OF assms(3)] g(1) by auto
  have st: "list_all (log_storable (pLog (gReplica g j))) (p_msgs (sysLeader s))" if "j \<in> set (gMembers g)" for j
    using assms(4) that by (simp add: storable_by_all_def list_all_iff)
  have "sys_inv ((pair (set_pair i s g) j)\<lparr>sysLeader := raised (set_pair i s g)\<rparr>)" if j: "j \<in> set (gMembers g)" for j
  proof (cases "j = i")
    case True
    then show ?thesis using pair_step_raised [OF assms(3), of "gCommitted g"] g inv [OF assms(2)] st [OF assms(2)] by (simp add: pair_set_pair)
  next
    case False
    then show ?thesis using raise_leader [OF inv [OF j] s(1,3)] st [OF j] s(3) by (simp add: pair_set_pair)
  qed
  moreover have "gCommitted g \<le> leo (sysLeader s)"
    using g(1,3) s(1,3) by (simp add: leading_def committed_inv_def part_inv_def alog.len_msgs)
  ultimately show ?thesis
    using s by (auto simp: set_inv_def set_pair_def leading_def committed_inv_def)
qed

lemma set_inv_alone:
  assumes "set_inv g" "gMembers g = []" "leader_does (gLeader g) p"
  shows "set_inv (g\<lparr>gLeader := p, gCommitted := max (gCommitted g) (pHw p)\<rparr>) \<and> (\<exists>ms. p_msgs p = p_msgs (gLeader g) @ ms)"
proof -
  have g: "leading (gLeader g)" "gCommitted g \<le> leo (gLeader g)" using assms(1) by (auto simp: set_inv_def)
  have p: "leading p" "clog_step\<^sup>*\<^sup>* (leader_abs (gLeader g)) (leader_abs p)" using leader_does_refines [OF g(1) assms(3)] by auto
  obtain ms where ms: "p_msgs p = p_msgs (gLeader g) @ ms" using clog_steps_grow [OF p(2)] by (auto simp: leader_abs_def)
  then have "leo (gLeader g) \<le> leo p" using g(1) p(1) by (simp add: leading_def committed_inv_def part_inv_def alog.len_msgs)
  then show ?thesis using g(2) p(1) ms assms(2) by (auto simp: set_inv_def leading_def committed_inv_def)
qed

text \<open>A failover: the logs of the other followers are prefixes of the promoted one's, and so is what was committed.\<close>

lemma set_inv_failover:
  assumes "set_inv g" "w \<in> set (gMembers g)" "list_all (\<lambda>j. leo (gReplica g j) \<le> leo (gReplica g w)) (gMembers g)"
    and "list_all (\<lambda>j. pLeaderEpoch (gReplica g j) \<le> epoch) (gMembers g)" "gCommitted g \<le> leo (gReplica g w)"
  shows "set_inv (promote w epoch isr g) \<and> durable (promote w epoch isr g) = durable g"
proof -
  have inv: "sys_inv ((pair g j)\<lparr>sysLeader := raised g\<rparr>)" if "j \<in> set (gMembers g)" for j using assms(1) that by (auto simp: set_inv_def)
  have F: "part_inv (gReplica g j)" "pHw (gReplica g j) \<le> gCommitted g" "list_all (log_storable (pLog (gReplica g j))) (p_msgs (gLeader g))"
    "\<exists>rest. p_msgs (gLeader g) = p_msgs (gReplica g j) @ rest" if "j \<in> set (gMembers g)" for j
    using inv [OF that] by (auto simp: sys_inv_def pair_def raised_def)
  have len: "leo (gReplica g j) = int (length (p_msgs (gReplica g j)))" if "j \<in> set (gMembers g)" for j
    using F(1) [OF that] by (simp add: alog.len_msgs part_inv_def)
  have epoch: "pLeaderEpoch (gReplica g j) \<le> epoch" if "j \<in> set (gMembers g)" for j using assms(4) that by (auto simp: list_all_iff)
  note b = BecomeLeader_promotes [OF epoch [OF assms(2)], of isr]
  obtain rw where w: "p_msgs (gLeader g) = p_msgs (gReplica g w) @ rw" using F(4) [OF assms(2)] by blast
  have pre: "\<exists>rest. p_msgs (gReplica g w) = p_msgs (gReplica g j) @ rest" if j: "j \<in> set (gMembers g)" for j
  proof -
    obtain rj where rj: "p_msgs (gLeader g) = p_msgs (gReplica g j) @ rj" using F(4) [OF j] by blast
    have "length (p_msgs (gReplica g j)) \<le> length (p_msgs (gReplica g w))"
      using assms(3) j len [OF j] len [OF assms(2)] by (auto simp: list_all_iff)
    then show ?thesis using w rj by (metis append_eq_append_conv_if append_take_drop_id)
  qed
  have follow: "pLog (BecomeFollower p w epoch) = pLog p" "pHw (BecomeFollower p w epoch) = pHw p" "part_inv p \<Longrightarrow> part_inv (BecomeFollower p w epoch)" for p
    by (simp_all add: BecomeFollower_def commitFollower_def stopBackground_def part_inv_def)
  have lead: "leading (BecomeLeader (gReplica g w) epoch isr)"
    using F(1,2) [OF assms(2)] b assms(5) by (simp add: leading_def committed_inv_def part_inv_def)
  have c0: "0 \<le> gCommitted g" using assms(1) by (auto simp: set_inv_def leading_def committed_inv_def part_inv_def)
  have "sys_inv ((pair (promote w epoch isr g) j)\<lparr>sysLeader := raised (promote w epoch isr g)\<rparr>)" if j: "j \<in> set (gMembers g)" for j
    using lead b c0 assms(5) F [OF j] follow pre [OF j] w
    by (auto simp: sys_inv_def pair_def raised_def promote_def leading_def committed_inv_def part_inv_def list_all_iff)
  then have "set_inv (promote w epoch isr g)"
    using lead b assms(5) F(2) [OF assms(2)] by (auto simp: set_inv_def promote_def)
  moreover have "nat (gCommitted g) \<le> length (p_msgs (gReplica g w))" using assms(5) len [OF assms(2)] by simp
  ultimately show ?thesis using b w by (simp add: durable_def promote_def)
qed


text \<open>A replica that joins is empty, so that its log is a prefix of any leader's.\<close>

lemma set_inv_join:
  fixes i :: int
  assumes "set_inv g" "part_inv f" "log_msgs (pLog f) = []" "pHw f = 0" "list_all (log_storable (pLog f)) (p_msgs (gLeader g))"
  defines "h \<equiv> g\<lparr>gMembers := i # gMembers g, gReplica := (gReplica g)(i := f), gStream := (gStream g)(i := None)\<rparr>"
  shows "set_inv h \<and> durable h = durable g"
proof -
  have g: "leading (gLeader g)" "pHw (gLeader g) \<le> gCommitted g" "gCommitted g \<le> leo (gLeader g)"
    using assms(1) by (auto simp: set_inv_def)
  then have "sys_inv ((pair h i)\<lparr>sysLeader := raised h\<rparr>)"
    using assms(2-5) by (auto simp: sys_inv_def pair_def raised_def h_def leading_def committed_inv_def part_inv_def)
  moreover have "(pair h j)\<lparr>sysLeader := raised h\<rparr> = (pair g j)\<lparr>sysLeader := raised g\<rparr>" if "j \<noteq> i" for j
    using that by (simp add: pair_def raised_def h_def)
  moreover have "set (gMembers h) = insert i (set (gMembers g))" by (simp add: h_def)
  ultimately have "\<forall>j \<in> set (gMembers h). sys_inv ((pair h j)\<lparr>sysLeader := raised h\<rparr>)"
    using assms(1) unfolding set_inv_def by (metis insert_iff)
  then show ?thesis using g by (simp add: set_inv_def durable_def h_def)
qed

text \<open>A leader that appends and commits adds to what is durable.\<close>

lemma durable_grows:
  assumes "gCommitted g \<le> leo (gLeader g)" "part_inv (gLeader g)" "gCommitted g \<le> gCommitted h"
    and "p_msgs (gLeader h) = p_msgs (gLeader g) @ ms"
  shows "grows (durable g) (durable h)"
proof -
  have "nat (gCommitted g) \<le> length (p_msgs (gLeader g))" using assms(1,2) by (simp add: alog.len_msgs part_inv_def)
  then have "durable g = take (nat (gCommitted g)) (p_msgs (gLeader h))" by (simp add: durable_def assms(4))
  moreover have "nat (gCommitted h) = nat (gCommitted g) + (nat (gCommitted h) - nat (gCommitted g))" using assms(3) by simp
  ultimately show ?thesis unfolding grows_def durable_def by (metis take_add)
qed

lemma set_step_keeps:
  assumes "set_inv g" "set_step g h"
  shows "set_inv h \<and> grows (durable g) (durable h)"
  using assms(2)
proof cases
  case (member i s)
  then have h: "set_inv h" "\<exists>ms. p_msgs (gLeader h) = p_msgs (gLeader g) @ ms" "gCommitted g \<le> gCommitted h"
    using set_inv_member [OF assms(1) member(2,3,4)] by (simp_all add: set_pair_def)
  then show ?thesis using durable_grows assms(1) by (auto simp: set_inv_def leading_def committed_inv_def)
next
  case (alone p)
  then have h: "set_inv h" "\<exists>ms. p_msgs (gLeader h) = p_msgs (gLeader g) @ ms" "gCommitted g \<le> gCommitted h"
    using set_inv_alone [OF assms(1) alone(2,3)] by simp_all
  then show ?thesis using durable_grows assms(1) by (auto simp: set_inv_def leading_def committed_inv_def)
next
  case (failover w epoch isr)
  then show ?thesis using set_inv_failover [OF assms(1) failover(2-5), of isr] by (auto simp: grows_def)
next
  case (join i f)
  then show ?thesis using set_inv_join [OF assms(1) join(3-6), of i] by (auto simp: grows_def)
next
  case (leave i)
  then have "pair h = pair g" "raised h = raised g" "durable h = durable g" by (simp_all add: fun_eq_iff pair_def raised_def durable_def)
  then show ?thesis using assms(1) leave by (auto simp: set_inv_def grows_def)
qed

interpretation set_refines: refinement set_step set_inv grows durable
  by unfold_locales (blast dest: set_step_keeps)+

lemma grows_trans: "grows\<^sup>*\<^sup>* a b \<Longrightarrow> grows a b"
  by (induction rule: rtranclp_induct) (auto simp: grows_def)


section \<open>Properties\<close>

lemma set_inv_read:
  assumes "set_inv h" "grows d (durable h)" "0 \<le> off" "0 \<le> n" "off + n \<le> int (length d)" "off + n \<le> pHw (gLeader h)" "off + n < 2 ^ 63"
  shows "Partition_Read (gLeader h) off n = Inr (take (nat n) (drop (nat off) d))"
proof -
  have "committed_inv (gLeader h)" using assms(1) by (simp add: set_inv_def leading_def)
  moreover obtain ms where "p_msgs (gLeader h) = d @ ms"
    using assms(2) by (metis append.assoc append_take_drop_id durable_def grows_def)
  moreover have "nat n \<le> length d - nat off" "nat off \<le> length d" using assms(3-5) by linarith+
  ultimately show ?thesis using Partition_Read_below_hw [OF _ assms(3,4,6,7)] by simp
qed

lemma length_durable: "set_inv g \<Longrightarrow> int (length (durable g)) = gCommitted g"
  by (auto simp: set_inv_def durable_def leading_def committed_inv_def part_inv_def alog.len_msgs min_def)



definition fresh_set :: replica_set where
  "fresh_set = \<lparr>gLeader = fresh_partition, gMembers = [2, 3], gReplica = (\<lambda>_. fresh_follower), gStream = (\<lambda>_. None), gCommitted = 0\<rparr>"

definition first_term :: "set_action list" where
  "first_term = map (MemberA 2) [ConnectA 1, AppendLogA msg_hello, AppendHwA, ReadA, SendA, BatchDoneA 2, RecvA]"

definition second_term :: "set_action list" where
  "second_term = FailoverA 2 5 [] # map (MemberA 3) [AppendLogA msg_hello, AppendHwA, ConnectA 4, ReadA, SendA, RecvA, SendA, RecvA] @ [JoinA 1 fresh_follower]"


end
