(* ===== verification/Assignment.thy ===== *)
theory Assignment
  imports Go_Prelude "HOL-Library.List_Lexorder" "HOL-Library.Char_ord" "HOL-Library.Signed_Division"
begin

text \<open>
  The pure helpers of the coordinator, src/internal/coordinator/coordinator.go: the ranges of
  partitions given to the members of a consumer group, the backups of a partition and the
  sorted keys of a group.  The arithmetic is that of \<open>int32\<close>, division truncates as in Go.
\<close>

definition min32 :: "int \<Rightarrow> int \<Rightarrow> int" where
  "min32 a b = (if a < b then a else b)"

text \<open>A division by zero and a negative slice length are run-time panics.\<close>

definition partitionRange :: "int \<Rightarrow> int \<Rightarrow> int \<Rightarrow> int list result" where
  "partitionRange memberIdx totalMembers totalPartitions =
     (if totalMembers = 0 then Inl GoPanic
      else let base = int32 (totalPartitions sdiv totalMembers);
               extra = int32 (totalPartitions smod totalMembers);
               start = int32 (int32 (memberIdx * base) + min32 memberIdx extra);
               count = (if memberIdx < extra then int32 (base + 1) else base)
           in if count < 0 then Inl GoPanic
              else Inr (map (\<lambda>i. int32 (start + int32 (int i))) [0..<nat count]))"

fun selectBackups_loop :: "string list \<Rightarrow> string list \<Rightarrow> string \<Rightarrow> int \<Rightarrow> string list" where
  "selectBackups_loop backups [] primary n = backups"
| "selectBackups_loop backups (b # bs) primary n =
     (if int (length backups) = n then backups
      else selectBackups_loop (if b \<noteq> primary then backups @ [b] else backups) bs primary n)"

definition selectBackups :: "string list \<Rightarrow> string \<Rightarrow> int \<Rightarrow> string list" where
  "selectBackups brokers primary n = selectBackups_loop [] brokers primary n"

definition sortedKeys :: "(string, int list) gomap \<Rightarrow> string list" where
  "sortedKeys m = sort (go_keys m)"

section \<open>Ranges\<close>

lemma sdiv_nonneg: "0 \<le> (a::int) \<Longrightarrow> 0 < b \<Longrightarrow> a sdiv b = a div b"
  by (cases "a = 0") (simp_all add: signed_divide_int_def sgn_if)

lemma smod_nonneg: "0 \<le> (a::int) \<Longrightarrow> 0 < b \<Longrightarrow> a smod b = a mod b"
  by (cases "a = 0") (simp_all add: signed_modulo_int_def sdiv_nonneg minus_div_mult_eq_mod)

definition range_start :: "int \<Rightarrow> int \<Rightarrow> int \<Rightarrow> int" where
  "range_start i m tot = i * (tot div m) + min i (tot mod m)"

lemma range_start_Suc:
  "range_start (i + 1) m tot = range_start i m tot + tot div m + (if i < tot mod m then 1 else 0)"
  by (simp add: range_start_def algebra_simps)

lemma range_start_ends: "0 < m \<Longrightarrow> 0 \<le> tot \<Longrightarrow> range_start 0 m tot = 0 \<and> range_start m m tot = tot"
proof -
  assume "0 < m" "0 \<le> tot"
  then have "tot mod m < m" "0 \<le> tot mod m" by simp_all
  then show ?thesis by (simp add: range_start_def min_def mult.commute)
qed

lemma range_start_mono:
  assumes "0 < m" "0 \<le> tot" "i \<le> j"
  shows "range_start i m tot \<le> range_start j m tot"
proof -
  have "0 \<le> tot div m" using assms by (simp add: pos_imp_zdiv_nonneg_iff)
  then have "i * (tot div m) \<le> j * (tot div m)" using assms(3) by (rule mult_right_mono [OF _ , rotated])
  moreover have "min i (tot mod m) \<le> min j (tot mod m)" using assms(3) by simp
  ultimately show ?thesis by (simp add: range_start_def)
qed

lemma partitionRange_interval:
  assumes "0 \<le> i" "i < m" "0 \<le> tot" "is_int32 m" "is_int32 tot"
  shows "partitionRange i m tot = Inr [range_start i m tot..range_start (i + 1) m tot - 1]"
proof -
  have m: "0 < m" using assms by simp
  let ?b = "tot div m" and ?e = "tot mod m"
  have b: "0 \<le> ?b" "?b \<le> tot"
    using assms(3) m zdiv_mono2 [of tot 1 m] by (simp_all add: pos_imp_zdiv_nonneg_iff)
  have e: "0 \<le> ?e" "?e < m" using m by simp_all
  have s: "0 \<le> range_start i m tot" "range_start i m tot \<le> range_start (i + 1) m tot"
    "range_start (i + 1) m tot \<le> tot"
    using range_start_mono [OF m assms(3), of 0 i] range_start_mono [OF m assms(3), of i "i + 1"]
      range_start_mono [OF m assms(3), of "i + 1" m] range_start_ends [OF m assms(3)] assms(1,2) by simp_all
  have ib: "0 \<le> i * ?b" "i * ?b \<le> range_start i m tot" using assms(1) b e by (simp_all add: range_start_def)
  have small: "int32 x = x" if "0 \<le> x" "x \<le> tot" for x
    using that assms(5) by (intro int32_id) (simp add: is_int32_def)
  have i32: "int32 ?e = ?e" using e assms(4) by (intro int32_id) (simp add: is_int32_def)
  have mi: "min32 i ?e = min i ?e" by (simp add: min32_def min_def)
  have ib32: "int32 (i * ?b) = i * ?b" using ib s by (intro small) linarith+
  have start: "int32 (int32 (i * ?b) + min32 i ?e) = range_start i m tot"
    unfolding ib32 mi range_start_def [symmetric] using s by (intro small) linarith+
  have cnt: "(if i < ?e then int32 (?b + 1) else ?b) = range_start (i + 1) m tot - range_start i m tot"
    using s b by (auto simp: range_start_Suc intro!: small)
  let ?c = "nat (range_start (i + 1) m tot - range_start i m tot)"
  have el: "int32 (range_start i m tot + int32 (int k)) = range_start i m tot + int k" if "k < ?c" for k
    using that s by (simp add: small)
  have "map (\<lambda>k. int32 (range_start i m tot + int32 (int k))) [0..<?c]
      = map (\<lambda>k. range_start i m tot + int k) [0..<?c]"
    using el by (intro map_cong) simp_all
  also have "\<dots> = [range_start i m tot..range_start (i + 1) m tot - 1]"
    by (rule nth_equalityI) (use s in auto)
  finally show ?thesis
    using m s b assms(3) small [of ?b]
    by (simp add: partitionRange_def Let_def sdiv_nonneg smod_nonneg i32 start cnt)
qed

lemma upto_append: "a \<le> b \<Longrightarrow> b \<le> c \<Longrightarrow> [a..b - 1] @ [b..c - 1] = [a..c - (1::int)]"
  using upto_split1 [of a b "c - 1"] by (cases "b = c") auto

lemma ranges_concat:
  assumes "0 < m" "0 \<le> tot" "k \<le> nat m"
  shows "concat (map (\<lambda>i. [range_start (int i) m tot..range_start (int i + 1) m tot - 1]) [0..<k])
    = [0..range_start (int k) m tot - 1]"
  using assms(3)
proof (induction k)
  case 0
  then show ?case using range_start_ends [OF assms(1,2)] by simp
next
  case (Suc k)
  have "0 \<le> range_start (int k) m tot" "range_start (int k) m tot \<le> range_start (int k + 1) m tot"
    using range_start_mono [OF assms(1,2), of 0 "int k"] range_start_ends [OF assms(1,2)]
      range_start_mono [OF assms(1,2), of "int k" "int k + 1"] by simp_all
  then show ?case using Suc by (simp add: upto_append add.commute)
qed

section \<open>Backups\<close>

lemma selectBackups_loop_eq:
  "0 \<le> n \<Longrightarrow> int (length acc) \<le> n \<Longrightarrow>
    selectBackups_loop acc bs primary n = acc @ take (nat n - length acc) (filter (\<lambda>b. b \<noteq> primary) bs)"
proof (induction bs arbitrary: acc)
  case (Cons b bs)
  show ?case
  proof (cases "int (length acc) = n")
    case False
    then have "nat n - length acc = Suc (nat n - length (acc @ [b]))" using Cons.prems by simp
    then show ?thesis using Cons False by simp
  qed (use Cons.prems in auto)
qed simp

lemma selectBackups_all:
  assumes "distinct brokers" "primary \<in> set brokers"
  shows "selectBackups brokers primary (int (length brokers) - 1) = filter (\<lambda>b. b \<noteq> primary) brokers"
proof -
  have "length (filter (\<lambda>b. b \<noteq> primary) brokers) = length brokers - 1"
    using assms distinct_remove1_removeAll [OF assms(1), of primary] length_remove1 [of primary brokers]
    by (simp add: removeAll_filter_not_eq eq_commute)
  moreover have "0 < length brokers" using assms(2) by (auto simp: length_pos_if_in_set)
  ultimately show ?thesis
    by (simp add: selectBackups_def selectBackups_loop_eq nat_diff_distrib)
qed

section \<open>Groups and round robin\<close>

lemma upto_map_int: "0 \<le> m \<Longrightarrow> [0..m - 1] = map int [0..<nat m]"
  by (rule nth_equalityI) auto

lemma ranges_of_members:
  assumes "0 < m" "0 \<le> tot" "is_int32 m" "is_int32 tot"
  shows "collect (\<lambda>i. partitionRange (int i) m tot) [0..<nat m] =
    Inr (map (\<lambda>i. [range_start (int i) m tot..range_start (int i + 1) m tot - 1]) [0..<nat m])"
  using assms by (intro collect_Inr_map partitionRange_interval) auto

lemma range_length:
  assumes "0 < m" "0 \<le> tot"
  shows "int (length [range_start i m tot..range_start (i + 1) m tot - 1]) \<in> {tot div m, tot div m + 1}"
proof -
  have "0 \<le> tot div m" using assms by (simp add: pos_imp_zdiv_nonneg_iff)
  then show ?thesis by (simp add: range_start_Suc)
qed

lemma sortedKeys_props: "gomap_ok m \<Longrightarrow> distinct (sortedKeys m) \<and> set (sortedKeys m) = set (go_keys m)"
  by (simp add: sortedKeys_def gomap_ok_def)

section \<open>Properties\<close>

text \<open>
  The ranges given to the members of a group cover the partitions of the topic exactly: put one
  after the other they are 0 to N-1, so every partition has exactly one member, and no member has
  more than one partition more than another.
\<close>

lemma partitionRange_covers:
  assumes "0 < m" "0 \<le> tot" "is_int32 m" "is_int32 tot"
  shows "\<exists>rs. collect (\<lambda>i. partitionRange (int i) m tot) [0..<nat m] = Inr rs
    \<and> concat rs = [0..tot - 1] \<and> length rs = nat m
    \<and> (\<forall>r \<in> set rs. int (length r) \<in> {tot div m, tot div m + 1})"
  using ranges_of_members [OF assms] ranges_concat [OF assms(1,2) order_refl] range_start_ends [OF assms(1,2)]
    range_length [OF assms(1,2)] assms(1)
  by (intro exI [of _ "map (\<lambda>i. [range_start (int i) m tot..range_start (int i + 1) m tot - 1]) [0..<nat m]"])
     (auto simp del: length_upto)

lemma partitionRange_covers_witness:
  "\<exists>rs. collect (\<lambda>i. partitionRange (int i) 3 7) [0..<nat 3] = Inr rs
    \<and> concat rs = [0..7 - 1] \<and> length rs = nat 3
    \<and> (\<forall>r \<in> set rs. int (length r) \<in> {7 div 3, 7 div 3 + 1})"
  by (rule partitionRange_covers) (simp_all add: is_int32_def)

end
