(* ===== verification/Raft_FSM.thy ===== *)
theory Raft_FSM
  imports Json_Record
begin

text \<open>
  The replicated state of the coordinators, src/internal/raft/fsm.go and node.go: the commands that
  go through the Raft log as JSON, the finite-state machine that applies them to the map of
  partition assignments, its snapshots, and \<open>Node.Apply\<close>.  The Raft library itself is an argument
  of \<open>Node_Apply\<close>, which says what becomes of a submitted entry.
\<close>

text \<open>\<open>CmdType\<close> is a \<open>uint8\<close> counted by \<open>iota\<close>.\<close>

definition CmdAssign :: int where "CmdAssign = 0"
definition CmdUpdateLeader :: int where "CmdUpdateLeader = 1"
definition CmdUpdateISR :: int where "CmdUpdateISR = 2"

record command =
  cmdType :: int
  cmdTopic :: string
  cmdPartition :: int
  cmdPrimary :: string
  cmdBackups :: "string list"
  cmdEpoch :: int
  cmdISR :: "int list"

record partition_state =
  psPrimary :: string
  psBackups :: "string list"
  psEpoch :: int
  psISR :: "int list"

type_synonym partition_key = "string \<times> int"

record fsm =
  fsmState :: "(partition_key, partition_state) gomap"

definition newFSM :: fsm where
  "newFSM = \<lparr>fsmState = []\<rparr>"

text \<open>The zero value a map lookup gives for a missing key.\<close>

definition zero_state :: partition_state where
  "zero_state = \<lparr>psPrimary = '''', psBackups = [], psEpoch = 0, psISR = []\<rparr>"

definition state_at :: "fsm \<Rightarrow> partition_key \<Rightarrow> partition_state" where
  "state_at f key = (case map_get (fsmState f) key of None \<Rightarrow> zero_state | Some ps \<Rightarrow> ps)"

subsection \<open>Commands as JSON\<close>

text \<open>A nil slice is written \<open>null\<close>; the reader also takes the empty array.\<close>

definition json_str :: "string \<Rightarrow> bytes" where
  "json_str s = quo # esc_string s @ [quo]"

definition parse_str :: "bytes \<Rightarrow> (string \<times> bytes) option" where
  "parse_str s = (case strip [quo] s of None \<Rightarrow> None | Some s' \<Rightarrow> parse_string s')"

fun json_elems :: "('a \<Rightarrow> bytes) \<Rightarrow> 'a list \<Rightarrow> bytes" where
  "json_elems enc [] = ''''"
| "json_elems enc [x] = enc x @ '']''"
| "json_elems enc (x # xs) = enc x @ CHR '','' # json_elems enc xs"

definition json_list :: "('a \<Rightarrow> bytes) \<Rightarrow> 'a list \<Rightarrow> bytes" where
  "json_list enc xs = (if xs = [] then ''null'' else CHR ''['' # json_elems enc xs)"

fun parse_elems :: "nat \<Rightarrow> (bytes \<Rightarrow> ('a \<times> bytes) option) \<Rightarrow> bytes \<Rightarrow> ('a list \<times> bytes) option" where
  "parse_elems 0 dec s = None"
| "parse_elems (Suc n) dec s = (case dec s of
      None \<Rightarrow> None
    | Some (x, s') \<Rightarrow> (case s' of
        [] \<Rightarrow> None
      | c # r \<Rightarrow> if c = CHR '']'' then Some ([x], r)
                 else if c = CHR '','' then map_option (\<lambda>(xs, r'). (x # xs, r')) (parse_elems n dec r)
                 else None))"

definition parse_list :: "(bytes \<Rightarrow> ('a \<times> bytes) option) \<Rightarrow> bytes \<Rightarrow> ('a list \<times> bytes) option" where
  "parse_list dec s = (case strip ''null'' s of
      Some r \<Rightarrow> Some ([], r)
    | None \<Rightarrow> (case strip ''[]'' s of
        Some r \<Rightarrow> Some ([], r)
      | None \<Rightarrow> (case strip ''['' s of None \<Rightarrow> None | Some r \<Rightarrow> parse_elems (length r) dec r)))"

definition Marshal_command :: "command \<Rightarrow> bytes" where
  "Marshal_command c =
     CHR ''{'' # json_field ''Type'' @ int_dec (cmdType c) @
     CHR '','' # json_field ''Topic'' @ json_str (cmdTopic c) @
     CHR '','' # json_field ''Partition'' @ int_dec (cmdPartition c) @
     CHR '','' # json_field ''Primary'' @ json_str (cmdPrimary c) @
     CHR '','' # json_field ''Backups'' @ json_list json_str (cmdBackups c) @
     CHR '','' # json_field ''Epoch'' @ int_dec (cmdEpoch c) @
     CHR '','' # json_field ''ISR'' @ json_list int_dec (cmdISR c) @ ''}''"

definition Unmarshal_command :: "bytes \<Rightarrow> command result" where
  "Unmarshal_command s0 =
     (case do {
        s \<leftarrow> strip (CHR ''{'' # json_field ''Type'') s0;
        (ty, s) \<leftarrow> parse_int s;
        s \<leftarrow> strip (CHR '','' # json_field ''Topic'') s;
        (t, s) \<leftarrow> parse_str s;
        s \<leftarrow> strip (CHR '','' # json_field ''Partition'') s;
        (p, s) \<leftarrow> parse_int s;
        s \<leftarrow> strip (CHR '','' # json_field ''Primary'') s;
        (pr, s) \<leftarrow> parse_str s;
        s \<leftarrow> strip (CHR '','' # json_field ''Backups'') s;
        (bs, s) \<leftarrow> parse_list parse_str s;
        s \<leftarrow> strip (CHR '','' # json_field ''Epoch'') s;
        (e, s) \<leftarrow> parse_int s;
        s \<leftarrow> strip (CHR '','' # json_field ''ISR'') s;
        (isr, s) \<leftarrow> parse_list parse_int s;
        if s = ''}'' \<and> 0 \<le> ty \<and> ty < 256 \<and> is_int32 p \<and> is_int64 e \<and> list_all is_int32 isr
        then Some \<lparr>cmdType = ty, cmdTopic = t, cmdPartition = p, cmdPrimary = pr, cmdBackups = bs,
                   cmdEpoch = e, cmdISR = isr\<rparr>
        else None }
      of None \<Rightarrow> Inl UnmarshalError | Some c \<Rightarrow> Inr c)"

definition command_ok :: "command \<Rightarrow> bool" where
  "command_ok c \<longleftrightarrow> 0 \<le> cmdType c \<and> cmdType c < 256 \<and> utf8_valid (cmdTopic c) \<and> is_int32 (cmdPartition c)
     \<and> utf8_valid (cmdPrimary c) \<and> list_all utf8_valid (cmdBackups c) \<and> is_int64 (cmdEpoch c)
     \<and> list_all is_int32 (cmdISR c)"

subsection \<open>The state machine\<close>

text \<open>The \<open>switch\<close> of \<open>Apply\<close>, on the decoded command.\<close>

definition FSM_applyCommand :: "fsm \<Rightarrow> command \<Rightarrow> fsm" where
  "FSM_applyCommand f cmd =
     (let key = (cmdTopic cmd, cmdPartition cmd); existing = state_at f key
      in if cmdType cmd = CmdAssign then
           f\<lparr>fsmState := map_put key \<lparr>psPrimary = cmdPrimary cmd, psBackups = cmdBackups cmd,
                psEpoch = cmdEpoch cmd, psISR = []\<rparr> (fsmState f)\<rparr>
         else if cmdType cmd = CmdUpdateLeader then
           f\<lparr>fsmState := map_put key (existing\<lparr>psPrimary := cmdPrimary cmd, psBackups := cmdBackups cmd,
                psEpoch := cmdEpoch cmd\<rparr>) (fsmState f)\<rparr>
         else if cmdType cmd = CmdUpdateISR then
           (if cmdEpoch cmd \<ge> psEpoch existing
            then f\<lparr>fsmState := map_put key (existing\<lparr>psISR := cmdISR cmd\<rparr>) (fsmState f)\<rparr> else f)
         else f)"

definition FSM_Apply :: "fsm \<Rightarrow> bytes \<Rightarrow> fsm \<times> go_error option" where
  "FSM_Apply f data = (case Unmarshal_command data of
      Inl e \<Rightarrow> (f, Some e)
    | Inr cmd \<Rightarrow> (FSM_applyCommand f cmd, None))"

definition FSM_Snapshot :: "fsm \<Rightarrow> (partition_key, partition_state) gomap" where
  "FSM_Snapshot f = fold (\<lambda>(k, v) copy. map_put k v copy) (fsmState f) []"

text \<open>
  The kinds of Go types \<open>encoding/json\<close> distinguishes for a map key, and the rule of its map
  encoder, which holds for every value of the map type, the empty one included.
\<close>

datatype key_kind = StringKey | IntKey | TextMarshalerKey | StructKey

fun json_map_key_ok :: "key_kind \<Rightarrow> bool" where
  "json_map_key_ok StringKey = True"
| "json_map_key_ok IntKey = True"
| "json_map_key_ok TextMarshalerKey = True"
| "json_map_key_ok StructKey = False"

definition json_encode_map :: "key_kind \<Rightarrow> ('m \<Rightarrow> bytes) \<Rightarrow> 'm \<Rightarrow> bytes result" where
  "json_encode_map kind enc m = (if json_map_key_ok kind then Inr (enc m) else Inl UnsupportedType)"

text \<open>\<open>partitionKey\<close> is a struct without \<open>MarshalText\<close>.  \<open>closed\<close> is what closing the sink gives.\<close>

definition Persist :: "((partition_key, partition_state) gomap \<Rightarrow> bytes) \<Rightarrow> unit result \<Rightarrow>
    (partition_key, partition_state) gomap \<Rightarrow> unit result" where
  "Persist enc closed m = (case json_encode_map StructKey enc m of Inl e \<Rightarrow> Inl e | Inr bs \<Rightarrow> closed)"

text \<open>
  Decoding into the same map type takes only \<open>null\<close>, which leaves the map nil; any other document is
  a type error or a syntax error.
\<close>

datatype json_doc = JsonNull | JsonObject | JsonMalformed

definition Restore :: "fsm \<Rightarrow> json_doc \<Rightarrow> fsm \<times> unit result" where
  "Restore f doc = (case doc of
      JsonNull \<Rightarrow> (f\<lparr>fsmState := []\<rparr>, Inr ())
    | _ \<Rightarrow> (f, Inl UnmarshalError))"

definition FSM_Get :: "fsm \<Rightarrow> string \<Rightarrow> int \<Rightarrow> partition_state option" where
  "FSM_Get f topic i = map_get (fsmState f) (topic, i)"

definition GetTopic :: "fsm \<Rightarrow> string \<Rightarrow> (int, partition_state) gomap \<times> bool" where
  "GetTopic f topic =
     (let out = fold (\<lambda>((t, i), v) out. if t = topic then map_put i v out else out) (fsmState f) []
      in (out, out \<noteq> []))"

definition AllTopics :: "fsm \<Rightarrow> string list" where
  "AllTopics f = remdups (map (\<lambda>((t, i), v). t) (fsmState f))"

subsection \<open>The node\<close>

text \<open>
  What the Raft library does with an entry: it commits it and the state machine applies it, it
  refuses it, or it reports an error although the entry is committed and applied (a timeout).
\<close>

datatype raft_outcome = Committed | Refused go_error | CommittedLate go_error

definition Node_Apply :: "(bytes \<Rightarrow> raft_outcome) \<Rightarrow> fsm \<Rightarrow> command \<Rightarrow> fsm \<times> unit result" where
  "Node_Apply raft f cmd =
     (let data = Marshal_command cmd
      in case raft data of
           Refused e \<Rightarrow> (f, Inl e)
         | CommittedLate e \<Rightarrow> (fst (FSM_Apply f data), Inl e)
         | Committed \<Rightarrow> (case FSM_Apply f data of (f', Some e) \<Rightarrow> (f', Inl e) | (f', None) \<Rightarrow> (f', Inr ())))"

section \<open>Encoders with their decoders\<close>

locale json_codec =
  fixes enc :: "'a \<Rightarrow> bytes" and dec :: "bytes \<Rightarrow> ('a \<times> bytes) option" and ok :: "'a \<Rightarrow> bool"
  assumes dec_enc: "ok x \<Longrightarrow> no_digit_ahead rest \<Longrightarrow> dec (enc x @ rest) = Some (x, rest)"
begin

lemma parse_json_elems:
  "list_all ok xs \<Longrightarrow> xs \<noteq> [] \<Longrightarrow> length xs \<le> n \<Longrightarrow>
    parse_elems n dec (json_elems enc xs @ rest) = Some (xs, rest)"
proof (induction xs arbitrary: n rule: induct_list012)
  case (2 x)
  then obtain n' where "n = Suc n'" by (cases n) auto
  moreover have "no_digit_ahead (CHR '']'' # rest)" by (simp add: no_digit_ahead_def is_digit_def digit_val_def)
  ultimately show ?case using 2 dec_enc [of x "CHR '']'' # rest"] by simp
next
  case (3 x y ys)
  then obtain n' where n: "n = Suc n'" by (cases n) auto
  have "dec (enc x @ CHR '','' # json_elems enc (y # ys) @ rest) = Some (x, CHR '','' # json_elems enc (y # ys) @ rest)"
    using 3 by (intro dec_enc) auto
  then show ?case using 3 n by simp
qed simp

end

lemma parse_str_json_str: "utf8_valid s \<Longrightarrow> parse_str (json_str s @ rest) = Some (s, rest)"
  using strip_append [of "[quo]" "esc_string s @ quo # rest"]
  by (simp add: parse_str_def json_str_def parse_esc_string)

interpretation jstr: json_codec json_str parse_str utf8_valid
  by unfold_locales (rule parse_str_json_str)

interpretation jint: json_codec int_dec parse_int "\<lambda>_. True"
  by unfold_locales (rule parse_int_int_dec)

context json_codec
begin

lemma length_json_elems: "xs \<noteq> [] \<Longrightarrow> length xs \<le> length (json_elems enc xs)"
  by (induction xs rule: induct_list012) auto

lemma parse_json_list:
  assumes "list_all ok xs" "\<And>x s. ok x \<Longrightarrow> strip ''[]'' (CHR ''['' # enc x @ s) = None"
  shows "parse_list dec (json_list enc xs @ rest) = Some (xs, rest)"
proof (cases xs)
  case Nil
  then show ?thesis using strip_append [of "''null''" rest] by (simp add: parse_list_def json_list_def del: append.simps)
next
  case (Cons x ys)
  have n: "strip ''null'' (CHR ''['' # s) = None" "strip ''['' (CHR ''['' # s) = Some s" for s
    by (simp_all add: strip_def)
  have e: "\<exists>s. json_elems enc xs = enc x @ s" using Cons by (cases ys) auto
  then have "strip ''[]'' (CHR ''['' # json_elems enc xs @ rest) = None" using assms Cons by auto
  moreover have "parse_elems (length (json_elems enc xs @ rest)) dec (json_elems enc xs @ rest) = Some (xs, rest)"
    using assms(1) Cons length_json_elems [of xs] by (intro parse_json_elems) auto
  ultimately show ?thesis using Cons by (simp add: parse_list_def json_list_def n)
qed

end

lemma json_str_no_bracket: "strip ''[]'' (CHR ''['' # json_str x @ s) = None"
  by (simp add: strip_def json_str_def)

lemma int_dec_no_bracket: "strip ''[]'' (CHR ''['' # int_dec x @ s) = None"
proof -
  obtain c r where c: "int_dec x = c # r" by (cases "int_dec x") (auto simp: int_dec_def split: if_splits)
  have "c = CHR ''-'' \<or> is_digit c"
    using c nat_dec_digits [of c "nat x"] by (auto simp: int_dec_def split: if_splits)
  moreover have "\<not> is_digit (CHR '']'')" by code_simp
  ultimately have "c \<noteq> CHR '']''" by auto
  then show ?thesis by (simp add: strip_def c)
qed

lemma Unmarshal_Marshal_command:
  assumes "command_ok c"
  shows "Unmarshal_command (Marshal_command c) = Inr c"
proof -
  note lists = jstr.parse_json_list [OF _ json_str_no_bracket] jint.parse_json_list [OF _ int_dec_no_bracket]
  have "list_all (\<lambda>_. True) (cmdISR c)" by (simp add: list_all_iff)
  then show ?thesis
    using assms
    by (simp add: Unmarshal_command_def Marshal_command_def command_ok_def strip_field parse_int_int_dec
        parse_str_json_str lists del: parse_string.simps)
qed

section \<open>Lookups\<close>

lemma topic_fold_get:
  "gomap_ok st \<Longrightarrow>
    map_get (fold (\<lambda>((t, i), v) out. if t = topic then map_put i v out else out) st acc) i =
      (case map_get st (topic, i) of Some v \<Rightarrow> Some v | None \<Rightarrow> map_get acc i)"
proof (induction st arbitrary: acc)
  case (Cons e st)
  obtain t j v where e: "e = ((t, j), v)" by (metis prod.collapse)
  have "map_get st (t, j) = None" "gomap_ok st"
    using Cons.prems e by (auto simp: gomap_ok_def map_of_eq_None_iff)
  then show ?case using Cons.IH e by (auto simp: go_map split: option.splits)
qed simp

lemma topic_fold_ok:
  "gomap_ok acc \<Longrightarrow> gomap_ok (fold (\<lambda>((t, i), v) out. if t = topic then map_put i v out else out) st acc)"
  by (induction st arbitrary: acc) auto

lemma GetTopic_get: "gomap_ok (fsmState f) \<Longrightarrow> map_get (fst (GetTopic f t)) i = FSM_Get f t i"
  by (simp add: GetTopic_def Let_def FSM_Get_def topic_fold_get split: option.splits)

lemma GetTopic_ok: "gomap_ok (fst (GetTopic f t))"
  by (simp add: GetTopic_def Let_def topic_fold_ok)

lemma gomap_nonempty: "m \<noteq> [] \<longleftrightarrow> (\<exists>k v. map_get m k = Some v)"
  by (cases m) auto

lemma GetTopic_found: "gomap_ok (fsmState f) \<Longrightarrow> snd (GetTopic f t) \<longleftrightarrow> (\<exists>i ps. FSM_Get f t i = Some ps)"
  using GetTopic_get [of f t] gomap_nonempty [of "fst (GetTopic f t)"] by (simp add: GetTopic_def Let_def)

lemma AllTopics_iff: "t \<in> set (AllTopics f) \<longleftrightarrow> (\<exists>i ps. FSM_Get f t i = Some ps)"
proof -
  have "t \<in> set (AllTopics f) \<longleftrightarrow> (\<exists>i. (t, i) \<in> fst ` set (fsmState f))" by (force simp: AllTopics_def)
  also have "\<dots> \<longleftrightarrow> (\<exists>i ps. FSM_Get f t i = Some ps)"
    using map_of_eq_None_iff [of "fsmState f"] by (metis FSM_Get_def not_None_eq)
  finally show ?thesis .
qed

lemma FSM_Get_apply:
  "FSM_Get (FSM_applyCommand f cmd) t i =
    (if (t, i) \<noteq> (cmdTopic cmd, cmdPartition cmd) then FSM_Get f t i
     else if cmdType cmd = CmdAssign then
       Some \<lparr>psPrimary = cmdPrimary cmd, psBackups = cmdBackups cmd, psEpoch = cmdEpoch cmd, psISR = []\<rparr>
     else if cmdType cmd = CmdUpdateLeader then
       Some ((state_at f (t, i))\<lparr>psPrimary := cmdPrimary cmd, psBackups := cmdBackups cmd, psEpoch := cmdEpoch cmd\<rparr>)
     else if cmdType cmd = CmdUpdateISR \<and> psEpoch (state_at f (t, i)) \<le> cmdEpoch cmd then
       Some ((state_at f (t, i))\<lparr>psISR := cmdISR cmd\<rparr>)
     else FSM_Get f t i)"
  by (auto simp: FSM_applyCommand_def FSM_Get_def Let_def go_map)

lemma FSM_apply_ok: "gomap_ok (fsmState f) \<Longrightarrow> gomap_ok (fsmState (FSM_applyCommand f cmd))"
  by (simp add: FSM_applyCommand_def Let_def)

lemma Node_Apply_cases:
  assumes "command_ok cmd"
  shows "Node_Apply raft f cmd = (case raft (Marshal_command cmd) of
      Refused e \<Rightarrow> (f, Inl e)
    | CommittedLate e \<Rightarrow> (FSM_applyCommand f cmd, Inl e)
    | Committed \<Rightarrow> (FSM_applyCommand f cmd, Inr ()))"
  using assms by (simp add: Node_Apply_def FSM_Apply_def Unmarshal_Marshal_command Let_def split: raft_outcome.split)

lemma Node_Apply_ok:
  assumes "command_ok cmd" "Node_Apply raft f cmd = (f', Inr ())"
  shows "f' = FSM_applyCommand f cmd"
  using assms by (simp add: Node_Apply_cases split: raft_outcome.splits)

section \<open>Properties\<close>

text \<open>
  C28: A command submitted through \<open>Node.Apply\<close> survives its JSON encoding and, once the entry is
  committed, changes exactly the assignment of its own partition: an assignment replaces it, a
  change of leader keeps the ISR, an ISR update takes effect unless its epoch is older than the
  assignment's.  A refused entry changes nothing.
\<close>

theorem Node_Apply_exact:
  assumes "command_ok cmd"
  shows "(case raft (Marshal_command cmd) of
      Refused e \<Rightarrow> Node_Apply raft f cmd = (f, Inl e)
    | CommittedLate e \<Rightarrow> snd (Node_Apply raft f cmd) = Inl e
    | Committed \<Rightarrow> snd (Node_Apply raft f cmd) = Inr ())
    \<and> ((\<nexists>e. raft (Marshal_command cmd) = Refused e) \<longrightarrow>
      FSM_Get (fst (Node_Apply raft f cmd)) t i =
      (if (t, i) \<noteq> (cmdTopic cmd, cmdPartition cmd) then FSM_Get f t i
       else if cmdType cmd = CmdAssign then
         Some \<lparr>psPrimary = cmdPrimary cmd, psBackups = cmdBackups cmd, psEpoch = cmdEpoch cmd, psISR = []\<rparr>
       else if cmdType cmd = CmdUpdateLeader then
         Some ((state_at f (t, i))\<lparr>psPrimary := cmdPrimary cmd, psBackups := cmdBackups cmd, psEpoch := cmdEpoch cmd\<rparr>)
       else if cmdType cmd = CmdUpdateISR \<and> psEpoch (state_at f (t, i)) \<le> cmdEpoch cmd then
         Some ((state_at f (t, i))\<lparr>psISR := cmdISR cmd\<rparr>)
       else FSM_Get f t i))"
  unfolding Node_Apply_cases [OF assms] by (auto simp only: FSM_Get_apply fst_conv snd_conv split: raft_outcome.splits)

definition demo_command :: command where
  "demo_command = \<lparr>cmdType = CmdAssign, cmdTopic = ''t'', cmdPartition = 0, cmdPrimary = ''a:1'',
     cmdBackups = [''b:1''], cmdEpoch = 1, cmdISR = []\<rparr>"

theorem Node_Apply_exact_witness:
  "snd (Node_Apply (\<lambda>_. Committed) newFSM demo_command) = Inr ()
    \<and> FSM_Get (fst (Node_Apply (\<lambda>_. Committed) newFSM demo_command)) ''t'' 0 =
        Some \<lparr>psPrimary = ''a:1'', psBackups = [''b:1''], psEpoch = 1, psISR = []\<rparr>"
proof -
  have "command_ok demo_command" by code_simp
  from Node_Apply_exact [OF this, of "\<lambda>_. Committed" newFSM "''t''" 0] show ?thesis
    by (simp add: demo_command_def)
qed

text \<open>
  The lookups agree with the state: \<open>GetTopic\<close> returns exactly the partitions of the topic,
  reports whether there are any, and \<open>AllTopics\<close> lists each topic that has a partition, once.
\<close>

lemma GetTopic_AllTopics_exact:
  assumes "gomap_ok (fsmState f)"
  shows "map_get (fst (GetTopic f t)) i = FSM_Get f t i
    \<and> (snd (GetTopic f t) \<longleftrightarrow> (\<exists>j ps. FSM_Get f t j = Some ps))
    \<and> (t \<in> set (AllTopics f) \<longleftrightarrow> (\<exists>j ps. FSM_Get f t j = Some ps))
    \<and> distinct (AllTopics f) \<and> distinct (map fst (fst (GetTopic f t)))"
  using GetTopic_get [OF assms] GetTopic_found [OF assms] AllTopics_iff GetTopic_ok [of f t]
  by (simp add: AllTopics_def gomap_ok_def)

lemma GetTopic_AllTopics_exact_witness:
  "map_get (fst (GetTopic (FSM_applyCommand newFSM demo_command) ''t'')) 0
     = FSM_Get (FSM_applyCommand newFSM demo_command) ''t'' 0"
proof -
  have "gomap_ok (fsmState (FSM_applyCommand newFSM demo_command))" by code_simp
  from GetTopic_AllTopics_exact [OF this, of "''t''" 0] show ?thesis by blast
qed

text \<open>
  No snapshot of the state machine is ever written: the keys of the map are structs, which the
  JSON encoder refuses whatever the map holds, so \<open>Persist\<close> always fails and the Raft log is never
  truncated.
\<close>

lemma snapshot_never_persists:
  "Persist enc closed (FSM_Snapshot f) = Inl UnsupportedType"
  by (simp add: Persist_def json_encode_map_def)

end
