(* ===== verification/Broker.thy ===== *)
theory Broker
  imports Partition
begin

text \<open>
  The broker, src/internal/broker/broker.go: the map from topic and partition index to the
  partitions it owns, the gRPC handlers, the connections to peers and to the coordinator, and the
  restoration of the map from the data directory.  A handler takes the broker and the request and
  returns the changed broker and its response or status.  A gRPC client is the address it was dialled
  with; what the network does (whether \<open>grpc.NewClient\<close> succeeds, whether a remote call returns an
  error) and what the operating system returns for a directory are arguments.  Calls to the
  coordinator are returned as a list of \<open>coord_call\<close>.
\<close>

record broker =
  bTopics :: "(string, (int, partition) gomap) gomap"
  bDataDir :: string
  bId :: int
  bSelfAddr :: string
  bPeerClients :: "(int, string) gomap"
  bPeerConns :: "(int, string) gomap"
  bPeerAddrs :: "(int, string) gomap"
  bCoordClient :: "string option"
  bCoordConn :: "string option"
  bCoordPeers :: "string list"
  bIsrTimeout :: int
  bIsrTick :: int

record create_topic_request =
  ctTopic :: string
  ctPartitions :: int
  ctReplicationFactor :: int

record init_partitions_request =
  ipTopic :: string
  ipPartitions :: "int list"

record produce_request =
  prTopic :: string
  prPartition :: int
  prKey :: bytes
  prValue :: bytes

record fetch_request =
  feTopic :: string
  fePartition :: int
  feStartOffset :: int

datatype proto_role = LEADER | FOLLOWER | UnknownRole int

record assign_role_request =
  arTopic :: string
  arPartition :: int
  arRole :: proto_role
  arLeaderId :: int
  arLeaderAddr :: string
  arEpoch :: int
  arIsrIds :: "int list"

record partition_leo =
  plTopic :: string
  plPartition :: int
  plLogEndOffset :: int

record heartbeat_request =
  hbBrokerId :: int
  hbBrokerAddr :: string
  hbPartitionLeos :: "partition_leo list"

datatype coord_call =
    CallHeartbeat string heartbeat_request
  | CallRegisterBroker string string int
  | CallAlterIsr string string int int "int list"
  | CallReportLeaderUnreachable string string string int

definition New :: "int \<Rightarrow> broker" where
  "New i = \<lparr>bTopics = [], bDataDir = '''', bId = i, bSelfAddr = '''', bPeerClients = [],
     bPeerConns = [], bPeerAddrs = [], bCoordClient = None, bCoordConn = None, bCoordPeers = [],
     bIsrTimeout = 0, bIsrTick = 0\<rparr>"

subsection \<open>Restoring the topics from the data directory\<close>

text \<open>
  A directory listing as \<open>os.ReadDir\<close> returns it: plain files, and directories with what reading
  them, or opening the segment in them, gives.
\<close>

datatype part_entry = PartFile string | PartDir string "bytes result"
datatype topic_entry = TopicFile string | TopicDir string "part_entry list result"

definition Atoi :: "string \<Rightarrow> int option" where
  "Atoi s =
     (let neg = (s \<noteq> [] \<and> hd s = CHR ''-'');
          ds = (if s \<noteq> [] \<and> (hd s = CHR ''-'' \<or> hd s = CHR ''+'') then tl s else s)
      in if ds = [] \<or> \<not> list_all is_digit ds then None
         else let v = (if neg then - int (dec_val ds) else int (dec_val ds))
              in if is_int64 v then Some v else None)"

fun numeric_parts :: "part_entry list \<Rightarrow> (int \<times> bytes result) list" where
  "numeric_parts [] = []"
| "numeric_parts (PartFile n # es) = numeric_parts es"
| "numeric_parts (PartDir n d # es) =
     (case Atoi n of None \<Rightarrow> numeric_parts es | Some idx \<Rightarrow> (idx, d) # numeric_parts es)"

fun restore_parts :: "broker \<Rightarrow> string \<Rightarrow> (int, partition) gomap \<Rightarrow> (int \<times> bytes result) list \<Rightarrow>
    (int, partition) gomap result" where
  "restore_parts b topic partitions [] = Inr partitions"
| "restore_parts b topic partitions ((idx, d) # ps) =
     (case NewFileLog d of
        Inl e \<Rightarrow> Inl e
      | Inr fl \<Rightarrow> restore_parts b topic
          (map_put (int32 idx) (newPartition topic (int32 idx) (File fl) (bIsrTimeout b) (bIsrTick b)) partitions) ps)"

fun restore_topics :: "broker \<Rightarrow> topic_entry list \<Rightarrow> broker result" where
  "restore_topics b [] = Inr b"
| "restore_topics b (TopicFile n # es) = restore_topics b es"
| "restore_topics b (TopicDir topic d # es) =
     (case d of
        Inl e \<Rightarrow> Inl e
      | Inr partEntries \<Rightarrow>
          let parts = numeric_parts partEntries
          in if parts = [] then restore_topics b es
             else case restore_parts b topic [] (sort_key fst parts) of
                    Inl e \<Rightarrow> Inl e
                  | Inr partitions \<Rightarrow> restore_topics (b\<lparr>bTopics := map_put topic partitions (bTopics b)\<rparr>) es)"

text \<open>\<open>None\<close> is a data directory that does not exist yet.\<close>

definition restore :: "broker \<Rightarrow> topic_entry list option result \<Rightarrow> broker result" where
  "restore b listing = (case listing of
      Inl e \<Rightarrow> Inl e
    | Inr None \<Rightarrow> Inr b
    | Inr (Some topicEntries) \<Rightarrow> restore_topics b topicEntries)"

definition NewWithDataDir :: "int \<Rightarrow> string \<Rightarrow> topic_entry list option result \<Rightarrow> broker result" where
  "NewWithDataDir i dataDir listing = restore ((New i)\<lparr>bDataDir := dataDir\<rparr>) listing"

subsection \<open>Settings and connections\<close>

definition SetCoordinatorPeers :: "broker \<Rightarrow> string list \<Rightarrow> broker" where
  "SetCoordinatorPeers b peers = b\<lparr>bCoordPeers := peers\<rparr>"

definition SetSelfAddr :: "broker \<Rightarrow> string \<Rightarrow> broker" where
  "SetSelfAddr b addr = b\<lparr>bSelfAddr := addr\<rparr>"

definition SetISRTimeout :: "broker \<Rightarrow> int \<Rightarrow> int \<Rightarrow> broker" where
  "SetISRTimeout b timeout tick = b\<lparr>bIsrTimeout := timeout, bIsrTick := tick\<rparr>"

definition ConnectCoordinator :: "(string \<Rightarrow> bool) \<Rightarrow> broker \<Rightarrow> string \<Rightarrow> broker \<times> unit result" where
  "ConnectCoordinator dial b addr =
     (if \<not> dial addr then (b, Inl (OtherError ''dial coordinator''))
      else (b\<lparr>bCoordConn := Some addr, bCoordClient := Some addr\<rparr>, Inr ()))"

definition coordClientSafe :: "broker \<Rightarrow> string option" where
  "coordClientSafe b = bCoordClient b"

definition ConnectToPeer :: "(string \<Rightarrow> bool) \<Rightarrow> broker \<Rightarrow> int \<Rightarrow> string \<Rightarrow> broker \<times> unit result" where
  "ConnectToPeer dial b peerID addr =
     (if map_get (bPeerClients b) peerID \<noteq> None then (b, Inr ())
      else if \<not> dial addr then (b, Inl (OtherError ''failed to dial peer''))
      else (b\<lparr>bPeerConns := map_put peerID addr (bPeerConns b),
              bPeerClients := map_put peerID addr (bPeerClients b),
              bPeerAddrs := map_put peerID addr (bPeerAddrs b)\<rparr>, Inr ()))"

subsection \<open>Topics and partitions\<close>

text \<open>\<open>disk topic i\<close> is what opening the segment of that partition under the data directory gives.\<close>

definition open_log :: "(string \<Rightarrow> int \<Rightarrow> bytes result) \<Rightarrow> broker \<Rightarrow> string \<Rightarrow> int \<Rightarrow> log_impl result" where
  "open_log disk b topic i =
     (if bDataDir b \<noteq> ''''
      then case NewFileLog (disk topic i) of Inl e \<Rightarrow> Inl (Status Internal) | Inr fl \<Rightarrow> Inr (File fl)
      else Inr (Mem MemLog_new))"

definition open_partition :: "(string \<Rightarrow> int \<Rightarrow> bytes result) \<Rightarrow> broker \<Rightarrow> string \<Rightarrow> int \<Rightarrow> partition result" where
  "open_partition disk b topic i = (case open_log disk b topic i of
      Inl e \<Rightarrow> Inl e
    | Inr l \<Rightarrow> Inr (newPartition topic i l (bIsrTimeout b) (bIsrTick b)))"

definition CreateTopic :: "(string \<Rightarrow> int \<Rightarrow> bytes result) \<Rightarrow> broker \<Rightarrow> create_topic_request \<Rightarrow> broker \<times> unit result" where
  "CreateTopic disk b req =
     (if ctTopic req = '''' then (b, Inl (Status InvalidArgument))
      else if ctPartitions req \<le> 0 then (b, Inl (Status InvalidArgument))
      else if map_get (bTopics b) (ctTopic req) \<noteq> None then (b, Inl (Status AlreadyExists))
      else case collect (\<lambda>i. map_sum id (Pair i) (open_partition disk b (ctTopic req) i)) [0..ctPartitions req - 1] of
             Inl e \<Rightarrow> (b, Inl e)
           | Inr parts \<Rightarrow> (b\<lparr>bTopics := map_put (ctTopic req) parts (bTopics b)\<rparr>, Inr ()))"

fun init_loop :: "(string \<Rightarrow> int \<Rightarrow> bytes result) \<Rightarrow> broker \<Rightarrow> string \<Rightarrow> int list \<Rightarrow> broker \<times> unit result" where
  "init_loop disk b topic [] = (b, Inr ())"
| "init_loop disk b topic (pid # pids) =
     (let parts = the (map_get (bTopics b) topic)
      in if map_get parts pid \<noteq> None then init_loop disk b topic pids
         else case open_partition disk b topic pid of
                Inl e \<Rightarrow> (b, Inl e)
              | Inr p \<Rightarrow> init_loop disk
                  (b\<lparr>bTopics := map_put topic (map_put pid p parts) (bTopics b)\<rparr>) topic pids)"

definition InitPartitions :: "(string \<Rightarrow> int \<Rightarrow> bytes result) \<Rightarrow> broker \<Rightarrow> init_partitions_request \<Rightarrow> broker \<times> unit result" where
  "InitPartitions disk b req =
     (if ipTopic req = '''' then (b, Inl (Status InvalidArgument))
      else let b1 = (if map_get (bTopics b) (ipTopic req) = None
                     then b\<lparr>bTopics := map_put (ipTopic req) [] (bTopics b)\<rparr> else b)
           in init_loop disk b1 (ipTopic req) (ipPartitions req))"

definition getPartition :: "broker \<Rightarrow> string \<Rightarrow> int \<Rightarrow> partition result" where
  "getPartition b topic i = (case map_get (bTopics b) topic of
      None \<Rightarrow> Inl (Status NotFound)
    | Some parts \<Rightarrow> (case map_get parts i of None \<Rightarrow> Inl (Status NotFound) | Some p \<Rightarrow> Inr p))"

text \<open>A method call on the partition a pointer in the map leads to.\<close>

definition setPartition :: "broker \<Rightarrow> string \<Rightarrow> int \<Rightarrow> partition \<Rightarrow> broker" where
  "setPartition b topic i p =
     b\<lparr>bTopics := map_put topic (map_put i p (the (map_get (bTopics b) topic))) (bTopics b)\<rparr>"

subsection \<open>Produce, Fetch and AssignRole\<close>

definition Produce :: "broker \<Rightarrow> produce_request \<Rightarrow> broker \<times> int result" where
  "Produce b req = (case getPartition b (prTopic req) (prPartition req) of
      Inl e \<Rightarrow> (b, Inl e)
    | Inr p \<Rightarrow>
       (let msg = \<lparr>msgTopic = prTopic req, msgPartition = prPartition req, msgKey = prKey req,
                   msgValue = prValue req, msgOffset = 0\<rparr>;
            (p', r) = Partition_Append p msg;
            b' = setPartition b (prTopic req) (prPartition req) p'
        in case r of
             Inl e \<Rightarrow> (b', Inl (Status (if e = ErrNotLeader then FailedPrecondition else Internal)))
           | Inr offset \<Rightarrow> (b', Inr offset)))"

text \<open>
  The state of a \<open>Fetch\<close> handler: its offset, what it has sent, and how it ended.  One turn of its
  loop reads a batch and sends it; \<open>sendFails\<close> is the index in the batch at which \<open>stream.Send\<close>
  returns an error, if it does.
\<close>

record fetch_conn =
  fcOffset :: int
  fcSent :: "message list"
  fcEnd :: "go_error option"

definition fetchBatch :: int where
  "fetchBatch = 64"

definition Fetch_open :: "broker \<Rightarrow> fetch_request \<Rightarrow> fetch_conn" where
  "Fetch_open b req =
     \<lparr>fcOffset = feStartOffset req, fcSent = [],
      fcEnd = (case getPartition b (feTopic req) (fePartition req) of Inl e \<Rightarrow> Some e | Inr p \<Rightarrow> None)\<rparr>"

fun Fetch_send :: "nat option \<Rightarrow> message list \<Rightarrow> fetch_conn \<Rightarrow> fetch_conn" where
  "Fetch_send sendFails [] c = c"
| "Fetch_send sendFails (msg # msgs) c =
     (if sendFails = Some 0 then c\<lparr>fcEnd := Some EndOfStream\<rparr>
      else Fetch_send (map_option (\<lambda>k. k - 1) sendFails) msgs
             (c\<lparr>fcOffset := fcOffset c + 1, fcSent := fcSent c @ [msg]\<rparr>))"

definition Fetch_turn :: "nat option \<Rightarrow> partition \<Rightarrow> fetch_conn \<Rightarrow> fetch_conn" where
  "Fetch_turn sendFails p c = (case Partition_Read p (fcOffset c) fetchBatch of
      Inl e \<Rightarrow> c\<lparr>fcEnd := Some (Status Internal)\<rparr>
    | Inr msgs \<Rightarrow> Fetch_send sendFails msgs c)"

lemma Fetch_send_all:
  "Fetch_send None msgs c = c\<lparr>fcOffset := fcOffset c + int (length msgs), fcSent := fcSent c @ msgs\<rparr>"
  by (induction msgs arbitrary: c) simp_all

lemma Partition_Read_length:
  assumes "Partition_Read p off n = Inr ms" "ms \<noteq> []"
  shows "0 \<le> off" "off + int (length ms) \<le> leo p"
proof -
  obtain ys where "log_Read (pLog p) off n = Inr ys" "length ms \<le> length ys"
    using assms by (auto simp: Partition_Read_def Let_def length_takeWhile_le split: if_splits sum.splits)
  then show "0 \<le> off" "off + int (length ms) \<le> leo p" using log_Read_length by fastforce+
qed

text \<open>The loop on a partition that does not change meanwhile, up to the point where it waits.\<close>

function Fetch_drain :: "partition \<Rightarrow> fetch_conn \<Rightarrow> fetch_conn" where
  "Fetch_drain p c = (case Partition_Read p (fcOffset c) fetchBatch of
      Inl e \<Rightarrow> c\<lparr>fcEnd := Some (Status Internal)\<rparr>
    | Inr msgs \<Rightarrow> if msgs = [] then c else Fetch_drain p (Fetch_send None msgs c))"
  by pat_completeness auto
termination
proof (relation "measure (\<lambda>(p, c). nat (leo p - fcOffset c))", goal_cases)
  case (2 p c msgs)
  then show ?case using Partition_Read_length [of p "fcOffset c" fetchBatch msgs]
    by (cases msgs) (auto simp: Fetch_send_all)
qed simp

declare Fetch_drain.simps [simp del]

definition AssignRole :: "(string \<Rightarrow> bool) \<Rightarrow> broker \<Rightarrow> assign_role_request \<Rightarrow> broker \<times> unit result" where
  "AssignRole dial b req = (case getPartition b (arTopic req) (arPartition req) of
      Inl e \<Rightarrow> (b, Inl e)
    | Inr p \<Rightarrow>
       (case arRole req of
          LEADER \<Rightarrow> (setPartition b (arTopic req) (arPartition req) (BecomeLeader p (arEpoch req) (arIsrIds req)), Inr ())
        | FOLLOWER \<Rightarrow>
           (case ConnectToPeer dial b (arLeaderId req) (arLeaderAddr req) of
              (b1, Inl e) \<Rightarrow> (b1, Inl (Status Internal))
            | (b1, Inr _) \<Rightarrow>
               (setPartition b1 (arTopic req) (arPartition req) (BecomeFollower p (arLeaderId req) (arEpoch req)), Inr ()))
        | UnknownRole n \<Rightarrow> (b, Inl (Status InvalidArgument))))"

definition Serve_addr :: "broker \<Rightarrow> string \<Rightarrow> broker" where
  "Serve_addr b addr = (if bSelfAddr b = '''' then b\<lparr>bSelfAddr := addr\<rparr> else b)"

subsection \<open>The coordinator\<close>

text \<open>\<open>call\<close> is the remote method of the client that was dialled at an address.\<close>

definition coordinatorProxy :: "(string \<Rightarrow> 'req \<Rightarrow> 'resp result) \<Rightarrow> broker \<Rightarrow> 'req \<Rightarrow> 'resp result" where
  "coordinatorProxy call b req = (case coordClientSafe b of
      None \<Rightarrow> Inl (Status Unavailable)
    | Some c \<Rightarrow> call c req)"

definition buildPartitionLEOs :: "broker \<Rightarrow> partition_leo list" where
  "buildPartitionLEOs b = concat (map (\<lambda>(topic, parts). map (\<lambda>(pid, p).
       \<lparr>plTopic = topic, plPartition = pid, plLogEndOffset = Partition_LogEndOffset p\<rparr>) parts) (bTopics b))"

definition heartbeat_of :: "broker \<Rightarrow> heartbeat_request" where
  "heartbeat_of b = \<lparr>hbBrokerId = bId b, hbBrokerAddr = bSelfAddr b, hbPartitionLeos = buildPartitionLEOs b\<rparr>"

fun reconnect_loop :: "(string \<Rightarrow> bool) \<Rightarrow> (string \<Rightarrow> heartbeat_request \<Rightarrow> bool) \<Rightarrow> heartbeat_request \<Rightarrow>
    string list \<Rightarrow> string option \<times> coord_call list" where
  "reconnect_loop dial hb req [] = (None, [])"
| "reconnect_loop dial hb req (peer # peers) =
     (if \<not> dial peer then reconnect_loop dial hb req peers
      else if \<not> hb peer req
        then (let (r, calls) = reconnect_loop dial hb req peers in (r, CallHeartbeat peer req # calls))
      else (Some peer, [CallHeartbeat peer req]))"

definition reconnectCoordinator ::
    "(string \<Rightarrow> bool) \<Rightarrow> (string \<Rightarrow> heartbeat_request \<Rightarrow> bool) \<Rightarrow> broker \<Rightarrow> broker \<times> coord_call list" where
  "reconnectCoordinator dial hb b =
     (case reconnect_loop dial hb (heartbeat_of b) (bCoordPeers b) of
        (None, calls) \<Rightarrow> (b, calls)
      | (Some peer, calls) \<Rightarrow>
         (b\<lparr>bCoordConn := Some peer, bCoordClient := Some peer\<rparr>,
          calls @ [CallRegisterBroker peer (bSelfAddr b) (bId b)]))"

definition sendHeartbeat ::
    "(string \<Rightarrow> bool) \<Rightarrow> (string \<Rightarrow> heartbeat_request \<Rightarrow> bool) \<Rightarrow> broker \<Rightarrow> broker \<times> coord_call list" where
  "sendHeartbeat dial hb b = (case coordClientSafe b of
      None \<Rightarrow> (b, [])
    | Some c \<Rightarrow>
       (let req = heartbeat_of b
        in if hb c req then (b, [CallHeartbeat c req])
           else let (b', calls) = reconnectCoordinator dial hb b in (b', CallHeartbeat c req # calls)))"

definition reportISRChange :: "broker \<Rightarrow> string \<Rightarrow> int \<Rightarrow> int list \<Rightarrow> int \<Rightarrow> coord_call list" where
  "reportISRChange b topic i isrIDs epoch = (case coordClientSafe b of
      None \<Rightarrow> []
    | Some c \<Rightarrow> [CallAlterIsr c topic i epoch isrIDs])"

definition reportLeaderUnreachable :: "broker \<Rightarrow> string \<Rightarrow> int \<Rightarrow> int \<Rightarrow> coord_call list" where
  "reportLeaderUnreachable b topic i leaderBrokerID = (case coordClientSafe b of
      None \<Rightarrow> []
    | Some c \<Rightarrow>
       (let leaderAddr = (case map_get (bPeerAddrs b) leaderBrokerID of None \<Rightarrow> '''' | Some a \<Rightarrow> a)
        in if leaderAddr = '''' then [] else [CallReportLeaderUnreachable c leaderAddr topic i]))"

definition Broker_Close :: "broker \<Rightarrow> broker" where
  "Broker_Close b =
     (let b1 = b\<lparr>bTopics := map (\<lambda>(t, parts). (t, map (\<lambda>(i, p). (i, Partition_Close p)) parts)) (bTopics b)\<rparr>
      in if bCoordConn b1 \<noteq> None then b1\<lparr>bCoordConn := None, bCoordClient := None\<rparr> else b1)"

subsection \<open>Invariant and runs\<close>

text \<open>The key of a partition in the map is its own topic and index, and its log is well formed.\<close>

definition parts_ok :: "string \<Rightarrow> (int, partition) gomap \<Rightarrow> bool" where
  "parts_ok t parts \<longleftrightarrow> gomap_ok parts \<and> list_all (\<lambda>(i, p). pTopic p = t \<and> pId p = i \<and> part_inv p) parts"

definition broker_inv :: "broker \<Rightarrow> bool" where
  "broker_inv b \<longleftrightarrow> gomap_ok (bTopics b) \<and> list_all (\<lambda>(t, parts). parts_ok t parts) (bTopics b)"

text \<open>What changes a partition between two handlers: fetches, ticks, evictions, replicated records.\<close>

datatype part_event =
    PFetch int int int
  | PTick int
  | PEvict int int int
  | PReceive replica_record
  | PClose

fun part_event_step :: "part_event \<Rightarrow> partition \<Rightarrow> partition" where
  "part_event_step (PFetch i off now) p = fst (updateReplicaState i off now p)"
| "part_event_step (PTick now) p = fst (monitorISR_tick now p)"
| "part_event_step (PEvict i grace now) p = fst (scheduleReplicaEviction i grace now p)"
| "part_event_step (PReceive rec) p = fst (replica_receive p rec)"
| "part_event_step PClose p = Partition_Close p"

datatype broker_op =
    RpcCreateTopic create_topic_request
  | RpcInitPartitions init_partitions_request
  | RpcProduce produce_request
  | RpcAssignRole assign_role_request
  | Background string int part_event

fun broker_step :: "(string \<Rightarrow> int \<Rightarrow> bytes result) \<Rightarrow> (string \<Rightarrow> bool) \<Rightarrow> broker \<Rightarrow> broker_op \<Rightarrow> broker" where
  "broker_step disk dial b (RpcCreateTopic req) = fst (CreateTopic disk b req)"
| "broker_step disk dial b (RpcInitPartitions req) = fst (InitPartitions disk b req)"
| "broker_step disk dial b (RpcProduce req) = fst (Produce b req)"
| "broker_step disk dial b (RpcAssignRole req) = fst (AssignRole dial b req)"
| "broker_step disk dial b (Background t i ev) = (case getPartition b t i of
      Inl e \<Rightarrow> b
    | Inr p \<Rightarrow> setPartition b t i (part_event_step ev p))"

fun broker_run :: "(string \<Rightarrow> int \<Rightarrow> bytes result) \<Rightarrow> (string \<Rightarrow> bool) \<Rightarrow> broker \<Rightarrow> broker_op list \<Rightarrow> broker" where
  "broker_run disk dial b [] = b"
| "broker_run disk dial b (op # ops) = broker_run disk dial (broker_step disk dial b op) ops"

text \<open>The messages that are stored fit the record format of the segment file.\<close>

definition produced_msg :: "produce_request \<Rightarrow> partition \<Rightarrow> message" where
  "produced_msg req p = \<lparr>msgTopic = prTopic req, msgPartition = prPartition req, msgKey = prKey req,
     msgValue = prValue req, msgOffset = log_Len (pLog p)\<rparr>"

fun broker_op_ok :: "broker \<Rightarrow> broker_op \<Rightarrow> bool" where
  "broker_op_ok b (RpcProduce req) = (case getPartition b (prTopic req) (prPartition req) of
      Inl e \<Rightarrow> True
    | Inr p \<Rightarrow> log_storable (pLog p) (produced_msg req p))"
| "broker_op_ok b (Background t i (PReceive rec)) = (case getPartition b t i of
      Inl e \<Rightarrow> True
    | Inr p \<Rightarrow> log_storable (pLog p) (rrMessage rec))"
| "broker_op_ok b op = True"

fun broker_ops_ok :: "(string \<Rightarrow> int \<Rightarrow> bytes result) \<Rightarrow> (string \<Rightarrow> bool) \<Rightarrow> broker \<Rightarrow> broker_op list \<Rightarrow> bool" where
  "broker_ops_ok disk dial b [] = True"
| "broker_ops_ok disk dial b (op # ops) =
     (broker_op_ok b op \<and> broker_ops_ok disk dial (broker_step disk dial b op) ops)"

definition disk_ok :: "(string \<Rightarrow> int \<Rightarrow> bytes result) \<Rightarrow> bool" where
  "disk_ok disk \<longleftrightarrow> (\<forall>t i fl. NewFileLog (disk t i) = Inr fl \<longrightarrow> file_invar fl)"

text \<open>A consumer's \<open>Fetch\<close> stream while the partition goes on as leader.\<close>

inductive fetch_step :: "partition \<times> fetch_conn \<Rightarrow> partition \<times> fetch_conn \<Rightarrow> bool" where
  leader: "leader_ops_ok p [op] \<Longrightarrow> fetch_step (p, c) (leader_step p op, c)"
| turn: "fcEnd c = None \<Longrightarrow> fetch_step (p, c) (p, Fetch_turn sendFails p c)"
| cancel: "fcEnd c = None \<Longrightarrow> fetch_step (p, c) (p, c\<lparr>fcEnd := Some ContextErr\<rparr>)"

definition fetch_inv :: "int \<Rightarrow> partition \<Rightarrow> fetch_conn \<Rightarrow> bool" where
  "fetch_inv start p c \<longleftrightarrow> committed_inv p \<and> pRole p = Leader
     \<and> fcOffset c = start + int (length (fcSent c))
     \<and> (fcSent c \<noteq> [] \<longrightarrow> 0 \<le> start \<and> fcOffset c \<le> pHw p
          \<and> take (length (fcSent c)) (drop (nat start) (p_msgs p)) = fcSent c)"

text \<open>The data directory a broker with file logs leaves behind.\<close>

fun log_segment :: "log_impl \<Rightarrow> bytes" where
  "log_segment (File fl) = segment fl"
| "log_segment (Mem l) = []"

definition data_dir_of :: "broker \<Rightarrow> topic_entry list" where
  "data_dir_of b = map (\<lambda>(t, parts). TopicDir t (Inr (map (\<lambda>(i, p).
     PartDir (int_dec i) (Inr (log_segment (pLog p)))) parts))) (bTopics b)"

definition on_disk :: "partition \<Rightarrow> bool" where
  "on_disk p \<longleftrightarrow> (case pLog p of File fl \<Rightarrow> file_invar fl | Mem l \<Rightarrow> False)"

definition all_on_disk :: "broker \<Rightarrow> bool" where
  "all_on_disk b \<longleftrightarrow> list_all (\<lambda>(t, parts). parts \<noteq> []
     \<and> list_all (\<lambda>(i, p). is_int32 i \<and> on_disk p) parts) (bTopics b)"

section \<open>The map of partitions\<close>

lemma getPartition_set:
  assumes "getPartition b t i = Inr p"
  shows "getPartition (setPartition b t i q) t' i' = (if t' = t \<and> i' = i then Inr q else getPartition b t' i')"
  using assms by (auto simp: getPartition_def setPartition_def go_map split: option.splits)

lemma broker_inv_get:
  assumes "broker_inv b" "getPartition b t i = Inr p"
  shows "part_inv p" "pTopic p = t" "pId p = i"
proof -
  obtain parts where parts: "map_get (bTopics b) t = Some parts" "map_get parts i = Some p"
    using assms(2) by (auto simp: getPartition_def split: option.splits)
  then have "parts_ok t parts" using assms(1) list_all_get by (fastforce simp: broker_inv_def)
  then show "part_inv p" "pTopic p = t" "pId p = i"
    using parts(2) list_all_get by (fastforce simp: parts_ok_def)+
qed

lemma broker_inv_set:
  assumes "broker_inv b" "getPartition b t i = Inr p" "part_inv q" "pTopic q = t" "pId q = i"
  shows "broker_inv (setPartition b t i q)"
proof -
  obtain parts where parts: "map_get (bTopics b) t = Some parts" "map_get parts i = Some p"
    using assms(2) by (auto simp: getPartition_def split: option.splits)
  then have "parts_ok t parts" using assms(1) list_all_get by (fastforce simp: broker_inv_def)
  then have "parts_ok t (map_put i q parts)" using assms(3-5) by (auto simp: parts_ok_def)
  then show ?thesis using assms(1) parts by (auto simp: broker_inv_def setPartition_def)
qed

lemma setPartition_self:
  assumes "getPartition b t i = Inr p"
  shows "getPartition (setPartition b t i p) t' i' = getPartition b t' i'"
  using assms by (simp add: getPartition_set)

lemma newPartition_frame [simp]:
  "pTopic (newPartition t i l x y) = t" "pId (newPartition t i l x y) = i" "pLog (newPartition t i l x y) = l"
  "pHw (newPartition t i l x y) = log_Len l" "pRole (newPartition t i l x y) = Leader"
  by (simp_all add: newPartition_def Let_def)

lemma part_inv_new: "log_invar l \<Longrightarrow> part_inv (newPartition t i l x y)"
  using committed_inv_new by (auto simp: committed_inv_def)

lemma open_partition_ok:
  assumes "disk_ok disk" "open_partition disk b t i = Inr p"
  shows "part_inv p" "pTopic p = t" "pId p = i"
proof -
  obtain l where l: "open_log disk b t i = Inr l" "p = newPartition t i l (bIsrTimeout b) (bIsrTick b)"
    using assms(2) by (auto simp: open_partition_def split: sum.splits)
  have "log_invar l"
    using l(1) assms(1) by (auto simp: open_log_def disk_ok_def mem_invar_def MemLog_new_def split: if_splits sum.splits)
  then show "part_inv p" "pTopic p = t" "pId p = i" using l(2) by (simp_all add: part_inv_new)
qed

lemma CreateTopic_ok:
  assumes "CreateTopic disk b req = (b', Inr ())"
  obtains parts where
    "collect (\<lambda>i. map_sum id (Pair i) (open_partition disk b (ctTopic req) i)) [0..ctPartitions req - 1] = Inr parts"
    "b' = b\<lparr>bTopics := map_put (ctTopic req) parts (bTopics b)\<rparr>"
    "map_get (bTopics b) (ctTopic req) = None" "ctTopic req \<noteq> ''''" "0 < ctPartitions req"
  using assms by (auto simp: CreateTopic_def split: if_splits sum.splits)

lemma collect_open_keys:
  "collect (\<lambda>i. map_sum id (Pair i) (g i)) is = Inr parts \<Longrightarrow>
    map fst parts = is \<and> list_all (\<lambda>(i, p). g i = Inr p) parts"
proof (induction "is" arbitrary: parts)
  case (Cons i "is")
  then show ?case by (cases "g i") (auto split: sum.splits)
qed simp

lemma parts_ok_open:
  assumes "disk_ok disk" "collect (\<lambda>i. map_sum id (Pair i) (open_partition disk b t i)) is = Inr parts" "distinct is"
  shows "parts_ok t parts"
  using collect_open_keys [OF assms(2)] open_partition_ok [OF assms(1)] assms(3)
  by (auto simp: parts_ok_def gomap_ok_def list_all_iff)

lemma broker_inv_put:
  "broker_inv b \<Longrightarrow> parts_ok t parts \<Longrightarrow> broker_inv (b\<lparr>bTopics := map_put t parts (bTopics b)\<rparr>)"
  by (auto simp: broker_inv_def)

lemma broker_inv_CreateTopic:
  assumes "broker_inv b" "disk_ok disk"
  shows "broker_inv (fst (CreateTopic disk b req))"
proof (cases "snd (CreateTopic disk b req)")
  case (Inl e)
  then have "fst (CreateTopic disk b req) = b" by (auto simp: CreateTopic_def split: if_splits sum.splits)
  then show ?thesis using assms(1) by simp
next
  case (Inr u)
  then have "CreateTopic disk b req = (fst (CreateTopic disk b req), Inr ())"
    by (cases "CreateTopic disk b req") simp
  then show ?thesis
    by (rule CreateTopic_ok) (metis assms broker_inv_put parts_ok_open distinct_upto)
qed

lemma init_loop_inv:
  assumes "broker_inv b" "disk_ok disk" "map_get (bTopics b) t \<noteq> None"
  shows "broker_inv (fst (init_loop disk b t pids))"
  using assms
proof (induction disk b t pids rule: init_loop.induct)
  case (2 disk b t pid pids)
  obtain parts where parts: "map_get (bTopics b) t = Some parts" using "2.prems"(3) by auto
  then have ok: "parts_ok t parts" using "2.prems"(1) list_all_get by (fastforce simp: broker_inv_def)
  show ?case
  proof (cases "map_get parts pid")
    case (Some p)
    then show ?thesis using 2 parts by simp
  next
    case None
    show ?thesis
    proof (cases "open_partition disk b t pid")
      case (Inr p)
      then have "parts_ok t (map_put pid p parts)"
        using ok open_partition_ok [OF "2.prems"(2)] by (auto simp: parts_ok_def)
      then have "broker_inv (b\<lparr>bTopics := map_put t (map_put pid p parts) (bTopics b)\<rparr>)"
        by (rule broker_inv_put [OF "2.prems"(1)])
      then show ?thesis using "2.IH"(2) [OF refl] "2.prems"(2) parts None Inr by (simp add: go_map)
    qed (use "2.prems" parts None in simp)
  qed
qed simp

lemma broker_inv_InitPartitions:
  assumes "broker_inv b" "disk_ok disk"
  shows "broker_inv (fst (InitPartitions disk b req))"
proof -
  let ?b = "if map_get (bTopics b) (ipTopic req) = None then b\<lparr>bTopics := map_put (ipTopic req) [] (bTopics b)\<rparr> else b"
  have "broker_inv ?b" using assms(1) broker_inv_put [of b "ipTopic req" "[]"] by (simp add: parts_ok_def)
  moreover have "map_get (bTopics ?b) (ipTopic req) \<noteq> None" by (simp add: go_map)
  ultimately show ?thesis
    using init_loop_inv [OF _ assms(2)] assms(1) by (simp add: InitPartitions_def Let_def)
qed

section \<open>The partitions of a broker\<close>

lemma Partition_Append_frame [simp]:
  "pTopic (fst (Partition_Append p m)) = pTopic p" "pId (fst (Partition_Append p m)) = pId p"
  by (auto simp: Partition_Append_def Append_log_def Append_hw_def split: sum.splits prod.splits)

lemma Partition_Append_inv:
  assumes "part_inv p" "log_storable (pLog p) (m\<lparr>msgOffset := leo p\<rparr>)"
  shows "part_inv (fst (Partition_Append p m))"
proof (cases "pRole p")
  case Leader
  note app = Partition_Append_leader [OF assms(1) Leader assms(2)]
  show ?thesis using app(3-5) assms(1) by (simp add: part_inv_def)
next
  case Follower
  then show ?thesis using assms(1) by (simp add: Partition_Append_def Append_check_def)
qed

lemma change_role_inv: "part_inv p \<Longrightarrow> part_inv (change_role p c)"
  by (cases c) (auto simp: part_inv_def BecomeLeader_def BecomeFollower_def commitLeader_def
      commitFollower_def stopBackground_def)

lemma change_role_ids [simp]: "pTopic (change_role p c) = pTopic p" "pId (change_role p c) = pId p"
  by (cases c; auto simp: BecomeLeader_def BecomeFollower_def commitLeader_def commitFollower_def
      stopBackground_def)+

lemma replicas_step_part_inv: "replicas_step p q \<Longrightarrow> part_inv p \<Longrightarrow> part_inv q"
  using replicas_step_hw(1) [of p q] by (auto simp: replicas_step_def part_inv_def)

lemma replica_receive_frame [simp]:
  "pTopic (fst (replica_receive p rec)) = pTopic p" "pId (fst (replica_receive p rec)) = pId p"
  by (auto simp: replica_receive_def Partition_AppendReplica_def Let_def split: sum.splits prod.splits if_splits)

lemma replica_receive_inv:
  assumes "part_inv p" "log_storable (pLog p) (rrMessage rec)"
  shows "part_inv (fst (replica_receive p rec))"
proof -
  let ?off = "msgOffset (rrMessage rec)"
  let ?p1 = "if ?off \<noteq> leo p \<and> ?off < leo p then p\<lparr>pLog := fst (log_TruncateTo (pLog p) ?off)\<rparr> else p"
  have p1: "log_invar (pLog ?p1)" "log_storable (pLog ?p1) (rrMessage rec)" "pReplicas ?p1 = pReplicas p" "pHw ?p1 = pHw p"
    using assms alog.trunc_invar by (auto simp: part_inv_def alog.storable_trunc)
  then have "log_invar (fst (log_AppendReplica (pLog ?p1) (rrMessage rec)))" by (intro alog.rep_invar)
  with p1 assms(1) show ?thesis
    by (auto simp: replica_receive_def Partition_AppendReplica_def Let_def part_inv_def
        split: sum.splits prod.splits if_splits)
qed

lemma part_event_inv:
  assumes "part_inv p" "\<And>rec. ev = PReceive rec \<Longrightarrow> log_storable (pLog p) (rrMessage rec)"
  shows "part_inv (part_event_step ev p) \<and> pTopic (part_event_step ev p) = pTopic p
    \<and> pId (part_event_step ev p) = pId p"
proof (cases ev)
  case (PReceive rec)
  then show ?thesis using assms replica_receive_inv by simp
next
  case PClose
  then show ?thesis using assms(1) by (simp add: Partition_Close_def stopBackground_def part_inv_def)
qed (use assms(1) replicas_steps [THEN replicas_step_part_inv] replicas_steps [THEN replicas_step_frame(4)]
      replicas_steps [THEN replicas_step_frame(5)] in auto)

lemma getPartition_ConnectToPeer:
  "ConnectToPeer dial b i a = (b1, r) \<Longrightarrow> bTopics b1 = bTopics b"
  by (auto simp: ConnectToPeer_def split: if_splits)

lemma getPartition_topics: "bTopics b = bTopics b' \<Longrightarrow> getPartition b t i = getPartition b' t i"
  by (simp add: getPartition_def)

lemma broker_inv_topics: "bTopics b = bTopics b' \<Longrightarrow> broker_inv b = broker_inv b'"
  by (simp add: broker_inv_def)

text \<open>Every handler other than the two that open partitions keeps the map or replaces one partition.\<close>

lemma Produce_set:
  "fst (Produce b req) = (case getPartition b (prTopic req) (prPartition req) of
      Inl e \<Rightarrow> b
    | Inr p \<Rightarrow> setPartition b (prTopic req) (prPartition req)
        (fst (Partition_Append p ((produced_msg req p)\<lparr>msgOffset := 0\<rparr>))))"
  by (auto simp: Produce_def produced_msg_def Let_def split: sum.splits prod.splits)

lemma AssignRole_set:
  assumes "getPartition b (arTopic req) (arPartition req) = Inr p"
  obtains b1 c where "bTopics b1 = bTopics b"
    "fst (AssignRole dial b req) = b1 \<or>
     fst (AssignRole dial b req) = setPartition b1 (arTopic req) (arPartition req) (change_role p c)"
proof (cases "arRole req")
  case LEADER
  then show ?thesis
    using assms that [of b "ToLeader (arEpoch req) (arIsrIds req)"] by (simp add: AssignRole_def)
next
  case FOLLOWER
  obtain b1 r where c: "ConnectToPeer dial b (arLeaderId req) (arLeaderAddr req) = (b1, r)" by force
  have "bTopics b1 = bTopics b" using getPartition_ConnectToPeer [OF c] .
  then show ?thesis
    using assms c FOLLOWER that [of b1 "ToFollower (arLeaderId req) (arEpoch req)"]
    by (cases r) (simp_all add: AssignRole_def)
next
  case (UnknownRole n)
  then show ?thesis using assms that [of b] by (simp add: AssignRole_def)
qed

lemma broker_step_inv:
  assumes "broker_inv b" "disk_ok disk" "broker_op_ok b op"
  shows "broker_inv (broker_step disk dial b op)"
proof (cases op)
  case (RpcCreateTopic req)
  then show ?thesis using assms broker_inv_CreateTopic by simp
next
  case (RpcInitPartitions req)
  then show ?thesis using assms broker_inv_InitPartitions by simp
next
  case (RpcProduce req)
  show ?thesis
  proof (cases "getPartition b (prTopic req) (prPartition req)")
    case (Inr p)
    note p = broker_inv_get [OF assms(1) Inr]
    have "log_storable (pLog p) (produced_msg req p)" using assms(3) RpcProduce Inr by simp
    then have "part_inv (fst (Partition_Append p ((produced_msg req p)\<lparr>msgOffset := 0\<rparr>)))"
      using p by (intro Partition_Append_inv) (simp_all add: produced_msg_def)
    then show ?thesis using p Inr RpcProduce by (simp add: Produce_set broker_inv_set [OF assms(1) Inr])
  qed (use assms RpcProduce in \<open>simp add: Produce_set\<close>)
next
  case (RpcAssignRole req)
  show ?thesis
  proof (cases "getPartition b (arTopic req) (arPartition req)")
    case (Inr p)
    obtain b1 c where b1: "bTopics b1 = bTopics b" "fst (AssignRole dial b req) = b1 \<or>
       fst (AssignRole dial b req) = setPartition b1 (arTopic req) (arPartition req) (change_role p c)"
      by (rule AssignRole_set [OF Inr])
    have inv: "broker_inv b1" "getPartition b1 (arTopic req) (arPartition req) = Inr p"
      using assms(1) Inr broker_inv_topics [OF b1(1)] getPartition_topics [OF b1(1)] by simp_all
    then show ?thesis
      using b1(2) RpcAssignRole broker_inv_get [OF assms(1) Inr] broker_inv_set [OF inv, of "change_role p c"]
        change_role_inv [of p c] by auto
  qed (use assms RpcAssignRole in \<open>simp add: AssignRole_def\<close>)
next
  case (Background t i ev)
  show ?thesis
  proof (cases "getPartition b t i")
    case (Inr p)
    note p = broker_inv_get [OF assms(1) Inr]
    have "log_storable (pLog p) (rrMessage rec)" if "ev = PReceive rec" for rec
      using that assms(3) Background Inr by simp
    from part_event_inv [OF p(1) this] p show ?thesis
      using Inr Background by (simp add: broker_inv_set [OF assms(1) Inr])
  qed (use assms Background in simp)
qed

section \<open>Partitions stay\<close>

lemma getPartition_put:
  "getPartition (b\<lparr>bTopics := map_put t parts (bTopics b)\<rparr>) t' i =
    (if t' = t then (case map_get parts i of None \<Rightarrow> Inl (Status NotFound) | Some p \<Rightarrow> Inr p)
     else getPartition b t' i)"
  by (simp add: getPartition_def go_map)

lemma getPartition_add_topic:
  "map_get (bTopics b) t0 = None \<Longrightarrow>
    getPartition (b\<lparr>bTopics := map_put t0 [] (bTopics b)\<rparr>) t i = getPartition b t i"
  by (auto simp: getPartition_def go_map)

lemma open_partition_settings:
  "open_partition disk (b\<lparr>bTopics := ts\<rparr>) t i = open_partition disk b t i"
  by (simp add: open_partition_def open_log_def split: sum.splits)

lemma init_loop_exact:
  assumes "map_get (bTopics b) t \<noteq> None" "init_loop disk b t pids = (b', Inr ())"
  shows "getPartition b' t' i =
      (if t' = t \<and> i \<in> set pids \<and> (\<nexists>p. getPartition b t i = Inr p) then open_partition disk b t i
       else getPartition b t' i)
    \<and> map_get (bTopics b') t \<noteq> None"
  using assms
proof (induction disk b t pids rule: init_loop.induct)
  case (2 disk b t pid pids)
  obtain parts where parts: "map_get (bTopics b) t = Some parts" using "2.prems"(1) by auto
  show ?case
  proof (cases "map_get parts pid")
    case (Some p)
    then have "getPartition b t pid = Inr p" using parts by (simp add: getPartition_def)
    then show ?thesis using "2.IH"(1) [OF refl] "2.prems" parts Some by auto
  next
    case None
    then obtain p where p: "open_partition disk b t pid = Inr p"
      using "2.prems"(2) parts by (auto split: sum.splits)
    let ?b = "b\<lparr>bTopics := map_put t (map_put pid p parts) (bTopics b)\<rparr>"
    have run: "init_loop disk ?b t pids = (b', Inr ())" using "2.prems"(2) parts None p by simp
    have g: "getPartition ?b t'' i' = (if t'' = t \<and> i' = pid then Inr p else getPartition b t'' i')" for t'' i'
      using parts by (simp add: getPartition_put go_map) (simp add: getPartition_def)
    have "map_get (bTopics ?b) t \<noteq> None" by (simp add: go_map)
    with "2.IH"(2) [OF refl] run parts None p
    have "getPartition b' t' i =
        (if t' = t \<and> i \<in> set pids \<and> (\<nexists>p. getPartition ?b t i = Inr p) then open_partition disk b t i
         else getPartition ?b t' i) \<and> map_get (bTopics b') t \<noteq> None"
      by (simp add: open_partition_settings)
    moreover have "getPartition b t pid = Inl (Status NotFound)" using parts None by (simp add: getPartition_def)
    ultimately show ?thesis using p by (auto simp: g split: if_splits)
  qed
qed simp

lemma init_loop_keeps:
  assumes "map_get (bTopics b) t \<noteq> None" "getPartition b t' i = Inr p"
  shows "getPartition (fst (init_loop disk b t pids)) t' i = Inr p"
  using assms
proof (induction disk b t pids rule: init_loop.induct)
  case (2 disk b t pid pids)
  obtain parts where parts: "map_get (bTopics b) t = Some parts" using "2.prems"(1) by auto
  show ?case
  proof (cases "map_get parts pid")
    case (Some q)
    then show ?thesis using "2.IH"(1) [OF refl] "2.prems" parts by simp
  next
    case None
    show ?thesis
    proof (cases "open_partition disk b t pid")
      case (Inr q)
      have "getPartition (b\<lparr>bTopics := map_put t (map_put pid q parts) (bTopics b)\<rparr>) t' i = Inr p"
        using "2.prems"(2) parts None by (auto simp: getPartition_put go_map getPartition_def split: option.splits)
      then show ?thesis using "2.IH"(2) [OF refl] parts None Inr by (simp add: go_map)
    qed (use "2.prems" parts None in simp)
  qed
qed simp

lemma broker_step_keeps:
  assumes "getPartition b t i = Inr p"
  shows "\<exists>q. getPartition (broker_step disk dial b op) t i = Inr q"
proof (cases op)
  case (RpcCreateTopic req)
  show ?thesis
  proof (cases "snd (CreateTopic disk b req)")
    case (Inr u)
    then have "CreateTopic disk b req = (fst (CreateTopic disk b req), Inr ())"
      by (cases "CreateTopic disk b req") simp
    then obtain parts where c: "fst (CreateTopic disk b req) = b\<lparr>bTopics := map_put (ctTopic req) parts (bTopics b)\<rparr>"
      "map_get (bTopics b) (ctTopic req) = None" by (rule CreateTopic_ok)
    then have "t \<noteq> ctTopic req" using assms by (auto simp: getPartition_def)
    then show ?thesis using assms c RpcCreateTopic by (simp add: getPartition_put)
  qed (use assms RpcCreateTopic in \<open>auto simp: CreateTopic_def split: if_splits sum.splits\<close>)
next
  case (RpcInitPartitions req)
  let ?b = "if map_get (bTopics b) (ipTopic req) = None then b\<lparr>bTopics := map_put (ipTopic req) [] (bTopics b)\<rparr> else b"
  have "getPartition ?b t i = Inr p" using assms by (simp add: getPartition_add_topic)
  moreover have "map_get (bTopics ?b) (ipTopic req) \<noteq> None" by (simp add: go_map)
  ultimately show ?thesis
    using RpcInitPartitions init_loop_keeps assms by (simp add: InitPartitions_def Let_def)
next
  case (RpcProduce req)
  then show ?thesis using assms by (auto simp: Produce_set getPartition_set split: sum.splits)
next
  case (RpcAssignRole req)
  show ?thesis
  proof (cases "getPartition b (arTopic req) (arPartition req)")
    case (Inr q)
    obtain b1 c where b1: "bTopics b1 = bTopics b" "fst (AssignRole dial b req) = b1 \<or>
       fst (AssignRole dial b req) = setPartition b1 (arTopic req) (arPartition req) (change_role q c)"
      by (rule AssignRole_set [OF Inr])
    then show ?thesis
      using assms Inr getPartition_topics [OF b1(1)] RpcAssignRole by (auto simp: getPartition_set)
  qed (use assms RpcAssignRole in \<open>simp add: AssignRole_def\<close>)
next
  case (Background t' i' ev)
  then show ?thesis using assms by (auto simp: getPartition_set split: sum.splits)
qed

lemma broker_run_correct:
  assumes "broker_inv b" "disk_ok disk" "broker_ops_ok disk dial b ops"
  shows "broker_inv (broker_run disk dial b ops)
    \<and> (getPartition b t i = Inr p \<longrightarrow> (\<exists>q. getPartition (broker_run disk dial b ops) t i = Inr q))"
  using assms
proof (induction ops arbitrary: b p)
  case (Cons op ops)
  then have "broker_inv (broker_step disk dial b op)" using broker_step_inv by simp
  with Cons show ?case using broker_step_keeps [of b t i p disk dial op] by fastforce
qed simp

lemma broker_inv_New: "broker_inv (New i)"
  by (simp add: New_def broker_inv_def)

lemma rebuild_empty: "NewFileLog (Inr []) = Inr (file_of [])"
  by (simp add: NewFileLog_def rebuildIndex_def rebuild_loop.simps file_of_def)

lemma disk_ok_empty: "disk_ok (\<lambda>_ _. Inr [])"
  by (simp add: disk_ok_def rebuild_empty file_invar_file_of)

lemma InitPartitions_run:
  assumes "InitPartitions disk b req = (b', Inr ())"
  obtains b1 where "init_loop disk b1 (ipTopic req) (ipPartitions req) = (b', Inr ())"
    "map_get (bTopics b1) (ipTopic req) \<noteq> None" "ipTopic req \<noteq> ''''"
    "\<And>t i. getPartition b1 t i = getPartition b t i" "\<And>t i. open_partition disk b1 t i = open_partition disk b t i"
proof -
  let ?b = "if map_get (bTopics b) (ipTopic req) = None then b\<lparr>bTopics := map_put (ipTopic req) [] (bTopics b)\<rparr> else b"
  have g: "getPartition ?b t i = getPartition b t i" for t i
    by (simp add: getPartition_add_topic)
  have o: "open_partition disk ?b t i = open_partition disk b t i" for t i by (simp add: open_partition_settings)
  show ?thesis
    by (rule that [of ?b]) (use assms g o in \<open>auto simp: InitPartitions_def Let_def go_map split: if_splits\<close>)
qed

lemma init_loop_skips:
  assumes "map_get (bTopics b) t \<noteq> None" "\<forall>i \<in> set pids. \<exists>p. getPartition b t i = Inr p"
  shows "init_loop disk b t pids = (b, Inr ())"
  using assms by (induction pids) (auto simp: getPartition_def split: option.splits)

lemma open_partition_Inr:
  "init_loop disk b t pids = (b', Inr ()) \<Longrightarrow> map_get (bTopics b) t \<noteq> None \<Longrightarrow> i \<in> set pids \<Longrightarrow>
    \<exists>p. getPartition b' t i = Inr p"
proof (induction disk b t pids arbitrary: i rule: init_loop.induct)
  case (2 disk b t pid pids)
  obtain parts where parts: "map_get (bTopics b) t = Some parts" using "2.prems"(2) by auto
  show ?case
  proof (cases "map_get parts pid")
    case (Some p)
    then have "getPartition b t pid = Inr p" using parts by (simp add: getPartition_def)
    moreover have run: "init_loop disk b t pids = (b', Inr ())" using "2.prems" parts Some by simp
    ultimately have "\<exists>p. getPartition b' t pid = Inr p"
      using init_loop_keeps [OF "2.prems"(2), of t pid p disk pids] by simp
    then show ?thesis using "2.IH"(1) [OF refl] "2.prems" parts Some run by auto
  next
    case None
    then obtain p where p: "open_partition disk b t pid = Inr p" using "2.prems"(1) parts by (auto split: sum.splits)
    let ?b = "b\<lparr>bTopics := map_put t (map_put pid p parts) (bTopics b)\<rparr>"
    have run: "init_loop disk ?b t pids = (b', Inr ())" using "2.prems"(1) parts None p by simp
    have m: "map_get (bTopics ?b) t \<noteq> None" by (simp add: go_map)
    have "getPartition ?b t pid = Inr p" by (simp add: getPartition_put go_map)
    from init_loop_keeps [OF m this, of disk pids] run have "\<exists>p. getPartition b' t pid = Inr p" by simp
    then show ?thesis using "2.IH"(2) [OF refl] "2.prems"(3) parts None p run m by auto
  qed
qed simp

section \<open>Properties\<close>

text \<open>
  C23: Whatever requests and background events a broker handles, its map stays well formed: every
  partition is stored under its own topic and index with a log whose offsets equal positions, and
  a partition, once created, is never lost.
\<close>

theorem broker_run_invariant:
  assumes "broker_inv b" "disk_ok disk" "broker_ops_ok disk dial b ops"
  shows "(getPartition (broker_run disk dial b ops) t i = Inr p \<longrightarrow>
      pTopic p = t \<and> pId p = i \<and> offsets_ok (log_msgs (pLog p)) \<and> 0 \<le> pHw p)
    \<and> (getPartition b t i = Inr p \<longrightarrow> (\<exists>q. getPartition (broker_run disk dial b ops) t i = Inr q))"
  using broker_run_correct [OF assms] broker_inv_get [of "broker_run disk dial b ops"]
  by (auto simp: part_inv_def alog.invar_offsets)

definition demo_ops :: "broker_op list" where
  "demo_ops = [RpcCreateTopic \<lparr>ctTopic = ''t'', ctPartitions = 2, ctReplicationFactor = 1\<rparr>,
     RpcProduce \<lparr>prTopic = ''t'', prPartition = 1, prKey = ''k'', prValue = ''hello''\<rparr>,
     Background ''t'' 1 (PFetch 2 0 5),
     RpcInitPartitions \<lparr>ipTopic = ''u'', ipPartitions = [3]\<rparr>]"

definition demo_broker :: broker where
  "demo_broker = broker_run (\<lambda>_ _. Inr []) (\<lambda>_. True) (New 1) demo_ops"

definition demo_part :: partition where
  "demo_part = (case getPartition demo_broker ''t'' 1 of Inr p \<Rightarrow> p | Inl e \<Rightarrow> fresh_partition)"

theorem broker_run_invariant_witness:
  "pTopic demo_part = ''t'' \<and> pId demo_part = 1 \<and> offsets_ok (log_msgs (pLog demo_part)) \<and> 0 \<le> pHw demo_part"
proof -
  have "broker_ops_ok (\<lambda>_ _. Inr []) (\<lambda>_. True) (New 1) demo_ops" by code_simp
  moreover have "getPartition (broker_run (\<lambda>_ _. Inr []) (\<lambda>_. True) (New 1) demo_ops) ''t'' 1 = Inr demo_part"
    by code_simp
  ultimately show ?thesis using broker_run_invariant [OF broker_inv_New disk_ok_empty] by blast
qed

text \<open>
  \<open>InitPartitions\<close>, when it succeeds, opens exactly the requested partitions that the broker does
  not have yet, leaves every other partition as it is, and a second call with the same request
  changes nothing.
\<close>

lemma InitPartitions_exact:
  assumes "InitPartitions disk b req = (b', Inr ())"
  shows "getPartition b' t i =
      (if t = ipTopic req \<and> i \<in> set (ipPartitions req) \<and> (\<nexists>p. getPartition b t i = Inr p)
       then open_partition disk b t i else getPartition b t i)
    \<and> InitPartitions disk b' req = (b', Inr ())"
proof -
  obtain b1 where b1: "init_loop disk b1 (ipTopic req) (ipPartitions req) = (b', Inr ())"
    "map_get (bTopics b1) (ipTopic req) \<noteq> None" "ipTopic req \<noteq> ''''"
    "\<And>t i. getPartition b1 t i = getPartition b t i" "\<And>t i. open_partition disk b1 t i = open_partition disk b t i"
    by (rule InitPartitions_run [OF assms]) blast
  note e = init_loop_exact [OF b1(2,1)]
  have "init_loop disk b' (ipTopic req) (ipPartitions req) = (b', Inr ())"
    using e open_partition_Inr [OF b1(1,2)] by (intro init_loop_skips) auto
  then show ?thesis using e b1(3-5) by (auto simp: InitPartitions_def Let_def)
qed

lemma InitPartitions_exact_witness:
  "getPartition (fst (InitPartitions (\<lambda>_ _. Inr []) (New 1) \<lparr>ipTopic = ''u'', ipPartitions = [3, 4]\<rparr>)) ''u'' 4 =
      (if ''u'' = ipTopic \<lparr>ipTopic = ''u'', ipPartitions = [3, 4]\<rparr> \<and> 4 \<in> set [3, 4::int] \<and> (\<nexists>p. getPartition (New 1) ''u'' 4 = Inr p)
       then open_partition (\<lambda>_ _. Inr []) (New 1) ''u'' 4 else getPartition (New 1) ''u'' 4)"
proof -
  have "InitPartitions (\<lambda>_ _. Inr []) (New 1) \<lparr>ipTopic = ''u'', ipPartitions = [3, 4]\<rparr> =
     (fst (InitPartitions (\<lambda>_ _. Inr []) (New 1) \<lparr>ipTopic = ''u'', ipPartitions = [3, 4]\<rparr>), Inr ())"
    by (rule prod_eqI) (simp, code_simp)
  from InitPartitions_exact [OF this, of "''u''" 4] show ?thesis by simp
qed



text \<open>
  C38: \<open>Produce\<close> on a broker that leads the partition appends exactly the produced message at the log
  end and returns its offset, and makes it visible at once if no follower is known; on a follower it
  fails with \<open>FailedPrecondition\<close> and changes nothing; no other partition is touched.
\<close>

theorem Produce_exact:
  assumes "broker_inv b" "getPartition b (prTopic req) (prPartition req) = Inr p"
    and "log_storable (pLog p) (produced_msg req p)"
  shows "(if pRole p = Leader
      then snd (Produce b req) = Inr (Partition_LogEndOffset p)
        \<and> (\<exists>q. getPartition (fst (Produce b req)) (prTopic req) (prPartition req) = Inr q
             \<and> log_msgs (pLog q) = log_msgs (pLog p) @ [produced_msg req p]
             \<and> pHw q = (if pReplicas p = [] then Partition_LogEndOffset p + 1 else pHw p))
      else snd (Produce b req) = Inl (Status FailedPrecondition)
        \<and> getPartition (fst (Produce b req)) (prTopic req) (prPartition req) = Inr p)
    \<and> ((t, i) \<noteq> (prTopic req, prPartition req) \<longrightarrow> getPartition (fst (Produce b req)) t i = getPartition b t i)"
proof -
  let ?m = "(produced_msg req p)\<lparr>msgOffset := 0\<rparr>"
  have inv: "part_inv p" using broker_inv_get(1) [OF assms(1,2)] .
  have m: "?m\<lparr>msgOffset := leo p\<rparr> = produced_msg req p" by (simp add: produced_msg_def)
  have snd: "snd (Produce b req) = (case snd (Partition_Append p ?m) of
      Inl e \<Rightarrow> Inl (Status (if e = ErrNotLeader then FailedPrecondition else Internal)) | Inr off \<Rightarrow> Inr off)"
    using assms(2) by (auto simp: Produce_def produced_msg_def Let_def split: prod.splits sum.splits)
  have get: "getPartition (fst (Produce b req)) t i = (if t = prTopic req \<and> i = prPartition req
      then Inr (fst (Partition_Append p ?m)) else getPartition b t i)" for t i
    using assms(2) by (simp add: Produce_set getPartition_set)
  show ?thesis
  proof (cases "pRole p")
    case Leader
    have "log_storable (pLog p) (?m\<lparr>msgOffset := leo p\<rparr>)" using assms(3) m by simp
    from Partition_Append_leader [OF inv Leader this] show ?thesis
      using Leader m by (simp add: snd get Partition_LogEndOffset_def)
  next
    case Follower
    then show ?thesis by (simp add: snd get Partition_Append_def Append_check_def)
  qed
qed

theorem Produce_exact_witness:
  "snd (Produce demo_broker \<lparr>prTopic = ''t'', prPartition = 1, prKey = [], prValue = ''x''\<rparr>)
     = Inr (Partition_LogEndOffset demo_part)"
proof -
  let ?req = "\<lparr>prTopic = ''t'', prPartition = 1, prKey = [], prValue = ''x''\<rparr>"
  have "broker_inv demo_broker" by code_simp
  moreover have "getPartition demo_broker (prTopic ?req) (prPartition ?req) = Inr demo_part" by code_simp
  moreover have "log_storable (pLog demo_part) (produced_msg ?req demo_part)" by code_simp
  moreover have "pRole demo_part = Leader" by code_simp
  ultimately show ?thesis using Produce_exact [of demo_broker ?req demo_part] by simp
qed

section \<open>Fetch streams\<close>

lemma Fetch_send_some:
  "\<exists>j \<le> length msgs. fcOffset (Fetch_send sf msgs c) = fcOffset c + int j
     \<and> fcSent (Fetch_send sf msgs c) = fcSent c @ take j msgs"
proof (induction msgs arbitrary: sf c)
  case (Cons m msgs)
  show ?case
  proof (cases "sf = Some 0")
    case False
    obtain j where "j \<le> length msgs"
      "fcOffset (Fetch_send sf (m # msgs) c) = fcOffset c + 1 + int j"
      "fcSent (Fetch_send sf (m # msgs) c) = fcSent c @ [m] @ take j msgs"
      using False Cons.IH [of "map_option (\<lambda>k. k - 1) sf"
          "c\<lparr>fcOffset := fcOffset c + 1, fcSent := fcSent c @ [m]\<rparr>"] by auto
    then show ?thesis by (intro exI [of _ "Suc j"]) simp
  qed auto
qed simp

lemma Partition_Read_slice:
  assumes "log_invar (pLog p)" "Partition_Read p off n = Inr ms" "ms \<noteq> []" "j \<le> length ms"
  shows "0 \<le> off" "off + int (length ms) \<le> pHw p"
    "take j ms = take j (drop (nat off) (p_msgs p))"
proof -
  note rd = Partition_Read_Inr [OF assms(1,2)]
  have last: "length ms - 1 < length ms" using assms(3) by simp
  show "0 \<le> off" using rd(5) [OF last] .
  show "off + int (length ms) \<le> pHw p" using rd(3) [OF last] last by linarith
  show "take j ms = take j (drop (nat off) (p_msgs p))"
  proof (rule nth_equalityI)
    have "nat off + length ms \<le> length (p_msgs p)" using rd(2) [OF last] last by linarith
    then show "length (take j ms) = length (take j (drop (nat off) (p_msgs p)))" using assms(4) by simp
    fix i assume "i < length (take j ms)"
    then show "take j ms ! i = take j (drop (nat off) (p_msgs p)) ! i"
      using rd(1,2) [of i] by simp
  qed
qed

lemma fetch_inv_end [simp]: "fetch_inv start p (c\<lparr>fcEnd := e\<rparr>) = fetch_inv start p c"
  by (simp add: fetch_inv_def)

lemma fetch_inv_same:
  "fetch_inv start p c \<Longrightarrow> fcOffset d = fcOffset c \<Longrightarrow> fcSent d = fcSent c \<Longrightarrow> fetch_inv start p d"
  by (auto simp: fetch_inv_def)

lemma fetch_inv_turn:
  assumes "fetch_inv start p c"
  shows "fetch_inv start p (Fetch_turn sf p c)"
proof (cases "Partition_Read p (fcOffset c) fetchBatch")
  case (Inl e)
  then show ?thesis using assms by (simp add: Fetch_turn_def)
next
  case (Inr msgs)
  obtain j where j: "j \<le> length msgs" "fcOffset (Fetch_turn sf p c) = fcOffset c + int j"
    "fcSent (Fetch_turn sf p c) = fcSent c @ take j msgs"
    using Fetch_send_some [of msgs sf c] Inr by (auto simp: Fetch_turn_def)
  show ?thesis
  proof (cases "take j msgs = []")
    case True
    then have "int j = 0 \<or> msgs = []" by auto
    then have "j = 0" using j(1) by auto
    then show ?thesis using fetch_inv_same [OF assms] j by simp
  next
    case False
    have p: "log_invar (pLog p)" using assms by (simp add: fetch_inv_def committed_inv_def part_inv_def)
    have ne: "msgs \<noteq> []" using False by auto
    note rd = Partition_Read_slice [OF p Inr ne j(1)]
    have start: "0 \<le> start" "nat (fcOffset c) = nat start + length (fcSent c)"
      using assms rd(1) by (auto simp: fetch_inv_def)
    have "take (length (fcSent c)) (drop (nat start) (p_msgs p)) = fcSent c"
      using assms by (cases "fcSent c = []") (auto simp: fetch_inv_def)
    then have "take (length (fcSent c) + j) (drop (nat start) (p_msgs p)) = fcSent c @ take j msgs"
      unfolding take_add using rd(3) start(2) by (simp add: add.commute)
    moreover have "length (fcSent c @ take j msgs) = length (fcSent c) + j" using j(1) by simp
    moreover have "fcOffset c + int j \<le> pHw p" using rd(2) j(1) by linarith
    ultimately show ?thesis using assms j(2,3) start(1) by (auto simp: fetch_inv_def)
  qed
qed

lemma fetch_inv_leader:
  assumes "fetch_inv start p c" "leader_ops_ok p [op]"
  shows "fetch_inv start (leader_step p op) c"
proof -
  have p: "committed_inv p" "pRole p = Leader" using assms(1) by (auto simp: fetch_inv_def)
  note st = leader_step_correct [OF p assms(2)]
  obtain ms where ms: "p_msgs (leader_step p op) = p_msgs p @ ms" using st(5) by blast
  have "take (length (fcSent c)) (drop (nat start) (p_msgs p @ ms)) = fcSent c"
    if "take (length (fcSent c)) (drop (nat start) (p_msgs p)) = fcSent c"
  proof -
    have "length (fcSent c) \<le> length (drop (nat start) (p_msgs p))" using arg_cong [OF that, of length] by simp
    then show ?thesis using that by simp
  qed
  then show ?thesis using assms(1) st(1-3) ms by (auto simp: fetch_inv_def)
qed

lemma fetch_steps_inv:
  assumes "fetch_step\<^sup>*\<^sup>* (p, c) (q, d)" "fetch_inv start p c"
  shows "fetch_inv start q d"
  using assms
proof (induction "(q, d)" arbitrary: q d rule: rtranclp_induct)
  case (step pc)
  obtain p' c' where pc: "pc = (p', c')" by force
  from step(2) [unfolded pc] step(3) [OF pc step(4)] show ?case
    by (cases rule: fetch_step.cases) (auto intro: fetch_inv_turn fetch_inv_leader simp del: leader_ops_ok.simps)
qed simp

text \<open>
  C25: A consumer's \<open>Fetch\<close> stream on a leader delivers, at any moment and whatever the leader does
  meanwhile, exactly the messages from the start offset on, in order, without gap or repetition,
  and only committed ones.
\<close>

theorem fetch_delivers_in_order:
  assumes "committed_inv p" "pRole p = Leader" "fcSent c0 = []" "fetch_step\<^sup>*\<^sup>* (p, c0) (q, c)"
  shows "fcSent c = take (length (fcSent c)) (drop (nat (fcOffset c0)) (log_msgs (pLog q)))
    \<and> fcOffset c = fcOffset c0 + int (length (fcSent c))
    \<and> (fcSent c \<noteq> [] \<longrightarrow> fcOffset c \<le> pHw q)"
proof -
  have "fetch_inv (fcOffset c0) p c0" using assms(1-3) by (simp add: fetch_inv_def)
  from fetch_steps_inv [OF assms(4) this] show ?thesis
    by (cases "fcSent c = []") (auto simp: fetch_inv_def)
qed

definition new_conn :: fetch_conn where
  "new_conn = \<lparr>fcOffset = 0, fcSent = [], fcEnd = None\<rparr>"

theorem fetch_delivers_in_order_witness:
  "fcSent (Fetch_turn None one_msg new_conn) = take (length (fcSent (Fetch_turn None one_msg new_conn)))
      (drop (nat (fcOffset new_conn)) (log_msgs (pLog one_msg)))
    \<and> fcOffset (Fetch_turn None one_msg new_conn) \<le> pHw one_msg"
proof -
  have turn: "fetch_step (one_msg, new_conn) (one_msg, Fetch_turn None one_msg new_conn)"
    by (rule fetch_step.turn) (simp add: new_conn_def)
  have "fetch_step (fresh_partition, new_conn) (one_msg, new_conn)"
    unfolding one_msg_def by (rule fetch_step.leader) code_simp
  with turn have steps: "fetch_step\<^sup>*\<^sup>* (fresh_partition, new_conn) (one_msg, Fetch_turn None one_msg new_conn)"
    by (meson converse_rtranclp_into_rtranclp r_into_rtranclp)
  have "fcSent (Fetch_turn None one_msg new_conn) \<noteq> []" by code_simp
  then show ?thesis
    using fetch_delivers_in_order [OF committed_inv_fresh _ steps] by (simp add: new_conn_def)
qed

lemma Fetch_drain_eq:
  assumes "committed_inv p" "0 \<le> fcOffset c" "fcOffset c \<le> pHw p" "Partition_LogEndOffset p + 64 < 2 ^ 63"
  shows "Fetch_drain p c = c\<lparr>fcOffset := pHw p,
    fcSent := fcSent c @ take (nat (pHw p - fcOffset c)) (drop (nat (fcOffset c)) (log_msgs (pLog p)))\<rparr>"
  using assms
proof (induction p c rule: Fetch_drain.induct)
  case (1 p c)
  have inv: "log_invar (pLog p)" "pHw p \<le> leo p" "leo p = int (length (p_msgs p))"
    using "1.prems"(1) by (auto simp: committed_inv_def part_inv_def alog.len_msgs)
  show ?case
  proof (cases "fcOffset c < pHw p")
    case False
    then have "fcOffset c = pHw p" using "1.prems"(3) by simp
    then show ?thesis by (subst Fetch_drain.simps) (simp add: Partition_Read_def Let_def)
  next
    case True
    let ?ms = "take (nat (min 64 (pHw p - fcOffset c))) (drop (nat (fcOffset c)) (p_msgs p))"
    have rd: "Partition_Read p (fcOffset c) fetchBatch = Inr ?ms"
      using inv True "1.prems" unfolding fetchBatch_def Partition_LogEndOffset_def
      by (intro Partition_Read_spec) simp_all
    have "nat (min 64 (pHw p - fcOffset c)) \<le> length (p_msgs p) - nat (fcOffset c)"
      using inv True "1.prems"(2) by linarith
    then have len: "length ?ms = nat (min 64 (pHw p - fcOffset c))" by simp
    have "0 < nat (min 64 (pHw p - fcOffset c))" using True by simp
    then have ne: "?ms \<noteq> []" using len by (metis length_greater_0_conv)
    let ?c = "Fetch_send None ?ms c"
    have c: "?c = c\<lparr>fcOffset := fcOffset c + int (length ?ms), fcSent := fcSent c @ ?ms\<rparr>" by (rule Fetch_send_all)
    have "Fetch_drain p ?c = ?c\<lparr>fcOffset := pHw p,
        fcSent := fcSent ?c @ take (nat (pHw p - fcOffset ?c)) (drop (nat (fcOffset ?c)) (p_msgs p))\<rparr>"
    proof (rule "1.IH" [OF rd ne "1.prems"(1) _ _ "1.prems"(4)])
      show "0 \<le> fcOffset ?c" unfolding c using "1.prems"(2) by simp
      have "int (length ?ms) \<le> pHw p - fcOffset c" unfolding len using True by simp
      then show "fcOffset ?c \<le> pHw p" unfolding c by simp
    qed
    moreover have "?ms @ take (nat (pHw p - fcOffset ?c)) (drop (nat (fcOffset ?c)) (p_msgs p))
        = take (nat (pHw p - fcOffset c)) (drop (nat (fcOffset c)) (p_msgs p))"
    proof -
      have "nat (pHw p - fcOffset c) = length ?ms + nat (pHw p - fcOffset ?c)"
        unfolding c len using True by (simp add: min_def) linarith
      moreover have "drop (nat (fcOffset ?c)) (p_msgs p) = drop (length ?ms) (drop (nat (fcOffset c)) (p_msgs p))"
        using "1.prems"(2) by (simp add: c nat_add_distrib add.commute)
      ultimately show ?thesis using len by (metis take_add)
    qed
    ultimately show ?thesis using rd ne by (subst Fetch_drain.simps) (simp add: c)
  qed
qed

text \<open>
  C26: On a partition at rest the loop of \<open>Fetch\<close> reaches its wait after finitely many batches, and by
  then has sent every committed message from its offset on: nothing committed is left behind.
\<close>

theorem Fetch_drain_complete:
  assumes "committed_inv p" "0 \<le> fcOffset c" "fcOffset c \<le> pHw p" "Partition_LogEndOffset p + 64 < 2 ^ 63"
  shows "Fetch_drain p c = c\<lparr>fcOffset := pHw p,
    fcSent := fcSent c @ take (nat (pHw p - fcOffset c)) (drop (nat (fcOffset c)) (log_msgs (pLog p)))\<rparr>"
  using assms by (rule Fetch_drain_eq)

theorem Fetch_drain_complete_witness:
  "Fetch_drain one_msg new_conn = new_conn\<lparr>fcOffset := pHw one_msg,
    fcSent := fcSent new_conn @ take (nat (pHw one_msg - fcOffset new_conn))
      (drop (nat (fcOffset new_conn)) (log_msgs (pLog one_msg)))\<rparr>"
  by (rule Fetch_drain_complete) code_simp+

text \<open>
  A follower takes over the leader's high watermark even when it lies beyond its own log; a \<open>Fetch\<close>
  handler that has reached the end of that log then neither sends nor waits: the turn of its loop
  leaves its state as it is and the condition it waits for already holds, so it spins.
\<close>

lemma fetch_spins_beyond_log_end:
  assumes "part_inv p" "msgOffset (rrMessage rec) = Partition_LogEndOffset p" "log_storable (pLog p) (rrMessage rec)"
    and "Partition_LogEndOffset p + 1 < rrHighWatermark rec" "fcOffset c = Partition_LogEndOffset p + 1"
    and "Partition_LogEndOffset p + 65 < 2 ^ 63"
  shows "let q = fst (replica_receive p rec) in Fetch_turn sendFails q c = c \<and> WaitForHW_done q (fcOffset c)"
proof -
  let ?q = "fst (replica_receive p rec)"
  have inv: "log_invar (pLog p)" using assms(1) by (simp add: part_inv_def)
  note r = replica_receive_in_order [OF inv assms(2) [unfolded Partition_LogEndOffset_def, simplified] assms(3)]
  have leo: "leo ?q = leo p + 1" "leo p = int (length (p_msgs p))"
    using r(2) alog.len_msgs [OF r(3)] alog.len_msgs [OF inv] by simp_all
  have hw: "fcOffset c < pHw ?q" "fcOffset c = leo ?q"
    using assms(4,5) r(4) leo by (simp_all add: Partition_LogEndOffset_def)
  have "Partition_Read ?q (fcOffset c) fetchBatch =
      Inr (take (nat (min fetchBatch (pHw ?q - fcOffset c))) (drop (nat (fcOffset c)) (p_msgs ?q)))"
    using hw assms(5,6) r(3) leo by (intro Partition_Read_spec) (simp_all add: fetchBatch_def Partition_LogEndOffset_def)
  moreover have "drop (nat (fcOffset c)) (p_msgs ?q) = []" using hw r(2) leo by simp
  ultimately show ?thesis using hw by (simp add: Let_def Fetch_turn_def WaitForHW_done_def)
qed

lemma fetch_spins_beyond_log_end_witness:
  "let q = fst (replica_receive fresh_partition rec_hello)
   in Fetch_turn None q (new_conn\<lparr>fcOffset := 1\<rparr>) = new_conn\<lparr>fcOffset := 1\<rparr> \<and> WaitForHW_done q (fcOffset (new_conn\<lparr>fcOffset := 1\<rparr>))"
  by (rule fetch_spins_beyond_log_end) code_simp+

section \<open>Restarting on a data directory\<close>

lemma Atoi_int_dec: "is_int64 i \<Longrightarrow> Atoi (int_dec i) = Some i"
proof -
  assume i: "is_int64 i"
  have d: "list_all is_digit (nat_dec n)" for n by (simp add: list_all_iff nat_dec_digits)
  have "is_digit (hd (nat_dec n))" for n by (rule nat_dec_digits [of _ n]) simp
  moreover have "\<not> is_digit (CHR ''-'')" "\<not> is_digit (CHR ''+'')" by code_simp+
  ultimately have "hd (nat_dec n) \<noteq> CHR ''-''" "hd (nat_dec n) \<noteq> CHR ''+''" for n by metis+
  then show ?thesis using i d by (auto simp: Atoi_def int_dec_def Let_def)
qed

lemma is_int32_int64: "is_int32 i \<Longrightarrow> is_int64 i"
  by (simp add: is_int32_def is_int64_def)

lemma numeric_parts_dirs:
  "list_all (\<lambda>(i, p). is_int32 i) parts \<Longrightarrow>
   numeric_parts (map (\<lambda>(i, p). PartDir (int_dec i) (f p)) parts) = map (\<lambda>(i, p). (i, f p)) parts"
  by (induction parts) (auto simp: Atoi_int_dec is_int32_int64)

lemma NewFileLog_segment: "file_invar fl \<Longrightarrow> NewFileLog (Inr (segment fl)) = Inr fl"
  by (elim file_invarE) (use rebuild_file_of [where tail = "[]"] in \<open>simp add: NewFileLog_def file_of_def\<close>)

lemma NewFileLog_on_disk:
  "on_disk p \<Longrightarrow> \<exists>fl. NewFileLog (Inr (log_segment (pLog p))) = Inr fl \<and> pLog p = File fl"
  by (auto simp: on_disk_def NewFileLog_segment split: log_impl.splits)

lemma restore_parts_get:
  assumes "list_all (\<lambda>(i, d). is_int32 i \<and> (\<exists>p. on_disk p \<and> d = Inr (log_segment (pLog p)) \<and> g i = pLog p)) ps"
  shows "\<exists>m. restore_parts b t acc ps = Inr m \<and>
    (\<forall>i. map_get m i = (if i \<in> fst ` set ps then Some (newPartition t i (g i) (bIsrTimeout b) (bIsrTick b))
                        else map_get acc i))"
  using assms
proof (induction b t acc ps rule: restore_parts.induct)
  case (2 b t acc idx d ps)
  obtain p where p: "is_int32 idx" "on_disk p" "d = Inr (log_segment (pLog p))" "g idx = pLog p"
    using "2.prems" by auto
  obtain fl where fl: "NewFileLog d = Inr fl" "pLog p = File fl" using NewFileLog_on_disk [OF p(2)] p(3) by blast
  let ?acc = "map_put idx (newPartition t idx (File fl) (bIsrTimeout b) (bIsrTick b)) acc"
  have "restore_parts b t acc ((idx, d) # ps) = restore_parts b t ?acc ps" using fl p(1) by (simp add: int32_id)
  moreover obtain m where "restore_parts b t ?acc ps = Inr m"
    "\<forall>i. map_get m i = (if i \<in> fst ` set ps then Some (newPartition t i (g i) (bIsrTimeout b) (bIsrTick b))
                        else map_get ?acc i)"
    using "2.IH" [OF fl(1)] "2.prems" p(1) by (auto simp: int32_id)
  ultimately show ?case using p fl by (auto simp: go_map)
qed simp

lemma restore_topic_dir:
  assumes "gomap_ok parts" "parts \<noteq> []" "list_all (\<lambda>(i, p). is_int32 i \<and> on_disk p) parts"
  defines "ds \<equiv> numeric_parts (map (\<lambda>(i, p). PartDir (int_dec i) (Inr (log_segment (pLog p)))) parts)"
  shows "\<exists>m. ds \<noteq> [] \<and> restore_parts b t [] (sort_key fst ds) = Inr m \<and>
    (\<forall>i. map_get m i = map_option (\<lambda>p. newPartition t i (pLog p) (bIsrTimeout b) (bIsrTick b)) (map_get parts i))"
proof -
  let ?g = "\<lambda>i. pLog (the (map_get parts i))"
  have ds: "ds = map (\<lambda>(i, p). (i, Inr (log_segment (pLog p)))) parts"
    unfolding ds_def using assms(3) by (intro numeric_parts_dirs) (auto simp: list_all_iff)
  have "list_all (\<lambda>(i, d). is_int32 i \<and> (\<exists>p. on_disk p \<and> d = Inr (log_segment (pLog p)) \<and> ?g i = pLog p)) (sort_key fst ds)"
  proof -
    have "is_int32 i \<and> on_disk p \<and> the (map_get parts i) = p" if "(i, p) \<in> set parts" for i p
      using that assms(1,3) by (auto simp: list_all_iff map_get_in_set [symmetric])
    then show ?thesis by (fastforce simp: list_all_iff ds)
  qed
  from restore_parts_get [OF this, of b t "[]"] obtain m where m: "restore_parts b t [] (sort_key fst ds) = Inr m"
    "\<forall>i. map_get m i = (if i \<in> fst ` set ds then Some (newPartition t i (?g i) (bIsrTimeout b) (bIsrTick b)) else None)"
    by auto
  have "fst ` set ds = fst ` set parts" unfolding ds by force
  then have "map_get m i = map_option (\<lambda>p. newPartition t i (pLog p) (bIsrTimeout b) (bIsrTick b)) (map_get parts i)" for i
    using m(2) by (cases "map_get parts i") (force simp: map_of_eq_None_iff dest: map_of_SomeD)+
  then show ?thesis using m(1) assms(2) ds by auto
qed

lemma restore_topics_get:
  assumes "gomap_ok ts" "list_all (\<lambda>(t, parts). gomap_ok parts \<and> parts \<noteq> []
     \<and> list_all (\<lambda>(i, p). is_int32 i \<and> on_disk p) parts) ts"
    and "bIsrTimeout b = x" "bIsrTick b = y"
  shows "\<exists>b'. restore_topics b (map (\<lambda>(t, parts). TopicDir t (Inr (map (\<lambda>(i, p).
      PartDir (int_dec i) (Inr (log_segment (pLog p)))) parts))) ts) = Inr b' \<and>
    (\<forall>t i. getPartition b' t i = (case map_get ts t of
        None \<Rightarrow> getPartition b t i
      | Some parts \<Rightarrow> (case map_get parts i of None \<Rightarrow> Inl (Status NotFound)
          | Some p \<Rightarrow> Inr (newPartition t i (pLog p) x y))))"
  using assms
proof (induction ts arbitrary: b)
  case (Cons tp ts)
  obtain t parts where tp: "tp = (t, parts)" by force
  obtain m where m: "restore_parts b t [] (sort_key fst (numeric_parts (map (\<lambda>(i, p). PartDir (int_dec i) (Inr (log_segment (pLog p)))) parts))) = Inr m"
    "numeric_parts (map (\<lambda>(i, p). PartDir (int_dec i) (Inr (log_segment (pLog p)))) parts) \<noteq> []"
    "\<forall>i. map_get m i = map_option (\<lambda>p. newPartition t i (pLog p) x y) (map_get parts i)"
    using restore_topic_dir [of parts b t] Cons.prems(2-4) tp by auto
  let ?b = "b\<lparr>bTopics := map_put t m (bTopics b)\<rparr>"
  have ok: "gomap_ok ts" "t \<notin> fst ` set ts" using Cons.prems(1) tp by (auto simp: gomap_ok_def)
  obtain b' where b': "restore_topics ?b (map (\<lambda>(t, parts). TopicDir t (Inr (map (\<lambda>(i, p).
      PartDir (int_dec i) (Inr (log_segment (pLog p)))) parts))) ts) = Inr b'"
    "\<forall>t i. getPartition b' t i = (case map_get ts t of
        None \<Rightarrow> getPartition ?b t i
      | Some parts \<Rightarrow> (case map_get parts i of None \<Rightarrow> Inl (Status NotFound)
          | Some p \<Rightarrow> Inr (newPartition t i (pLog p) x y)))"
    using Cons.IH [OF ok(1), of ?b] Cons.prems(2-4) by auto
  have "map_get ts t = None" using ok(2) by (simp add: map_of_eq_None_iff)
  then show ?case
    using b' m tp by (auto simp: getPartition_put Let_def split: option.splits)
qed (simp add: getPartition_def)


definition disk_broker :: broker where
  "disk_broker = broker_run (\<lambda>_ _. Inr []) (\<lambda>_. True) ((New 1)\<lparr>bDataDir := ''d''\<rparr>)
     [RpcCreateTopic \<lparr>ctTopic = ''t'', ctPartitions = 2, ctReplicationFactor = 1\<rparr>]"


section \<open>Finding the coordinator again\<close>

lemma reconnect_loop_find:
  "fst (reconnect_loop dial hb req peers) = find (\<lambda>a. dial a \<and> hb a req) peers"
  by (induction peers) (auto split: prod.splits)

text \<open>
  After a failed heartbeat the broker moves to the first of the known coordinators that can be
  dialled and accepts its heartbeat, and registers there last; if there is none it keeps the
  client it has; its partitions are not touched.
\<close>

lemma sendHeartbeat_finds_coordinator:
  assumes "bCoordClient b = Some c" "\<not> hb c (heartbeat_of b)"
  shows "case find (\<lambda>a. dial a \<and> hb a (heartbeat_of b)) (bCoordPeers b) of
      None \<Rightarrow> fst (sendHeartbeat dial hb b) = b
        \<and> (\<forall>peer addr i. CallRegisterBroker peer addr i \<notin> set (snd (sendHeartbeat dial hb b)))
    | Some peer \<Rightarrow> fst (sendHeartbeat dial hb b) = b\<lparr>bCoordConn := Some peer, bCoordClient := Some peer\<rparr>
        \<and> last (snd (sendHeartbeat dial hb b)) = CallRegisterBroker peer (bSelfAddr b) (bId b)"
proof -
  have no: "CallRegisterBroker peer addr i \<notin> set (snd (reconnect_loop dial hb req peers))" for peer addr i req peers
    by (induction peers) (auto split: prod.splits)
  obtain r calls where loop: "reconnect_loop dial hb (heartbeat_of b) (bCoordPeers b) = (r, calls)" by force
  have r: "find (\<lambda>a. dial a \<and> hb a (heartbeat_of b)) (bCoordPeers b) = r"
    using reconnect_loop_find [of dial hb "heartbeat_of b" "bCoordPeers b"] loop by simp
  have calls: "CallRegisterBroker peer addr i \<notin> set calls" for peer addr i
    using no [of peer addr i "heartbeat_of b" "bCoordPeers b"] loop by simp
  show ?thesis
    unfolding r using assms loop calls
    by (cases r) (auto simp: sendHeartbeat_def reconnectCoordinator_def coordClientSafe_def Let_def)
qed

lemma sendHeartbeat_finds_coordinator_witness:
  "fst (sendHeartbeat (\<lambda>_. True) (\<lambda>a _. a = ''c2'')
      (demo_broker\<lparr>bCoordClient := Some ''c1'', bCoordPeers := [''c1'', ''c2'']\<rparr>))
   = demo_broker\<lparr>bCoordPeers := [''c1'', ''c2''], bCoordConn := Some ''c2'', bCoordClient := Some ''c2''\<rparr>"
  using sendHeartbeat_finds_coordinator [of "demo_broker\<lparr>bCoordClient := Some ''c1'', bCoordPeers := [''c1'', ''c2'']\<rparr>"
      "''c1''" "\<lambda>a _. a = ''c2''" "\<lambda>_. True"] by simp

end
