(* ===== verification/Coordinator.thy ===== *)
theory Coordinator
  imports Assignment Raft_FSM Broker
begin

text \<open>
  The coordinator, src/internal/coordinator/coordinator.go: the broker registry, the topics, the
  consumer groups with their committed offsets, and the failover of partitions whose primary has
  gone silent.  A handler takes the coordinator and the request and returns the changed coordinator,
  the remote calls it makes to brokers in order (their results are ignored by the code) and its
  response or status.  The clock is the argument \<open>now\<close>; \<open>raft\<close> says what the Raft library does with
  a submitted command; \<open>dial\<close> says whether dialling an address succeeds.
\<close>

record partition_info =
  piPartition :: int
  piBrokerAddr :: string

record raft_node =
  rnFSM :: fsm
  rnIsLeader :: bool

record coordinator =
  cBrokers :: "string list"
  cBrokerIDs :: "(string, int) gomap"
  cBrokerAddrs :: "(int, string) gomap"
  cTopics :: "(string, partition_info list) gomap"
  cGroups :: "(string, (string, int list) gomap) gomap"
  cOffsets :: "(string \<times> string \<times> int, int) gomap"
  cBrokerConns :: "(string, string) gomap"
  cRaft :: "raft_node option"
  cLastSeen :: "(int, int) gomap"
  cBrokerLEO :: "(int \<times> string \<times> int, int) gomap"
  cLeaderSince :: int
  cTick :: int
  cDeadAfter :: int
  cGrace :: int

record partition_assignment =
  paPartition :: int
  paPrimary :: string
  paBackups :: "string list"

datatype broker_call =
    CallInitPartitions string init_partitions_request
  | CallAssignRole string assign_role_request

definition defaultHeartbeatTick :: int where
  "defaultHeartbeatTick = 2 * second"

definition defaultDeadAfter :: int where
  "defaultDeadAfter = 10 * second"

definition defaultLeaderGrace :: int where
  "defaultLeaderGrace = 3 * second"

definition coordinator_New :: coordinator where
  "coordinator_New = \<lparr>cBrokers = [], cBrokerIDs = [], cBrokerAddrs = [], cTopics = [], cGroups = [],
     cOffsets = [], cBrokerConns = [], cRaft = None, cLastSeen = [], cBrokerLEO = [], cLeaderSince = 0,
     cTick = defaultHeartbeatTick, cDeadAfter = defaultDeadAfter, cGrace = defaultLeaderGrace\<rparr>"

definition NewWithRaft :: "raft_node \<Rightarrow> coordinator" where
  "NewWithRaft node = coordinator_New\<lparr>cRaft := Some node\<rparr>"

definition SetFailoverTimings :: "coordinator \<Rightarrow> int \<Rightarrow> int \<Rightarrow> int \<Rightarrow> coordinator" where
  "SetFailoverTimings c tick deadAfter grace = c\<lparr>cTick := tick, cDeadAfter := deadAfter, cGrace := grace\<rparr>"

text \<open>\<open>c.raftNode != nil && !c.raftNode.IsLeader()\<close>, the guard of five handlers.\<close>

definition notLeader :: "coordinator \<Rightarrow> bool" where
  "notLeader c \<longleftrightarrow> (case cRaft c of None \<Rightarrow> False | Some n \<Rightarrow> \<not> rnIsLeader n)"

definition fsm_of :: "coordinator \<Rightarrow> fsm" where
  "fsm_of c = (case cRaft c of None \<Rightarrow> newFSM | Some n \<Rightarrow> rnFSM n)"

text \<open>\<open>c.raftNode.Apply\<close> on the coordinator's node.\<close>

definition raft_Apply :: "(bytes \<Rightarrow> raft_outcome) \<Rightarrow> coordinator \<Rightarrow> command \<Rightarrow> coordinator \<times> unit result" where
  "raft_Apply raft c cmd = (case cRaft c of
      None \<Rightarrow> (c, Inl GoPanic)
    | Some n \<Rightarrow> (case Node_Apply raft (rnFSM n) cmd of (f, r) \<Rightarrow> (c\<lparr>cRaft := Some (n\<lparr>rnFSM := f\<rparr>)\<rparr>, r)))"

subsection \<open>Brokers\<close>

record register_request =
  rgAddr :: string
  rgId :: int

definition RegisterBroker :: "(string \<Rightarrow> bool) \<Rightarrow> coordinator \<Rightarrow> register_request \<Rightarrow> coordinator \<times> unit result" where
  "RegisterBroker dial c req =
     (if rgAddr req = '''' then (c, Inl (Status InvalidArgument))
      else if rgAddr req \<in> set (cBrokers c) then (c, Inr ())
      else let c1 = c\<lparr>cBrokers := cBrokers c @ [rgAddr req],
                      cBrokerIDs := map_put (rgAddr req) (rgId req) (cBrokerIDs c),
                      cBrokerAddrs := map_put (rgId req) (rgAddr req) (cBrokerAddrs c)\<rparr>;
               c2 = (if map_get (cBrokerConns c1) (rgAddr req) = None \<and> dial (rgAddr req)
                     then c1\<lparr>cBrokerConns := map_put (rgAddr req) (rgAddr req) (cBrokerConns c1)\<rparr> else c1)
           in (c2, Inr ()))"

definition brokerClient :: "coordinator \<Rightarrow> string \<Rightarrow> string option" where
  "brokerClient c addr = map_get (cBrokerConns c) addr"

definition brokerAlive :: "int \<Rightarrow> coordinator \<Rightarrow> string \<Rightarrow> bool" where
  "brokerAlive now c addr = (case map_get (cBrokerIDs c) addr of
      None \<Rightarrow> False
    | Some i \<Rightarrow> if cLastSeen c = [] then True
               else (case map_get (cLastSeen c) i of None \<Rightarrow> False | Some ts \<Rightarrow> now - ts \<le> cDeadAfter c))"

subsection \<open>Calls to brokers\<close>

text \<open>The loop that appends the partition to the entry of its broker in \<open>byBroker\<close>.\<close>

definition group_add :: "string \<Rightarrow> int \<Rightarrow> (string, int list) gomap \<Rightarrow> (string, int list) gomap" where
  "group_add addr pid m = map_put addr ((case map_get m addr of None \<Rightarrow> [] | Some ps \<Rightarrow> ps) @ [pid]) m"

definition init_calls :: "coordinator \<Rightarrow> string \<Rightarrow> (string, int list) gomap \<Rightarrow> broker_call list" where
  "init_calls c topic byBroker = concat (map (\<lambda>(addr, pids). case brokerClient c addr of
      None \<Rightarrow> []
    | Some cl \<Rightarrow> [CallInitPartitions cl \<lparr>ipTopic = topic, ipPartitions = pids\<rparr>]) byBroker)"

definition initPartitions :: "coordinator \<Rightarrow> string \<Rightarrow> partition_info list \<Rightarrow> broker_call list" where
  "initPartitions c topic parts =
     init_calls c topic (fold (\<lambda>p m. group_add (piBrokerAddr p) (piPartition p) m) parts [])"

definition initBackupPartitions :: "coordinator \<Rightarrow> string \<Rightarrow> partition_assignment list \<Rightarrow> broker_call list" where
  "initBackupPartitions c topic assignments =
     init_calls c topic (fold (\<lambda>a m. fold (\<lambda>backup m. group_add backup (paPartition a) m) (paBackups a) m) assignments [])"

definition leader_calls :: "coordinator \<Rightarrow> string \<Rightarrow> int \<Rightarrow> partition_assignment \<Rightarrow> broker_call list" where
  "leader_calls c topic epoch a = (case brokerClient c (paPrimary a) of
      None \<Rightarrow> []
    | Some cl \<Rightarrow> [CallAssignRole cl \<lparr>arTopic = topic, arPartition = paPartition a, arRole = LEADER,
        arLeaderId = 0, arLeaderAddr = '''', arEpoch = epoch,
        arIsrIds = List.map_filter (\<lambda>addr. map_get (cBrokerIDs c) addr) (paBackups a)\<rparr>])"

definition assignLeaderRoles :: "coordinator \<Rightarrow> string \<Rightarrow> partition_assignment list \<Rightarrow> int \<Rightarrow> broker_call list" where
  "assignLeaderRoles c topic assignments epoch = concat (map (leader_calls c topic epoch) assignments)"

definition follower_calls :: "int \<Rightarrow> coordinator \<Rightarrow> string \<Rightarrow> int \<Rightarrow> partition_assignment \<Rightarrow> broker_call list" where
  "follower_calls now c topic epoch a = (case map_get (cBrokerIDs c) (paPrimary a) of
      None \<Rightarrow> []
    | Some leaderID \<Rightarrow> concat (map (\<lambda>backupAddr.
        if \<not> brokerAlive now c backupAddr then []
        else (case brokerClient c backupAddr of
           None \<Rightarrow> []
         | Some cl \<Rightarrow> [CallAssignRole cl \<lparr>arTopic = topic, arPartition = paPartition a, arRole = FOLLOWER,
             arLeaderId = leaderID, arLeaderAddr = paPrimary a, arEpoch = epoch, arIsrIds = []\<rparr>])) (paBackups a)))"

definition assignFollowerRoles :: "int \<Rightarrow> coordinator \<Rightarrow> string \<Rightarrow> partition_assignment list \<Rightarrow> int \<Rightarrow> broker_call list" where
  "assignFollowerRoles now c topic assignments epoch = concat (map (follower_calls now c topic epoch) assignments)"

subsection \<open>Topics\<close>

definition make_assignments :: "string list \<Rightarrow> int \<Rightarrow> partition_assignment list" where
  "make_assignments brokers n = map (\<lambda>i.
     let primary = brokers ! (i mod length brokers)
     in \<lparr>paPartition = int32 (int i), paPrimary = primary,
         paBackups = selectBackups brokers primary (int (length brokers) - 1)\<rparr>) [0..<nat n]"

definition assign_command :: "string \<Rightarrow> partition_assignment \<Rightarrow> command" where
  "assign_command topic a = \<lparr>cmdType = CmdAssign, cmdTopic = topic, cmdPartition = paPartition a,
     cmdPrimary = paPrimary a, cmdBackups = paBackups a, cmdEpoch = 1, cmdISR = []\<rparr>"

fun apply_assignments :: "(bytes \<Rightarrow> raft_outcome) \<Rightarrow> coordinator \<Rightarrow> string \<Rightarrow> partition_assignment list \<Rightarrow>
    coordinator \<times> unit result" where
  "apply_assignments raft c topic [] = (c, Inr ())"
| "apply_assignments raft c topic (a # as) = (case raft_Apply raft c (assign_command topic a) of
      (c', Inl e) \<Rightarrow> (c', Inl (Status Internal))
    | (c', Inr _) \<Rightarrow> apply_assignments raft c' topic as)"

definition coordinator_CreateTopic :: "(bytes \<Rightarrow> raft_outcome) \<Rightarrow> int \<Rightarrow> coordinator \<Rightarrow> create_topic_request \<Rightarrow>
    coordinator \<times> broker_call list \<times> unit result" where
  "coordinator_CreateTopic raft now c req =
     (if ctTopic req = '''' then (c, [], Inl (Status InvalidArgument))
      else if ctPartitions req \<le> 0 then (c, [], Inl (Status InvalidArgument))
      else if notLeader c then (c, [], Inl (Status FailedPrecondition))
      else if map_get (cTopics c) (ctTopic req) \<noteq> None then (c, [], Inl (Status AlreadyExists))
      else if cBrokers c = [] then (c, [], Inl (Status FailedPrecondition))
      else let assignments = make_assignments (cBrokers c) (ctPartitions req);
               parts = map (\<lambda>a. \<lparr>piPartition = paPartition a, piBrokerAddr = paPrimary a\<rparr>) assignments;
               c1 = c\<lparr>cTopics := map_put (ctTopic req) parts (cTopics c)\<rparr>
           in case (if cRaft c1 = None then (c1, Inr ()) else apply_assignments raft c1 (ctTopic req) assignments) of
                (c2, Inl e) \<Rightarrow> (c2, [], Inl e)
              | (c2, Inr _) \<Rightarrow>
                 (c2, initPartitions c2 (ctTopic req) parts @ initBackupPartitions c2 (ctTopic req) assignments
                      @ assignLeaderRoles c2 (ctTopic req) assignments 1
                      @ assignFollowerRoles now c2 (ctTopic req) assignments 1, Inr ()))"

definition GetMetadata :: "coordinator \<Rightarrow> string \<Rightarrow> partition_info list result" where
  "GetMetadata c topic = (case cRaft c of
      Some n \<Rightarrow>
       (let (byPart, ok) = GetTopic (rnFSM n) topic
        in if \<not> ok then Inl (Status NotFound)
           else Inr (sort_key piPartition (map (\<lambda>(idx, ps). \<lparr>piPartition = idx, piBrokerAddr = psPrimary ps\<rparr>) byPart)))
    | None \<Rightarrow> (case map_get (cTopics c) topic of None \<Rightarrow> Inl (Status NotFound) | Some parts \<Rightarrow> Inr parts))"

subsection \<open>Consumer groups\<close>

record join_group_request =
  jgGroupId :: string
  jgMemberId :: string
  jgTopic :: string

fun rebalance :: "int \<Rightarrow> int \<Rightarrow> nat \<Rightarrow> string list \<Rightarrow> (string, int list) gomap \<Rightarrow> (string, int list) gomap result" where
  "rebalance n tot i [] grp = Inr grp"
| "rebalance n tot i (m # ms) grp = (case partitionRange (int32 (int i)) n tot of
      Inl e \<Rightarrow> Inl e
    | Inr r \<Rightarrow> rebalance n tot (i + 1) ms (map_put m r grp))"

definition JoinGroup :: "coordinator \<Rightarrow> join_group_request \<Rightarrow> coordinator \<times> int list result" where
  "JoinGroup c req =
     (if jgGroupId req = '''' \<or> jgMemberId req = '''' \<or> jgTopic req = '''' then (c, Inl (Status InvalidArgument))
      else case map_get (cTopics c) (jgTopic req) of
        None \<Rightarrow> (c, Inl (Status NotFound))
      | Some parts \<Rightarrow>
         (let grp = (case map_get (cGroups c) (jgGroupId req) of None \<Rightarrow> [] | Some g \<Rightarrow> g);
              grp = (if map_get grp (jgMemberId req) = None then map_put (jgMemberId req) [] grp else grp);
              members = sortedKeys grp
          in case rebalance (int32 (int (length members))) (int32 (int (length parts))) 0 members grp of
               Inl e \<Rightarrow> (c, Inl e)
             | Inr g \<Rightarrow> (c\<lparr>cGroups := map_put (jgGroupId req) g (cGroups c)\<rparr>,
                 Inr (case map_get g (jgMemberId req) of None \<Rightarrow> [] | Some ps \<Rightarrow> ps))))"

record commit_offsets_request =
  coGroupId :: string
  coTopic :: string
  coOffsets :: "(int \<times> int) list"

definition CommitOffsets :: "coordinator \<Rightarrow> commit_offsets_request \<Rightarrow> coordinator" where
  "CommitOffsets c req = c\<lparr>cOffsets :=
     fold (\<lambda>(p, off) m. map_put (coGroupId req, coTopic req, p) off m) (coOffsets req) (cOffsets c)\<rparr>"

subsection \<open>Leaders and ISRs\<close>

record update_leader_request =
  ulTopic :: string
  ulPartition :: int
  ulBrokerAddr :: string

definition remaining_backups :: "partition_state \<Rightarrow> string \<Rightarrow> string list" where
  "remaining_backups ps addr = filter (\<lambda>b. b \<noteq> addr) (psBackups ps) @ (if psPrimary ps \<noteq> addr then [psPrimary ps] else [])"

definition new_layout :: "fsm \<Rightarrow> update_leader_request \<Rightarrow> int \<times> string list" where
  "new_layout f req = (case FSM_Get f (ulTopic req) (ulPartition req) of
      None \<Rightarrow> (1, [])
    | Some ps \<Rightarrow> (int64 (psEpoch ps + 1), remaining_backups ps (ulBrokerAddr req)))"

definition leader_command :: "update_leader_request \<Rightarrow> int \<Rightarrow> string list \<Rightarrow> command" where
  "leader_command req newEpoch backups = \<lparr>cmdType = CmdUpdateLeader, cmdTopic = ulTopic req,
     cmdPartition = ulPartition req, cmdPrimary = ulBrokerAddr req, cmdBackups = backups,
     cmdEpoch = newEpoch, cmdISR = []\<rparr>"

definition UpdatePartitionLeader :: "(bytes \<Rightarrow> raft_outcome) \<Rightarrow> int \<Rightarrow> coordinator \<Rightarrow> update_leader_request \<Rightarrow>
    coordinator \<times> broker_call list \<times> unit result" where
  "UpdatePartitionLeader raft now c req =
     (if ulTopic req = '''' \<or> ulBrokerAddr req = '''' then (c, [], Inl (Status InvalidArgument))
      else if notLeader c then (c, [], Inl (Status FailedPrecondition))
      else let (newEpoch, remainingBackups) = (if cRaft c = None then (1, []) else new_layout (fsm_of c) req)
           in case (if cRaft c = None then (c, Inr ())
                    else raft_Apply raft c (leader_command req newEpoch remainingBackups)) of
                (c1, Inl e) \<Rightarrow> (c1, [], Inl (Status Internal))
              | (c1, Inr _) \<Rightarrow>
                 (case map_get (cTopics c1) (ulTopic req) of
                    None \<Rightarrow> (c1, [], Inl (Status NotFound))
                  | Some parts \<Rightarrow>
                     if ulPartition req < 0 \<or> ulPartition req \<ge> int (length parts)
                     then (c1, [], Inl (Status InvalidArgument))
                     else let i = nat (ulPartition req);
                              c2 = c1\<lparr>cTopics := map_put (ulTopic req)
                                       (parts[i := (parts ! i)\<lparr>piBrokerAddr := ulBrokerAddr req\<rparr>]) (cTopics c1)\<rparr>;
                              a = \<lparr>paPartition = ulPartition req, paPrimary = ulBrokerAddr req, paBackups = remainingBackups\<rparr>
                          in (c2, assignLeaderRoles c2 (ulTopic req) [a] newEpoch
                                  @ assignFollowerRoles now c2 (ulTopic req) [a] newEpoch, Inr ())))"

record alter_isr_request =
  aiTopic :: string
  aiPartition :: int
  aiEpoch :: int
  aiIsrIds :: "int list"

definition isr_command :: "alter_isr_request \<Rightarrow> command" where
  "isr_command req = \<lparr>cmdType = CmdUpdateISR, cmdTopic = aiTopic req, cmdPartition = aiPartition req,
     cmdPrimary = '''', cmdBackups = [], cmdEpoch = aiEpoch req, cmdISR = aiIsrIds req\<rparr>"

definition AlterIsr :: "(bytes \<Rightarrow> raft_outcome) \<Rightarrow> coordinator \<Rightarrow> alter_isr_request \<Rightarrow> coordinator \<times> unit result" where
  "AlterIsr raft c req =
     (if aiTopic req = '''' then (c, Inl (Status InvalidArgument))
      else if notLeader c then (c, Inl (Status FailedPrecondition))
      else if cRaft c = None then (c, Inr ())
      else if (case FSM_Get (fsm_of c) (aiTopic req) (aiPartition req) of
                 None \<Rightarrow> False | Some ps \<Rightarrow> aiEpoch req < psEpoch ps) then (c, Inr ())
      else case raft_Apply raft c (isr_command req) of
             (c1, Inl e) \<Rightarrow> (c1, Inl (Status Internal))
           | (c1, Inr _) \<Rightarrow> (c1, Inr ()))"

subsection \<open>Liveness and failover\<close>

definition topic_assignments :: "string \<Rightarrow> (int, partition_state) gomap \<Rightarrow> partition_assignment list" where
  "topic_assignments addr byPart = map (\<lambda>(i, ps). \<lparr>paPartition = i, paPrimary = psPrimary ps, paBackups = psBackups ps\<rparr>)
     (filter (\<lambda>(i, ps). addr \<in> set (psBackups ps)) byPart)"

definition rejoinReturningBroker :: "int \<Rightarrow> coordinator \<Rightarrow> int \<Rightarrow> broker_call list" where
  "rejoinReturningBroker now c brokerID = (case map_get (cBrokerAddrs c) brokerID of
      None \<Rightarrow> []
    | Some addr \<Rightarrow> concat (map (\<lambda>topic.
        let (byPart, ok) = GetTopic (fsm_of c) topic
        in if \<not> ok then []
           else assignFollowerRoles now c topic (topic_assignments addr byPart) 0) (AllTopics (fsm_of c))))"

definition Heartbeat :: "int \<Rightarrow> coordinator \<Rightarrow> heartbeat_request \<Rightarrow> coordinator \<times> broker_call list \<times> unit result" where
  "Heartbeat now c req =
     (if notLeader c then (c, [], Inl (Status FailedPrecondition))
      else let wasDead = (case map_get (cLastSeen c) (hbBrokerId req) of
                            None \<Rightarrow> False | Some prev \<Rightarrow> now - prev > cDeadAfter c);
               c1 = c\<lparr>cLastSeen := map_put (hbBrokerId req) now (cLastSeen c),
                      cBrokerLEO := fold (\<lambda>leo m. map_put (hbBrokerId req, plTopic leo, plPartition leo)
                        (plLogEndOffset leo) m) (hbPartitionLeos req) (cBrokerLEO c)\<rparr>
           in (c1, if wasDead \<and> cRaft c1 \<noteq> None then rejoinReturningBroker now c1 (hbBrokerId req) else [], Inr ()))"

fun pick_loop :: "int \<Rightarrow> coordinator \<Rightarrow> string \<Rightarrow> int \<Rightarrow> string \<Rightarrow> int \<Rightarrow> string list \<Rightarrow> string" where
  "pick_loop now c topic part bestAddr bestLEO [] = bestAddr"
| "pick_loop now c topic part bestAddr bestLEO (addr # addrs) =
     (case map_get (cBrokerIDs c) addr of
        None \<Rightarrow> pick_loop now c topic part bestAddr bestLEO addrs
      | Some i \<Rightarrow>
         (case map_get (cLastSeen c) i of
            None \<Rightarrow> pick_loop now c topic part bestAddr bestLEO addrs
          | Some ts \<Rightarrow>
             if now - ts > cDeadAfter c then pick_loop now c topic part bestAddr bestLEO addrs
             else let leo = (case map_get (cBrokerLEO c) (i, topic, part) of None \<Rightarrow> 0 | Some l \<Rightarrow> l)
                  in if leo > bestLEO then pick_loop now c topic part addr leo addrs
                     else pick_loop now c topic part bestAddr bestLEO addrs))"

definition pickNewLeader :: "int \<Rightarrow> coordinator \<Rightarrow> string \<Rightarrow> int \<Rightarrow> string list \<Rightarrow> string option" where
  "pickNewLeader now c topic part backups =
     (let bestAddr = pick_loop now c topic part '''' (-1) backups
      in if bestAddr = '''' then None else Some bestAddr)"

fun failover_parts :: "(bytes \<Rightarrow> raft_outcome) \<Rightarrow> int \<Rightarrow> string \<Rightarrow> string \<Rightarrow> coordinator \<Rightarrow> (int, partition_state) gomap \<Rightarrow>
    coordinator \<times> broker_call list" where
  "failover_parts raft now deadAddr topic c [] = (c, [])"
| "failover_parts raft now deadAddr topic c ((part, ps) # rest) =
     (if psPrimary ps \<noteq> deadAddr then failover_parts raft now deadAddr topic c rest
      else case pickNewLeader now c topic part (psBackups ps) of
        None \<Rightarrow> failover_parts raft now deadAddr topic c rest
      | Some newPrimary \<Rightarrow>
         (let (c1, calls, r) = UpdatePartitionLeader raft now c
                \<lparr>ulTopic = topic, ulPartition = part, ulBrokerAddr = newPrimary\<rparr>;
              (c2, calls') = failover_parts raft now deadAddr topic c1 rest
          in (c2, calls @ calls')))"

fun failover_topics :: "(bytes \<Rightarrow> raft_outcome) \<Rightarrow> int \<Rightarrow> string \<Rightarrow> coordinator \<Rightarrow> string list \<Rightarrow>
    coordinator \<times> broker_call list" where
  "failover_topics raft now deadAddr c [] = (c, [])"
| "failover_topics raft now deadAddr c (topic # topics) =
     (let (byPart, ok) = GetTopic (fsm_of c) topic;
          (c1, calls) = (if \<not> ok then (c, []) else failover_parts raft now deadAddr topic c byPart);
          (c2, calls') = failover_topics raft now deadAddr c1 topics
      in (c2, calls @ calls'))"

definition failOverBrokerPartitions :: "(bytes \<Rightarrow> raft_outcome) \<Rightarrow> int \<Rightarrow> coordinator \<Rightarrow> int \<Rightarrow>
    coordinator \<times> broker_call list" where
  "failOverBrokerPartitions raft now c deadID = (case map_get (cBrokerAddrs c) deadID of
      None \<Rightarrow> (c, [])
    | Some deadAddr \<Rightarrow> if cRaft c = None then (c, [])
        else failover_topics raft now deadAddr c (AllTopics (fsm_of c)))"

text \<open>The second component is the broker whose failover the handler starts in the background.\<close>

definition ReportLeaderUnreachable :: "int \<Rightarrow> coordinator \<Rightarrow> string \<Rightarrow> unit result \<times> int option" where
  "ReportLeaderUnreachable now c leaderAddr =
     (if notLeader c then (Inl (Status FailedPrecondition), None)
      else case map_get (cBrokerIDs c) leaderAddr of
        None \<Rightarrow> (Inr (), None)
      | Some deadID \<Rightarrow>
         (let stale = (case map_get (cLastSeen c) deadID of None \<Rightarrow> True | Some ts \<Rightarrow> now - ts > 2 * cTick c)
          in (Inr (), if stale then Some deadID else None)))"

definition dead_brokers :: "int \<Rightarrow> coordinator \<Rightarrow> int list" where
  "dead_brokers now c = map fst (filter (\<lambda>(i, ts). now - ts > cDeadAfter c) (cLastSeen c))
     @ filter (\<lambda>i. map_get (cLastSeen c) i = None) (go_keys (cBrokerAddrs c))"

definition getTick :: "coordinator \<Rightarrow> int" where
  "getTick c = (if cTick c \<le> 0 then defaultHeartbeatTick else cTick c)"

text \<open>One tick of \<open>runFailoverLoop\<close>; the state of the loop is \<open>wasLeader\<close>.\<close>

definition runFailoverLoop_tick :: "(bytes \<Rightarrow> raft_outcome) \<Rightarrow> int \<Rightarrow> bool \<Rightarrow> coordinator \<Rightarrow>
    bool \<times> coordinator \<times> broker_call list" where
  "runFailoverLoop_tick raft now wasLeader c =
     (if cRaft c = None \<or> notLeader c then (False, c, [])
      else if \<not> wasLeader then (True, c\<lparr>cLeaderSince := now\<rparr>, [])
      else if now - cLeaderSince c < cGrace c then (True, c, [])
      else let (c', calls) = fold (\<lambda>i (c, calls). let (c', calls') = failOverBrokerPartitions raft now c i
                                                  in (c', calls @ calls')) (dead_brokers now c) (c, [])
           in (True, c', calls))"

subsection \<open>Vocabulary of the properties\<close>

text \<open>A backup that \<open>pickNewLeader\<close> takes into account, and the log end it compares.\<close>

definition live_backup :: "int \<Rightarrow> coordinator \<Rightarrow> string \<Rightarrow> bool" where
  "live_backup now c addr = (case map_get (cBrokerIDs c) addr of
      None \<Rightarrow> False
    | Some i \<Rightarrow> (case map_get (cLastSeen c) i of None \<Rightarrow> False | Some ts \<Rightarrow> now - ts \<le> cDeadAfter c))"

definition reported_leo :: "coordinator \<Rightarrow> string \<Rightarrow> int \<Rightarrow> string \<Rightarrow> int" where
  "reported_leo c topic part addr = (case map_get (cBrokerIDs c) addr of
      None \<Rightarrow> 0
    | Some i \<Rightarrow> (case map_get (cBrokerLEO c) (i, topic, part) of None \<Rightarrow> 0 | Some l \<Rightarrow> l))"

text \<open>Names and numbers of an assignment that its JSON encoding keeps, with room for the next epoch.\<close>

definition assignment_ok :: "string \<Rightarrow> int \<Rightarrow> partition_state \<Rightarrow> bool" where
  "assignment_ok t i ps \<longleftrightarrow> t \<noteq> '''' \<and> utf8_valid t \<and> is_int32 i \<and> utf8_valid (psPrimary ps)
     \<and> list_all utf8_valid (psBackups ps) \<and> 0 \<le> psEpoch ps \<and> psEpoch ps + 1 < 2 ^ 63"

definition fsm_ok :: "fsm \<Rightarrow> bool" where
  "fsm_ok f \<longleftrightarrow> gomap_ok (fsmState f) \<and> list_all (\<lambda>((t, i), ps). assignment_ok t i ps) (fsmState f)"

section \<open>Consumer groups\<close>

lemma rebalance_get:
  assumes "0 < n" "0 \<le> tot" "is_int32 n" "is_int32 tot" "distinct ms" "int (i + length ms) \<le> n" "gomap_ok g"
  shows "\<exists>g'. rebalance n tot i ms g = Inr g' \<and> gomap_ok g'
    \<and> (\<forall>j < length ms. map_get g' (ms ! j) =
          Some [range_start (int (i + j)) n tot..range_start (int (i + j) + 1) n tot - 1])
    \<and> (\<forall>m. m \<notin> set ms \<longrightarrow> map_get g' m = map_get g m)"
  using assms(5-7)
proof (induction ms arbitrary: i g)
  case (Cons m ms)
  let ?r = "[range_start (int i) n tot..range_start (int i + 1) n tot - 1]"
  have i32: "int32 (int i) = int i" using Cons.prems(2) assms(3) by (intro int32_id) (simp add: is_int32_def)
  have "partitionRange (int i) n tot = Inr ?r"
    using Cons.prems(2) assms by (intro partitionRange_interval) auto
  then have step: "rebalance n tot i (m # ms) g = rebalance n tot (i + 1) ms (map_put m ?r g)" by (simp add: i32)
  obtain g' where g': "rebalance n tot (i + 1) ms (map_put m ?r g) = Inr g'" "gomap_ok g'"
    "\<forall>j < length ms. map_get g' (ms ! j) =
        Some [range_start (int (i + 1 + j)) n tot..range_start (int (i + 1 + j) + 1) n tot - 1]"
    "\<forall>m'. m' \<notin> set ms \<longrightarrow> map_get g' m' = map_get (map_put m ?r g) m'"
    using Cons.IH [of "i + 1" "map_put m ?r g"] Cons.prems by auto
  have "map_get g' ((m # ms) ! j) = Some [range_start (int (i + j)) n tot..range_start (int (i + j) + 1) n tot - 1]"
    if "j < length (m # ms)" for j
    using that g'(3,4) Cons.prems(1) by (cases j) (auto simp: go_map)
  then show ?case using step g' by (auto simp: go_map)
qed simp

lemma sortedKeys_same:
  assumes "gomap_ok g" "gomap_ok g'" "\<And>m. map_get g' m = None \<longleftrightarrow> map_get g m = None"
  shows "sortedKeys g' = sortedKeys g"
proof -
  have "set (go_keys g') = set (go_keys g)" using assms(3) by (auto simp: map_of_eq_None_iff)
  then show ?thesis
    using assms(1,2) by (intro sorted_distinct_set_unique) (auto simp: sortedKeys_def gomap_ok_def)
qed

lemma rebalance_group:
  assumes "gomap_ok g" "g \<noteq> []" "0 \<le> tot" "is_int32 tot" "is_int32 (int (length g))"
  defines "n \<equiv> int (length g)"
  shows "\<exists>g'. rebalance n tot 0 (sortedKeys g) g = Inr g' \<and> sortedKeys g' = sortedKeys g
    \<and> concat (map (\<lambda>m. the (map_get g' m)) (sortedKeys g)) = [0..tot - 1]
    \<and> (\<forall>m \<in> set (sortedKeys g). \<exists>r. map_get g' m = Some r \<and> int (length r) \<in> {tot div n, tot div n + 1})"
proof -
  let ?ms = "sortedKeys g"
  let ?R = "\<lambda>j. [range_start (int j) n tot..range_start (int j + 1) n tot - 1]"
  have ms: "distinct ?ms" "set ?ms = set (go_keys g)" "length ?ms = length g"
    using sortedKeys_props [OF assms(1)] by (simp_all add: sortedKeys_def)
  have n: "0 < n" "is_int32 n" using assms(2,5) by (simp_all add: n_def)
  obtain g' where g': "rebalance n tot 0 ?ms g = Inr g'" "gomap_ok g'"
    "\<forall>j < length ?ms. map_get g' (?ms ! j) = Some (?R j)" "\<forall>m. m \<notin> set ?ms \<longrightarrow> map_get g' m = map_get g m"
    using rebalance_get [OF n(1) assms(3) n(2) assms(4) ms(1), of 0 g] assms(1) ms(3) by (auto simp: n_def)
  have "map_get g' m = None \<longleftrightarrow> map_get g m = None" for m
  proof (cases "m \<in> set ?ms")
    case True
    then obtain j where "j < length ?ms" "?ms ! j = m" by (auto simp: in_set_conv_nth)
    then have "map_get g' m \<noteq> None" using g'(3) by auto
    moreover have "map_get g m \<noteq> None" using True ms(2) map_get_keys [of g m] by simp
    ultimately show ?thesis by blast
  qed (use g'(4) in simp)
  then have "sortedKeys g' = ?ms" using assms(1) g'(2) by (rule sortedKeys_same [rotated 2])
  moreover have "map (\<lambda>m. the (map_get g' m)) ?ms = map ?R [0..<length ?ms]"
    using g'(3) by (intro nth_equalityI) auto
  then have "concat (map (\<lambda>m. the (map_get g' m)) ?ms) = [0..tot - 1]"
    using ranges_concat [OF n(1) assms(3), of "length g"] range_start_ends [OF n(1) assms(3)] ms(3)
    by (simp add: n_def)
  moreover have "\<forall>m \<in> set ?ms. \<exists>r. map_get g' m = Some r \<and> int (length r) \<in> {tot div n, tot div n + 1}"
    using g'(3) range_length [OF n(1) assms(3)] by (auto simp: in_set_conv_nth simp del: length_upto)
  ultimately show ?thesis using g'(1) by blast
qed

section \<open>The choice of a new leader\<close>

lemma pick_loop_step:
  "pick_loop now c topic part best bl (a # as) =
    (if live_backup now c a \<and> reported_leo c topic part a > bl
     then pick_loop now c topic part a (reported_leo c topic part a) as
     else pick_loop now c topic part best bl as)"
  by (auto simp: live_backup_def reported_leo_def Let_def split: option.splits)

lemma pick_loop_best:
  "(pick_loop now c topic part best bl as = best \<and> (\<forall>b \<in> set as. live_backup now c b \<longrightarrow> reported_leo c topic part b \<le> bl))
   \<or> (\<exists>pre a post. as = pre @ a # post \<and> pick_loop now c topic part best bl as = a \<and> live_backup now c a
        \<and> bl < reported_leo c topic part a
        \<and> (\<forall>b \<in> set pre. live_backup now c b \<longrightarrow> reported_leo c topic part b < reported_leo c topic part a)
        \<and> (\<forall>b \<in> set post. live_backup now c b \<longrightarrow> reported_leo c topic part b \<le> reported_leo c topic part a))"
proof (induction as arbitrary: best bl)
  case (Cons a as)
  let ?l = "reported_leo c topic part"
  show ?case
  proof (cases "live_backup now c a \<and> ?l a > bl")
    case True
    then have s: "pick_loop now c topic part best bl (a # as) = pick_loop now c topic part a (?l a) as"
      unfolding pick_loop_step by (rule if_P)
    from Cons.IH [of a "?l a"] show ?thesis
    proof (elim disjE exE conjE)
      assume "pick_loop now c topic part a (?l a) as = a" "\<forall>b \<in> set as. live_backup now c b \<longrightarrow> ?l b \<le> ?l a"
      then show ?thesis using True s by (intro disjI2 exI [of _ "[]"] exI [of _ a] exI [of _ as]) auto
    next
      fix pre x post
      assume x: "as = pre @ x # post" "pick_loop now c topic part a (?l a) as = x" "live_backup now c x" "?l a < ?l x"
        "\<forall>b \<in> set pre. live_backup now c b \<longrightarrow> ?l b < ?l x" "\<forall>b \<in> set post. live_backup now c b \<longrightarrow> ?l b \<le> ?l x"
      then show ?thesis using True s by (intro disjI2 exI [of _ "a # pre"] exI [of _ x] exI [of _ post]) auto
    qed
  next
    case False
    then have s: "pick_loop now c topic part best bl (a # as) = pick_loop now c topic part best bl as"
      unfolding pick_loop_step by (rule if_not_P)
    from Cons.IH [of best bl] show ?thesis
    proof (elim disjE exE conjE)
      assume "pick_loop now c topic part best bl as = best" "\<forall>b \<in> set as. live_backup now c b \<longrightarrow> ?l b \<le> bl"
      then show ?thesis using False s by (intro disjI1) auto
    next
      fix pre x post
      assume "as = pre @ x # post" "pick_loop now c topic part best bl as = x" "live_backup now c x" "bl < ?l x"
        "\<forall>b \<in> set pre. live_backup now c b \<longrightarrow> ?l b < ?l x" "\<forall>b \<in> set post. live_backup now c b \<longrightarrow> ?l b \<le> ?l x"
      then show ?thesis using False s by (intro disjI2 exI [of _ "a # pre"] exI [of _ x] exI [of _ post]) auto
    qed
  qed
qed simp

section \<open>Commands through Raft\<close>

lemma raft_Apply_committed:
  assumes "cRaft c = Some n" "command_ok cmd" "raft (Marshal_command cmd) = Committed"
  shows "raft_Apply raft c cmd = (c\<lparr>cRaft := Some (n\<lparr>rnFSM := FSM_applyCommand (rnFSM n) cmd\<rparr>)\<rparr>, Inr ())"
  using assms by (simp add: raft_Apply_def Node_Apply_cases)

lemma utf8_valid_Nil [simp]: "utf8_valid []" by simp

lemma remaining_backups_set:
  "set (addr # remaining_backups ps addr) = insert addr (set (psPrimary ps # psBackups ps))"
  by (auto simp: remaining_backups_def)

lemma leader_command_ok:
  assumes "assignment_ok t i ps" "utf8_valid addr"
  shows "command_ok (leader_command \<lparr>ulTopic = t, ulPartition = i, ulBrokerAddr = addr\<rparr>
    (psEpoch ps + 1) (remaining_backups ps addr))"
  using assms by (auto simp: assignment_ok_def command_ok_def leader_command_def CmdUpdateLeader_def
      remaining_backups_def is_int64_def list_all_iff)

text \<open>
  What the election of a leader leaves alone, and what it does to the assignments when the entry is
  committed, whether or not the rest of the handler succeeds.
\<close>

definition same_registry :: "coordinator \<Rightarrow> coordinator \<Rightarrow> bool" where
  "same_registry c c' \<longleftrightarrow> cBrokerIDs c' = cBrokerIDs c \<and> cBrokerAddrs c' = cBrokerAddrs c
     \<and> cLastSeen c' = cLastSeen c \<and> cBrokerLEO c' = cBrokerLEO c \<and> cDeadAfter c' = cDeadAfter c
     \<and> notLeader c' = notLeader c \<and> (cRaft c' = None \<longleftrightarrow> cRaft c = None)"

lemma same_registry_refl [simp]: "same_registry c c"
  by (simp add: same_registry_def)

lemma same_registry_trans: "same_registry a b \<Longrightarrow> same_registry b c \<Longrightarrow> same_registry a c"
  by (simp add: same_registry_def)

lemma pick_loop_registry:
  "same_registry c c' \<Longrightarrow> pick_loop now c' t i best bl as = pick_loop now c t i best bl as"
  by (induction as arbitrary: best bl) (simp_all add: same_registry_def split: option.splits)

lemma pickNewLeader_registry: "same_registry c c' \<Longrightarrow> pickNewLeader now c' t i as = pickNewLeader now c t i as"
  by (simp add: pickNewLeader_def pick_loop_registry)

lemma UpdatePartitionLeader_committed:
  assumes "\<not> notLeader c" "cRaft c \<noteq> None" "FSM_Get (fsm_of c) t i = Some ps" "assignment_ok t i ps"
    and "addr \<noteq> ''''" "utf8_valid addr" "\<And>d. raft d = Committed"
    and "UpdatePartitionLeader raft now c \<lparr>ulTopic = t, ulPartition = i, ulBrokerAddr = addr\<rparr> = (c', calls, r)"
  shows "same_registry c c'"
    and "fsm_of c' = FSM_applyCommand (fsm_of c) (leader_command \<lparr>ulTopic = t, ulPartition = i, ulBrokerAddr = addr\<rparr>
      (psEpoch ps + 1) (remaining_backups ps addr))"
proof -
  let ?req = "\<lparr>ulTopic = t, ulPartition = i, ulBrokerAddr = addr\<rparr>"
  let ?cmd = "leader_command ?req (psEpoch ps + 1) (remaining_backups ps addr)"
  obtain n where n: "cRaft c = Some n" using assms(2) by blast
  have "int64 (psEpoch ps + 1) = psEpoch ps + 1"
    using assms(4) by (intro int64_id) (simp add: assignment_ok_def is_int64_def)
  then have lay: "new_layout (fsm_of c) ?req = (psEpoch ps + 1, remaining_backups ps addr)"
    using assms(3) by (simp add: new_layout_def)
  let ?c1 = "c\<lparr>cRaft := Some (n\<lparr>rnFSM := FSM_applyCommand (rnFSM n) ?cmd\<rparr>)\<rparr>"
  have ap: "raft_Apply raft c ?cmd = (?c1, Inr ())"
    using n assms(7) leader_command_ok [OF assms(4,6)] by (intro raft_Apply_committed) auto
  have c': "c' = ?c1 \<or> (\<exists>ts. c' = ?c1\<lparr>cTopics := ts\<rparr>)"
    using assms(1,2,4,5,8) n lay ap
    by (auto simp: UpdatePartitionLeader_def assignment_ok_def Let_def split: option.splits if_splits)
  then show "same_registry c c'" "fsm_of c' = FSM_applyCommand (fsm_of c) ?cmd"
    using n by (auto simp: same_registry_def notLeader_def fsm_of_def)
qed

lemma fsm_ok_get: "fsm_ok f \<Longrightarrow> FSM_Get f t i = Some ps \<Longrightarrow> assignment_ok t i ps"
  using list_all_get [of "\<lambda>((t, i), ps). assignment_ok t i ps" "fsmState f" "(t, i)" ps]
  by (simp add: fsm_ok_def FSM_Get_def)

text \<open>The assignment that the failover of \<open>deadAddr\<close> gives a partition.\<close>

definition failed_over :: "int \<Rightarrow> coordinator \<Rightarrow> string \<Rightarrow> string \<Rightarrow> int \<Rightarrow> partition_state \<Rightarrow> partition_state" where
  "failed_over now c deadAddr t i ps =
     (if psPrimary ps \<noteq> deadAddr then ps
      else case pickNewLeader now c t i (psBackups ps) of
        None \<Rightarrow> ps
      | Some addr \<Rightarrow> ps\<lparr>psPrimary := addr, psBackups := remaining_backups ps addr, psEpoch := psEpoch ps + 1\<rparr>)"

lemma pickNewLeader_in:
  "pickNewLeader now c t i as = Some addr \<Longrightarrow> addr \<in> set as \<and> addr \<noteq> '''' \<and> live_backup now c addr"
  using pick_loop_best [of now c t i "''''" "-1" as]
  unfolding pickNewLeader_def Let_def by (metis in_set_conv_decomp option.distinct(1) option.inject)

lemma failed_over_registry:
  "same_registry c c' \<Longrightarrow> failed_over now c' dead t i = failed_over now c dead t i"
  by (rule ext) (simp add: failed_over_def pickNewLeader_registry)

lemma failover_parts_exact:
  assumes "\<not> notLeader c" "cRaft c \<noteq> None" "\<And>d. raft d = Committed" "gomap_ok rest" "gomap_ok (fsmState (fsm_of c))"
    and "list_all (\<lambda>(i, ps). FSM_Get (fsm_of c) t i = Some ps \<and> assignment_ok t i ps) rest"
    and "failover_parts raft now dead t c rest = (c', calls)"
  shows "same_registry c c' \<and> gomap_ok (fsmState (fsm_of c'))
    \<and> (\<forall>u i. FSM_Get (fsm_of c') u i = (if u = t \<and> i \<in> fst ` set rest
         then map_option (failed_over now c dead u i) (FSM_Get (fsm_of c) u i) else FSM_Get (fsm_of c) u i))"
  using assms(1,2,4-7)
proof (induction rest arbitrary: c c' calls)
  case (Cons e rest)
  obtain i ps where e: "e = (i, ps)" by force
  have ps: "FSM_Get (fsm_of c) t i = Some ps" "assignment_ok t i ps" using Cons.prems(5) e by auto
  have dist: "i \<notin> fst ` set rest" "gomap_ok rest" using Cons.prems(3) e by (auto simp: gomap_ok_def)
  show ?case
  proof (cases "psPrimary ps = dead \<and> pickNewLeader now c t i (psBackups ps) \<noteq> None")
    case False
    then have same: "failed_over now c dead t i ps = ps" by (auto simp: failed_over_def)
    have "failover_parts raft now dead t c rest = (c', calls)" using False Cons.prems(6) e by (auto split: if_splits)
    with Cons.IH [of c c' calls] Cons.prems dist e have IH: "same_registry c c'" "gomap_ok (fsmState (fsm_of c'))"
      "\<forall>u i. FSM_Get (fsm_of c') u i = (if u = t \<and> i \<in> fst ` set rest
         then map_option (failed_over now c dead u i) (FSM_Get (fsm_of c) u i) else FSM_Get (fsm_of c) u i)" by auto
    then show ?thesis using ps(1) same e by auto
  next
    case True
    then obtain addr where addr: "pickNewLeader now c t i (psBackups ps) = Some addr" "psPrimary ps = dead" by blast
    note pin = pickNewLeader_in [OF addr(1)]
    have utf: "utf8_valid addr" using ps(2) pin by (auto simp: assignment_ok_def list_all_iff)
    obtain c1 calls1 r where u: "UpdatePartitionLeader raft now c
        \<lparr>ulTopic = t, ulPartition = i, ulBrokerAddr = addr\<rparr> = (c1, calls1, r)" by (metis prod.collapse)
    note up = UpdatePartitionLeader_committed [OF Cons.prems(1,2) ps conjunct1 [OF conjunct2 [OF pin]] utf assms(3) u]
    have get1: "FSM_Get (fsm_of c1) v j = (if v = t \<and> j = i then Some (failed_over now c dead t i ps)
        else FSM_Get (fsm_of c) v j)" for v j
      using ps(1) addr unfolding up(2) FSM_Get_apply
      by (auto simp: leader_command_def CmdAssign_def CmdUpdateLeader_def failed_over_def state_at_def FSM_Get_def)
    obtain calls2 where run: "failover_parts raft now dead t c1 rest = (c', calls2)"
      using Cons.prems(6) e addr u by (auto split: prod.splits)
    have "list_all (\<lambda>(j, qs). FSM_Get (fsm_of c1) t j = Some qs \<and> assignment_ok t j qs) rest"
      using Cons.prems(5) dist(1) e by (force simp: list_all_iff get1)
    moreover have "gomap_ok (fsmState (fsm_of c1))" using up(2) Cons.prems(4) by (simp add: FSM_apply_ok)
    moreover have "\<not> notLeader c1" "cRaft c1 \<noteq> None" using up(1) Cons.prems(1,2) by (auto simp: same_registry_def)
    ultimately have IH: "same_registry c1 c'" "gomap_ok (fsmState (fsm_of c'))"
      "\<forall>u i. FSM_Get (fsm_of c') u i = (if u = t \<and> i \<in> fst ` set rest
         then map_option (failed_over now c1 dead u i) (FSM_Get (fsm_of c1) u i) else FSM_Get (fsm_of c1) u i)"
      using Cons.IH [OF _ _ dist(2) _ _ run] by blast+
    then show ?thesis
      using ps(1) e dist(1) same_registry_trans [OF up(1) IH(1)] failed_over_registry [OF up(1)] by (auto simp: get1)
  qed
qed simp

lemma failover_topics_exact:
  assumes "\<not> notLeader c" "cRaft c \<noteq> None" "\<And>d. raft d = Committed" "distinct topics" "gomap_ok (fsmState (fsm_of c))"
    and "\<And>t i ps. t \<in> set topics \<Longrightarrow> FSM_Get (fsm_of c) t i = Some ps \<Longrightarrow> assignment_ok t i ps"
    and "failover_topics raft now dead c topics = (c', calls)"
  shows "same_registry c c' \<and> gomap_ok (fsmState (fsm_of c')) \<and> (\<forall>u i. FSM_Get (fsm_of c') u i = (if u \<in> set topics
         then map_option (failed_over now c dead u i) (FSM_Get (fsm_of c) u i) else FSM_Get (fsm_of c) u i))"
  using assms(1,2,4-7)
proof (induction topics arbitrary: c c' calls)
  case (Cons t topics)
  let ?by = "fst (GetTopic (fsm_of c) t)" and ?ok = "snd (GetTopic (fsm_of c) t)"
  have entry: "FSM_Get (fsm_of c) t i = Some ps" if "(i, ps) \<in> set ?by" for i ps
    using that GetTopic_get [OF Cons.prems(4), of t i] GetTopic_ok [of "fsm_of c" t]
    by (simp add: map_get_in_set [symmetric])
  obtain c1 calls1 where c1: "(if \<not> ?ok then (c, []) else failover_parts raft now dead t c ?by) = (c1, calls1)"
    by force
  have keys: "i \<in> fst ` set ?by \<longleftrightarrow> FSM_Get (fsm_of c) t i \<noteq> None" for i
    using GetTopic_get [OF Cons.prems(4), of t i] map_get_keys [of ?by i] by simp
  have part: "same_registry c c1 \<and> gomap_ok (fsmState (fsm_of c1)) \<and> (\<forall>u i. FSM_Get (fsm_of c1) u i =
      (if u = t then map_option (failed_over now c dead u i) (FSM_Get (fsm_of c) u i) else FSM_Get (fsm_of c) u i))"
  proof (cases ?ok)
    case True
    have lst: "list_all (\<lambda>(i, ps). FSM_Get (fsm_of c) t i = Some ps \<and> assignment_ok t i ps) ?by"
      using entry Cons.prems(5) [of t] by (auto simp: list_all_iff)
    have run: "failover_parts raft now dead t c ?by = (c1, calls1)" using c1 True by simp
    have ex: "same_registry c c1" "gomap_ok (fsmState (fsm_of c1))"
      "\<forall>u i. FSM_Get (fsm_of c1) u i = (if u = t \<and> i \<in> fst ` set ?by
         then map_option (failed_over now c dead u i) (FSM_Get (fsm_of c) u i) else FSM_Get (fsm_of c) u i)"
      using failover_parts_exact [OF Cons.prems(1,2) assms(3) GetTopic_ok Cons.prems(4) lst run] by blast+
    then show ?thesis using keys by auto
  next
    case False
    then have "FSM_Get (fsm_of c) t i = None" for i using GetTopic_found [OF Cons.prems(4), of t] by auto
    then show ?thesis using c1 False Cons.prems(4) by auto
  qed
  obtain calls2 where run: "failover_topics raft now dead c1 topics = (c', calls2)"
    using Cons.prems(6) c1 by (auto simp: Let_def split: prod.splits if_splits)
  have reg: "\<not> notLeader c1" "cRaft c1 \<noteq> None" using part Cons.prems(1,2) by (auto simp: same_registry_def)
  have "assignment_ok u i ps" if "u \<in> set topics" "FSM_Get (fsm_of c1) u i = Some ps" for u i ps
    using that Cons.prems(3,5) part by (auto split: if_splits)
  with Cons.IH [OF reg _ _ _ run] Cons.prems(3) part
  have IH: "same_registry c1 c'" "gomap_ok (fsmState (fsm_of c'))" "\<forall>u i. FSM_Get (fsm_of c') u i = (if u \<in> set topics
       then map_option (failed_over now c1 dead u i) (FSM_Get (fsm_of c1) u i) else FSM_Get (fsm_of c1) u i)"
    by auto
  show ?case
    using IH part Cons.prems(3) same_registry_trans [OF conjunct1 [OF part] IH(1)]
      failed_over_registry [OF conjunct1 [OF part]] by auto
qed simp

lemma pickNewLeader_choice:
  assumes "list_all (\<lambda>(k, leo). 0 \<le> leo) (cBrokerLEO c)" "map_get (cBrokerIDs c) '''' = None"
  shows "case pickNewLeader now c topic part backups of
      None \<Rightarrow> \<forall>b \<in> set backups. \<not> live_backup now c b
    | Some a \<Rightarrow> \<exists>pre post. backups = pre @ a # post \<and> live_backup now c a
        \<and> (\<forall>b \<in> set pre. live_backup now c b \<longrightarrow> reported_leo c topic part b < reported_leo c topic part a)
        \<and> (\<forall>b \<in> set post. live_backup now c b \<longrightarrow> reported_leo c topic part b \<le> reported_leo c topic part a)"
proof -
  have pos: "0 \<le> reported_leo c topic part b" for b
    using list_all_get [OF assms(1)] by (fastforce simp: reported_leo_def split: option.splits)
  show ?thesis
    using pick_loop_best [of now c topic part "''''" "-1" backups]
  proof (elim disjE exE conjE)
    assume *: "pick_loop now c topic part '''' (-1) backups = ''''"
      "\<forall>b \<in> set backups. live_backup now c b \<longrightarrow> reported_leo c topic part b \<le> -1"
    have "\<not> live_backup now c b" if "b \<in> set backups" for b using *(2) that pos [of b] by force
    then show ?thesis using *(1) by (simp add: pickNewLeader_def)
  next
    fix pre a post
    assume a: "backups = pre @ a # post" "pick_loop now c topic part '''' (-1) backups = a"
      "live_backup now c a"
      "\<forall>b \<in> set pre. live_backup now c b \<longrightarrow> reported_leo c topic part b < reported_leo c topic part a"
      "\<forall>b \<in> set post. live_backup now c b \<longrightarrow> reported_leo c topic part b \<le> reported_leo c topic part a"
    then have "pickNewLeader now c topic part backups = Some a"
      using assms(2) by (auto simp: pickNewLeader_def Let_def live_backup_def)
    then show ?thesis using a by auto
  qed
qed

lemma apply_assignments_committed:
  assumes "cRaft c = Some n" "\<And>d. raft d = Committed" "utf8_valid t"
    and "list_all (\<lambda>a. is_int32 (paPartition a) \<and> utf8_valid (paPrimary a) \<and> list_all utf8_valid (paBackups a)) as"
    and "distinct (map paPartition as)"
  shows "\<exists>f. apply_assignments raft c t as = (c\<lparr>cRaft := Some (n\<lparr>rnFSM := f\<rparr>)\<rparr>, Inr ())
    \<and> (gomap_ok (fsmState (rnFSM n)) \<longrightarrow> gomap_ok (fsmState f))
    \<and> (\<forall>a \<in> set as. FSM_Get f t (paPartition a) =
         Some \<lparr>psPrimary = paPrimary a, psBackups = paBackups a, psEpoch = 1, psISR = []\<rparr>)
    \<and> (\<forall>u i. u \<noteq> t \<or> i \<notin> paPartition ` set as \<longrightarrow> FSM_Get f u i = FSM_Get (rnFSM n) u i)"
  using assms(1,4,5)
proof (induction as arbitrary: c n)
  case Nil
  then show ?case by (intro exI [of _ "rnFSM n"]) simp
next
  case (Cons a as)
  let ?cmd = "assign_command t a"
  let ?f = "FSM_applyCommand (rnFSM n) ?cmd"
  let ?c = "c\<lparr>cRaft := Some (n\<lparr>rnFSM := ?f\<rparr>)\<rparr>"
  have "command_ok ?cmd"
    using Cons.prems(2) assms(3) by (simp add: command_ok_def assign_command_def CmdAssign_def is_int64_def)
  then have ap: "raft_Apply raft c ?cmd = (?c, Inr ())" using raft_Apply_committed Cons.prems(1) assms(2) by blast
  have g: "FSM_Get ?f u i = (if u = t \<and> i = paPartition a
      then Some \<lparr>psPrimary = paPrimary a, psBackups = paBackups a, psEpoch = 1, psISR = []\<rparr>
      else FSM_Get (rnFSM n) u i)" for u i
    unfolding FSM_Get_apply by (simp add: assign_command_def)
  obtain f where f: "apply_assignments raft ?c t as = (?c\<lparr>cRaft := Some ((n\<lparr>rnFSM := ?f\<rparr>)\<lparr>rnFSM := f\<rparr>)\<rparr>, Inr ())"
    "gomap_ok (fsmState ?f) \<longrightarrow> gomap_ok (fsmState f)"
    "\<forall>a \<in> set as. FSM_Get f t (paPartition a) =
         Some \<lparr>psPrimary = paPrimary a, psBackups = paBackups a, psEpoch = 1, psISR = []\<rparr>"
    "\<forall>u i. u \<noteq> t \<or> i \<notin> paPartition ` set as \<longrightarrow> FSM_Get f u i = FSM_Get ?f u i"
    using Cons.IH [of ?c "n\<lparr>rnFSM := ?f\<rparr>"] Cons.prems by auto
  have "paPartition a \<notin> paPartition ` set as" using Cons.prems(3) by auto
  then show ?case using f ap Cons.prems(3) FSM_apply_ok [of "rnFSM n" ?cmd] by (intro exI [of _ f]) (auto simp: g)
qed

lemma make_assignments_props:
  assumes "brokers \<noteq> []" "distinct brokers" "list_all utf8_valid brokers" "is_int32 n" "0 \<le> n"
  shows "make_assignments brokers n = map (\<lambda>i. \<lparr>paPartition = int i, paPrimary = brokers ! (i mod length brokers),
      paBackups = filter (\<lambda>b. b \<noteq> brokers ! (i mod length brokers)) brokers\<rparr>) [0..<nat n]"
    and "list_all (\<lambda>a. is_int32 (paPartition a) \<and> utf8_valid (paPrimary a) \<and> list_all utf8_valid (paBackups a))
      (make_assignments brokers n)"
    and "map paPartition (make_assignments brokers n) = map int [0..<nat n]"
proof -
  have i32: "int32 (int i) = int i" "is_int32 (int i)" if "i < nat n" for i
    using that assms(4) by (auto simp: is_int32_def intro!: int32_id)
  have m: "i mod length brokers < length brokers" for i using assms(1) by simp
  show eq: "make_assignments brokers n = map (\<lambda>i. \<lparr>paPartition = int i, paPrimary = brokers ! (i mod length brokers),
      paBackups = filter (\<lambda>b. b \<noteq> brokers ! (i mod length brokers)) brokers\<rparr>) [0..<nat n]"
    unfolding make_assignments_def Let_def
    using i32 selectBackups_all [OF assms(2) nth_mem [OF m]] by (intro map_cong) auto
  show "list_all (\<lambda>a. is_int32 (paPartition a) \<and> utf8_valid (paPrimary a) \<and> list_all utf8_valid (paBackups a))
      (make_assignments brokers n)"
    using assms(3) i32(2) nth_mem [OF m] unfolding eq by (auto simp: list_all_iff)
  show "map paPartition (make_assignments brokers n) = map int [0..<nat n]" unfolding eq by simp
qed

lemma GetMetadata_of_fsm:
  assumes "cRaft c = Some n" "gomap_ok (fsmState (rnFSM n))" "0 < k"
    and "\<And>i. FSM_Get (rnFSM n) t i = (if 0 \<le> i \<and> i < int k then Some (g i) else None)"
  shows "GetMetadata c t = Inr (map (\<lambda>i. \<lparr>piPartition = int i, piBrokerAddr = psPrimary (g (int i))\<rparr>) [0..<k])"
proof -
  let ?by = "fst (GetTopic (rnFSM n) t)"
  let ?L = "map (\<lambda>(idx, ps). \<lparr>piPartition = idx, piBrokerAddr = psPrimary ps\<rparr>) ?by"
  let ?R = "map (\<lambda>i. \<lparr>piPartition = int i, piBrokerAddr = psPrimary (g (int i))\<rparr>) [0..<k]"
  have by_ok: "gomap_ok ?by" by (rule GetTopic_ok)
  have mem: "(i, ps) \<in> set ?by \<longleftrightarrow> FSM_Get (rnFSM n) t i = Some ps" for i ps
    using GetTopic_get [OF assms(2), of t i] map_get_in_set [OF by_ok, of i ps] by metis
  have "FSM_Get (rnFSM n) t 0 = Some (g 0)" using assms(3,4) by simp
  then have ok: "snd (GetTopic (rnFSM n) t)" using GetTopic_found [OF assms(2), of t] by blast
  have keys: "map piPartition ?L = map fst ?by" by (induction ?by) auto
  have setL: "set ?L = set ?R"
  proof -
    have "x \<in> set ?L \<longleftrightarrow> x \<in> set ?R" for x
    proof -
      have "x \<in> set ?L \<longleftrightarrow> (\<exists>i ps. (i, ps) \<in> set ?by \<and> x = \<lparr>piPartition = i, piBrokerAddr = psPrimary ps\<rparr>)"
        by (force simp: image_iff)
      then have "x \<in> set ?L \<longleftrightarrow> (\<exists>i ps. FSM_Get (rnFSM n) t i = Some ps \<and> x = \<lparr>piPartition = i, piBrokerAddr = psPrimary ps\<rparr>)"
        by (simp only: mem)
      also have "\<dots> \<longleftrightarrow> (\<exists>i. 0 \<le> i \<and> i < int k \<and> x = \<lparr>piPartition = i, piBrokerAddr = psPrimary (g i)\<rparr>)"
        using assms(4) by (auto split: if_splits)
      also have "\<dots> \<longleftrightarrow> x \<in> set ?R"
        by (auto simp: image_iff) (metis nat_less_iff atLeastLessThan_iff int_nat_eq le0)
      finally show ?thesis .
    qed
    then show ?thesis by blast
  qed
  have "sort_key piPartition ?L = ?R"
  proof (rule map_sorted_distinct_set_unique [where f = piPartition])
    show "inj_on piPartition (set (sort_key piPartition ?L) \<union> set ?R)" unfolding set_sort setL by (auto simp: inj_on_def)
    have "distinct (map piPartition ?L)" unfolding keys using by_ok by (simp add: gomap_ok_def)
    then show "distinct (map piPartition (sort_key piPartition ?L))" by (simp only: distinct_map distinct_sort set_sort)
    show "sorted (map piPartition ?R)" "distinct (map piPartition ?R)"
      by (simp_all add: comp_def distinct_map inj_on_def sorted_iff_nth_mono)
    show "set (sort_key piPartition ?L) = set ?R" unfolding set_sort by (rule setL)
  qed simp
  then show ?thesis using assms(1) ok by (cases "GetTopic (rnFSM n) t") (simp add: GetMetadata_def)
qed

section \<open>Properties\<close>

text \<open>A second rebalance of the same members changes nothing.\<close>

lemma rebalance_other: "rebalance n tot i ms g = Inr g' \<Longrightarrow> m \<notin> set ms \<Longrightarrow> map_get g' m = map_get g m"
  by (induction n tot i ms g rule: rebalance.induct) (auto simp: go_map split: sum.splits)

lemma rebalance_again: "rebalance n tot i ms g = Inr g' \<Longrightarrow> distinct ms \<Longrightarrow> rebalance n tot i ms g' = Inr g'"
proof (induction n tot i ms g rule: rebalance.induct)
  case (2 n tot i m ms g)
  then obtain r where r: "partitionRange (int32 (int i)) n tot = Inr r" "rebalance n tot (i + 1) ms (map_put m r g) = Inr g'"
    by (auto split: sum.splits)
  have "map_get g' m = Some r" using rebalance_other [OF r(2)] "2.prems"(2) by (simp add: go_map)
  then show ?case using r "2.IH" [OF r(1) r(2)] "2.prems"(2) by (simp add: update_triv)
qed simp

text \<open>The group with the caller in it, as \<open>JoinGroup\<close> rebalances it.\<close>

definition joined_group :: "coordinator \<Rightarrow> join_group_request \<Rightarrow> (string, int list) gomap" where
  "joined_group c req = (let g = (case map_get (cGroups c) (jgGroupId req) of None \<Rightarrow> [] | Some g \<Rightarrow> g)
     in if map_get g (jgMemberId req) = None then map_put (jgMemberId req) [] g else g)"

lemma joined_group_ok:
  assumes "list_all (\<lambda>(g, members). gomap_ok members \<and> is_int32 (int (length members) + 1)) (cGroups c)"
  shows "gomap_ok (joined_group c req)" "is_int32 (int (length (joined_group c req)))" "joined_group c req \<noteq> []"
    "jgMemberId req \<in> set (sortedKeys (joined_group c req))"
proof -
  let ?old = "case map_get (cGroups c) (jgGroupId req) of None \<Rightarrow> [] | Some g \<Rightarrow> g"
  have old: "gomap_ok ?old" "is_int32 (int (length ?old) + 1)"
    using list_all_get [OF assms, of "jgGroupId req"] by (auto simp: is_int32_def split: option.splits)
  have len: "length (map_put k v m) \<le> length m + 1" for k :: string and v :: "int list" and m
    by (induction m) auto
  show ok: "gomap_ok (joined_group c req)" using old(1) by (simp add: joined_group_def Let_def)
  show "is_int32 (int (length (joined_group c req)))"
    using old(2) len [of "jgMemberId req" "[]" ?old] by (simp add: joined_group_def Let_def is_int32_def)
  have mem: "map_get (joined_group c req) (jgMemberId req) \<noteq> None" by (simp add: joined_group_def Let_def go_map)
  then show "joined_group c req \<noteq> []" by force
  show "jgMemberId req \<in> set (sortedKeys (joined_group c req))"
    using mem sortedKeys_props [OF ok] map_get_keys [of "joined_group c req" "jgMemberId req"] by simp
qed

text \<open>What \<open>JoinGroup\<close> leaves: the group divided among its members, which joining again does not change.\<close>

lemma JoinGroup_result:
  assumes "jgGroupId req \<noteq> ''''" "jgMemberId req \<noteq> ''''" "map_get (cTopics c) (jgTopic req) = Some parts"
    and "jgTopic req \<noteq> ''''" "list_all (\<lambda>(g, members). gomap_ok members \<and> is_int32 (int (length members) + 1)) (cGroups c)"
    and "is_int32 (int (length parts))"
  shows "\<exists>g ps. JoinGroup c req = (c\<lparr>cGroups := map_put (jgGroupId req) g (cGroups c)\<rparr>, Inr ps)
    \<and> map_get g (jgMemberId req) = Some ps
    \<and> concat (map (\<lambda>m. the (map_get g m)) (sortedKeys g)) = [0..int (length parts) - 1]
    \<and> (\<forall>m \<in> set (sortedKeys g). \<exists>r. map_get g m = Some r
         \<and> int (length r) \<in> {int (length parts) div int (length (sortedKeys g)),
                              int (length parts) div int (length (sortedKeys g)) + 1})
    \<and> distinct (sortedKeys g) \<and> is_int32 (int (length (sortedKeys g)))
    \<and> rebalance (int (length (sortedKeys g))) (int (length parts)) 0 (sortedKeys g) g = Inr g"
proof -
  let ?g = "joined_group c req"
  note g = joined_group_ok [OF assms(5), of req]
  have lk: "length (sortedKeys ?g) = length ?g" "distinct (sortedKeys ?g)"
    using g(1) by (simp_all add: sortedKeys_def gomap_ok_def)
  obtain g' where g': "rebalance (int (length ?g)) (int (length parts)) 0 (sortedKeys ?g) ?g = Inr g'"
    "sortedKeys g' = sortedKeys ?g" "concat (map (\<lambda>m. the (map_get g' m)) (sortedKeys ?g)) = [0..int (length parts) - 1]"
    "\<forall>m \<in> set (sortedKeys ?g). \<exists>r. map_get g' m = Some r \<and>
       int (length r) \<in> {int (length parts) div int (length ?g), int (length parts) div int (length ?g) + 1}"
    using rebalance_group [OF g(1,3) _ assms(6) g(2)] by auto
  obtain ps where ps: "map_get g' (jgMemberId req) = Some ps" using g'(4) g(4) by blast
  have "JoinGroup c req = (c\<lparr>cGroups := map_put (jgGroupId req) g' (cGroups c)\<rparr>, Inr ps)"
    using assms(1-4) g'(1) ps lk int32_id [OF g(2)] int32_id [OF assms(6)]
    by (simp add: JoinGroup_def joined_group_def Let_def)
  then show ?thesis
    using ps g'(2-4) lk g(2) rebalance_again [OF g'(1) lk(2)] by (intro exI [of _ g'] exI [of _ ps]) simp
qed


text \<open>
  C27: The new leader of a partition is the live backup with the largest reported log end, the first
  of them in the order of the backups; only if no backup is live is there none.
\<close>

theorem pickNewLeader_best:
  assumes "list_all (\<lambda>(k, leo). 0 \<le> leo) (cBrokerLEO c)" "map_get (cBrokerIDs c) '''' = None"
  shows "case pickNewLeader now c topic part backups of
      None \<Rightarrow> \<forall>b \<in> set backups. \<not> live_backup now c b
    | Some a \<Rightarrow> \<exists>pre post. backups = pre @ a # post \<and> live_backup now c a
        \<and> (\<forall>b \<in> set pre. live_backup now c b \<longrightarrow> reported_leo c topic part b < reported_leo c topic part a)
        \<and> (\<forall>b \<in> set post. live_backup now c b \<longrightarrow> reported_leo c topic part b \<le> reported_leo c topic part a)"
  by (rule pickNewLeader_choice [OF assms])

definition demo_node :: raft_node where
  "demo_node = \<lparr>rnFSM = newFSM, rnIsLeader = True\<rparr>"

text \<open>Three brokers, a topic with two partitions, heartbeats of the second and third broker.\<close>

definition demo_registered :: coordinator where
  "demo_registered = fold (\<lambda>(a, i) c. fst (RegisterBroker (\<lambda>_. True) c \<lparr>rgAddr = a, rgId = i\<rparr>))
     [(''a:1'', 1), (''b:1'', 2), (''c:1'', 3)] (NewWithRaft demo_node)"

definition demo_created :: coordinator where
  "demo_created = fst (coordinator_CreateTopic (\<lambda>_. Committed) 0 demo_registered
     \<lparr>ctTopic = ''t'', ctPartitions = 2, ctReplicationFactor = 1\<rparr>)"

definition demo_coordinator :: coordinator where
  "demo_coordinator = fold (\<lambda>(i, leo) c. fst (Heartbeat 20000000000 c \<lparr>hbBrokerId = i, hbBrokerAddr = '''',
       hbPartitionLeos = [\<lparr>plTopic = ''t'', plPartition = 0, plLogEndOffset = leo\<rparr>]\<rparr>))
     [(2, 4), (3, 7)] demo_created"


theorem pickNewLeader_best_witness:
  "case pickNewLeader 20000000000 demo_coordinator ''t'' 0 [''b:1'', ''c:1''] of
      None \<Rightarrow> \<forall>b \<in> set [''b:1'', ''c:1'']. \<not> live_backup 20000000000 demo_coordinator b
    | Some a \<Rightarrow> \<exists>pre post. [''b:1'', ''c:1''] = pre @ a # post \<and> live_backup 20000000000 demo_coordinator a
        \<and> (\<forall>b \<in> set pre. live_backup 20000000000 demo_coordinator b \<longrightarrow>
             reported_leo demo_coordinator ''t'' 0 b < reported_leo demo_coordinator ''t'' 0 a)
        \<and> (\<forall>b \<in> set post. live_backup 20000000000 demo_coordinator b \<longrightarrow>
             reported_leo demo_coordinator ''t'' 0 b \<le> reported_leo demo_coordinator ''t'' 0 a)"
  by (rule pickNewLeader_best) code_simp+

text \<open>
  C4: The failover of a silent broker, when Raft commits, changes exactly the partitions it led: each
  is given to the backup that \<open>pickNewLeader\<close> chooses, with the next epoch and the same set of
  replicas, and every other assignment is as before.  Afterwards a partition is still led by the
  dead broker only if none of its backups is live.
\<close>

theorem failover_exact:
  assumes "\<not> notLeader c" "cRaft c \<noteq> None" "\<And>d. raft d = Committed" "fsm_ok (fsm_of c)"
    and "map_get (cBrokerAddrs c) deadID = Some dead" "\<not> live_backup now c dead"
    and "list_all (\<lambda>(k, leo). 0 \<le> leo) (cBrokerLEO c)" "map_get (cBrokerIDs c) '''' = None"
    and "FSM_Get (fsm_of c) t i = Some ps"
  shows "\<exists>ps'. FSM_Get (fsm_of (fst (failOverBrokerPartitions raft now c deadID))) t i = Some ps'
    \<and> (if psPrimary ps \<noteq> dead \<or> pickNewLeader now c t i (psBackups ps) = None then ps' = ps
       else pickNewLeader now c t i (psBackups ps) = Some (psPrimary ps') \<and> psEpoch ps' = psEpoch ps + 1
         \<and> set (psPrimary ps' # psBackups ps') = set (psPrimary ps # psBackups ps) \<and> psISR ps' = psISR ps)
    \<and> (psPrimary ps' = dead \<longrightarrow> (\<forall>b \<in> set (psBackups ps'). \<not> live_backup now c b))"
proof -
  obtain c' calls where run: "failover_topics raft now dead c (AllTopics (fsm_of c)) = (c', calls)" by force
  have f: "fst (failOverBrokerPartitions raft now c deadID) = c'"
    using assms(2,5) run by (auto simp: failOverBrokerPartitions_def)
  have "t \<in> set (AllTopics (fsm_of c))" using assms(9) AllTopics_iff by blast
  moreover have "gomap_ok (fsmState (fsm_of c))" "distinct (AllTopics (fsm_of c))"
    using assms(4) by (simp_all add: fsm_ok_def AllTopics_def)
  ultimately have get: "FSM_Get (fsm_of c') t i = Some (failed_over now c dead t i ps)"
    using failover_topics_exact [OF assms(1-3) _ _ _ run] fsm_ok_get [OF assms(4)] assms(9) by auto
  let ?ps' = "failed_over now c dead t i ps"
  note pick = pickNewLeader_choice [OF assms(7,8), where now = now and topic = t and part = i and backups = "psBackups ps"]
  show ?thesis
  proof (cases "psPrimary ps \<noteq> dead \<or> pickNewLeader now c t i (psBackups ps) = None")
    case True
    then have "?ps' = ps" by (auto simp: failed_over_def)
    then show ?thesis using True get f pick by auto
  next
    case False
    then obtain a where a: "pickNewLeader now c t i (psBackups ps) = Some a" "psPrimary ps = dead" by blast
    then have p': "?ps' = ps\<lparr>psPrimary := a, psBackups := remaining_backups ps a, psEpoch := psEpoch ps + 1\<rparr>"
      by (simp add: failed_over_def)
    have "a \<in> set (psBackups ps)" "a \<noteq> dead" using pickNewLeader_in [OF a(1)] assms(6) by auto
    then show ?thesis
      using False a get f p' remaining_backups_set [of a ps] by (intro exI [of _ ?ps']) auto
  qed
qed

theorem failover_exact_witness:
  "\<exists>ps'. FSM_Get (fsm_of (fst (failOverBrokerPartitions (\<lambda>_. Committed) 20000000000 demo_coordinator 1))) ''t'' 0 = Some ps'
    \<and> pickNewLeader 20000000000 demo_coordinator ''t'' 0 [''b:1'', ''c:1''] = Some (psPrimary ps') \<and> psEpoch ps' = 1 + 1"
proof -
  have h: "\<not> notLeader demo_coordinator" "cRaft demo_coordinator \<noteq> None" "fsm_ok (fsm_of demo_coordinator)"
    "map_get (cBrokerAddrs demo_coordinator) 1 = Some ''a:1''" "\<not> live_backup 20000000000 demo_coordinator ''a:1''"
    "list_all (\<lambda>(k, leo). 0 \<le> leo) (cBrokerLEO demo_coordinator)" "map_get (cBrokerIDs demo_coordinator) '''' = None"
    "FSM_Get (fsm_of demo_coordinator) ''t'' 0 =
       Some \<lparr>psPrimary = ''a:1'', psBackups = [''b:1'', ''c:1''], psEpoch = 1, psISR = []\<rparr>"
    "pickNewLeader 20000000000 demo_coordinator ''t'' 0 [''b:1'', ''c:1''] \<noteq> None"
    by code_simp+
  from failover_exact [OF h(1,2) _ h(3-8), where raft = "\<lambda>_. Committed"] h(9) show ?thesis by auto
qed

text \<open>What a committed \<open>CreateTopic\<close> leaves in the replicated state.\<close>

lemma CreateTopic_committed:
  assumes "ctTopic req \<noteq> ''''" "utf8_valid (ctTopic req)" "0 < ctPartitions req" "is_int32 (ctPartitions req)"
    and "cRaft c = Some n" "rnIsLeader n" "map_get (cTopics c) (ctTopic req) = None" "\<And>i. FSM_Get (rnFSM n) (ctTopic req) i = None"
    and "gomap_ok (fsmState (rnFSM n))" "cBrokers c \<noteq> []" "distinct (cBrokers c)" "list_all utf8_valid (cBrokers c)"
    and "\<And>d. raft d = Committed"
  defines "primary \<equiv> \<lambda>i. cBrokers c ! (i mod length (cBrokers c))"
  shows "\<exists>c' calls. coordinator_CreateTopic raft now c req = (c', calls, Inr ())
    \<and> GetMetadata c' (ctTopic req) =
        Inr (map (\<lambda>i. \<lparr>piPartition = int i, piBrokerAddr = primary i\<rparr>) [0..<nat (ctPartitions req)])
    \<and> (\<forall>i < nat (ctPartitions req). FSM_Get (fsm_of c') (ctTopic req) (int i) =
         Some \<lparr>psPrimary = primary i, psBackups = filter (\<lambda>b. b \<noteq> primary i) (cBrokers c), psEpoch = 1, psISR = []\<rparr>)"
proof -
  let ?t = "ctTopic req" and ?N = "nat (ctPartitions req)"
  let ?as = "make_assignments (cBrokers c) (ctPartitions req)"
  let ?parts = "map (\<lambda>a. \<lparr>piPartition = paPartition a, piBrokerAddr = paPrimary a\<rparr>) ?as"
  let ?c1 = "c\<lparr>cTopics := map_put ?t ?parts (cTopics c)\<rparr>"
  note as = make_assignments_props [OF assms(10-12,4) less_imp_le [OF assms(3)]]
  have "distinct (map paPartition ?as)" unfolding as(3) by (simp add: distinct_map)
  from apply_assignments_committed [where raft = raft and c = ?c1 and n = n, OF _ assms(13) assms(2) as(2) this]
  obtain f where f: "apply_assignments raft ?c1 ?t ?as = (?c1\<lparr>cRaft := Some (n\<lparr>rnFSM := f\<rparr>)\<rparr>, Inr ())"
    "gomap_ok (fsmState f)" "\<forall>a \<in> set ?as. FSM_Get f ?t (paPartition a) =
         Some \<lparr>psPrimary = paPrimary a, psBackups = paBackups a, psEpoch = 1, psISR = []\<rparr>"
    "\<forall>u i. u \<noteq> ?t \<or> i \<notin> paPartition ` set ?as \<longrightarrow> FSM_Get f u i = FSM_Get (rnFSM n) u i"
    using assms(5,9) by auto
  let ?c' = "?c1\<lparr>cRaft := Some (n\<lparr>rnFSM := f\<rparr>)\<rparr>"
  have get: "FSM_Get f ?t (int i) =
      Some \<lparr>psPrimary = primary i, psBackups = filter (\<lambda>b. b \<noteq> primary i) (cBrokers c), psEpoch = 1, psISR = []\<rparr>"
    if "i < ?N" for i
    using f(3) that unfolding as(1) by (simp add: primary_def)
  have none: "FSM_Get f ?t i = None" if "\<not> (0 \<le> i \<and> i < int ?N)" for i
  proof -
    have "set (map paPartition ?as) = int ` {..<?N}" unfolding as(3) by auto
    then have "i \<notin> paPartition ` set ?as" using that assms(3) by auto
    then show ?thesis using f(4) assms(8) by auto
  qed
  have run: "coordinator_CreateTopic raft now c req = (?c', initPartitions ?c' ?t ?parts @ initBackupPartitions ?c' ?t ?as
      @ assignLeaderRoles ?c' ?t ?as 1 @ assignFollowerRoles now ?c' ?t ?as 1, Inr ())"
    using assms(1,3,5-7,10) f(1) by (simp add: coordinator_CreateTopic_def Let_def notLeader_def)
  have "GetMetadata ?c' ?t = Inr (map (\<lambda>i. \<lparr>piPartition = int i, piBrokerAddr = psPrimary (the (FSM_Get f ?t (int i)))\<rparr>) [0..<?N])"
  proof (rule GetMetadata_of_fsm [where n = "n\<lparr>rnFSM := f\<rparr>" and k = ?N and g = "\<lambda>i. the (FSM_Get f ?t i)"])
    fix i
    show "FSM_Get (rnFSM (n\<lparr>rnFSM := f\<rparr>)) ?t i = (if 0 \<le> i \<and> i < int ?N then Some (the (FSM_Get f ?t i)) else None)"
    proof (cases "0 \<le> i \<and> i < int ?N")
      case True
      then have "nat i < ?N" by linarith
      from get [OF this] True show ?thesis by auto
    qed (use none in simp)
  qed (use f(2) assms(3) in simp_all)
  also have "\<dots> = Inr (map (\<lambda>i. \<lparr>piPartition = int i, piBrokerAddr = primary i\<rparr>) [0..<?N])"
    using get by auto
  finally show ?thesis using run get by (auto simp: fsm_of_def)
qed

text \<open>
  A topic created through a Raft-backed coordinator is laid out round robin: partition \<open>i\<close> is led
  by broker \<open>i\<close> modulo the number of brokers, with all other brokers as backups in epoch 1, and
  \<open>GetMetadata\<close> then lists exactly the partitions 0 to N-1 in order with these leaders.
\<close>

lemma CreateTopic_layout:
  assumes "ctTopic req \<noteq> ''''" "utf8_valid (ctTopic req)" "0 < ctPartitions req" "is_int32 (ctPartitions req)"
    and "cRaft c = Some n" "rnIsLeader n" "map_get (cTopics c) (ctTopic req) = None" "\<And>i. FSM_Get (rnFSM n) (ctTopic req) i = None"
    and "gomap_ok (fsmState (rnFSM n))" "cBrokers c \<noteq> []" "distinct (cBrokers c)" "list_all utf8_valid (cBrokers c)"
    and "\<And>d. raft d = Committed"
  defines "primary \<equiv> \<lambda>i. cBrokers c ! (i mod length (cBrokers c))"
  shows "\<exists>c' calls. coordinator_CreateTopic raft now c req = (c', calls, Inr ())
    \<and> GetMetadata c' (ctTopic req) =
        Inr (map (\<lambda>i. \<lparr>piPartition = int i, piBrokerAddr = primary i\<rparr>) [0..<nat (ctPartitions req)])
    \<and> (\<forall>i < nat (ctPartitions req). FSM_Get (fsm_of c') (ctTopic req) (int i) =
         Some \<lparr>psPrimary = primary i, psBackups = filter (\<lambda>b. b \<noteq> primary i) (cBrokers c), psEpoch = 1, psISR = []\<rparr>)"
  unfolding primary_def by (rule CreateTopic_committed [where raft = raft, OF assms(1-13)])

lemma CreateTopic_layout_witness:
  "\<exists>c' calls. coordinator_CreateTopic (\<lambda>_. Committed) 0 demo_registered
        \<lparr>ctTopic = ''u'', ctPartitions = 2, ctReplicationFactor = 1\<rparr> = (c', calls, Inr ())
    \<and> GetMetadata c' ''u'' = Inr (map (\<lambda>i. \<lparr>piPartition = int i,
        piBrokerAddr = cBrokers demo_registered ! (i mod length (cBrokers demo_registered))\<rparr>) [0..<nat 2])"
proof -
  let ?req = "\<lparr>ctTopic = ''u'', ctPartitions = 2, ctReplicationFactor = 1\<rparr>"
  have h: "cRaft demo_registered = Some demo_node" "rnIsLeader demo_node"
    "map_get (cTopics demo_registered) (ctTopic ?req) = None" "gomap_ok (fsmState (rnFSM demo_node))"
    "cBrokers demo_registered \<noteq> []" "distinct (cBrokers demo_registered)" "list_all utf8_valid (cBrokers demo_registered)"
    "utf8_valid (ctTopic ?req)" "is_int32 (ctPartitions ?req)"
    by code_simp+
  have "FSM_Get (rnFSM demo_node) (ctTopic ?req) i = None" for i
    by (simp add: demo_node_def newFSM_def FSM_Get_def)
  from CreateTopic_layout [OF _ h(8) _ h(9) h(1-3) this h(4-7), where raft = "\<lambda>_. Committed" and now = 0]
  show ?thesis by auto
qed

text \<open>
  The topic table of a coordinator is not part of the replicated state: on a coordinator that has
  become Raft leader after another created the topic, \<open>UpdatePartitionLeader\<close> commits the new leader
  and epoch and then fails with \<open>NotFound\<close>, without telling any broker its role.
\<close>

lemma new_raft_leader_assigns_no_roles:
  assumes "\<not> notLeader c" "cRaft c \<noteq> None" "FSM_Get (fsm_of c) t i = Some ps" "assignment_ok t i ps"
    and "addr \<noteq> ''''" "utf8_valid addr" "\<And>d. raft d = Committed" "map_get (cTopics c) t = None"
  shows "\<exists>c'. UpdatePartitionLeader raft now c \<lparr>ulTopic = t, ulPartition = i, ulBrokerAddr = addr\<rparr>
      = (c', [], Inl (Status NotFound))
    \<and> FSM_Get (fsm_of c') t i = Some (ps\<lparr>psPrimary := addr, psBackups := remaining_backups ps addr, psEpoch := psEpoch ps + 1\<rparr>)"
proof -
  obtain c' calls r where u: "UpdatePartitionLeader raft now c \<lparr>ulTopic = t, ulPartition = i, ulBrokerAddr = addr\<rparr>
      = (c', calls, r)" by (metis prod.collapse)
  note up = UpdatePartitionLeader_committed [OF assms(1-7) u]
  have "calls = [] \<and> r = Inl (Status NotFound)"
  proof -
    let ?cmd = "leader_command \<lparr>ulTopic = t, ulPartition = i, ulBrokerAddr = addr\<rparr> (psEpoch ps + 1) (remaining_backups ps addr)"
    obtain n where n: "cRaft c = Some n" using assms(2) by blast
    have "int64 (psEpoch ps + 1) = psEpoch ps + 1"
      using assms(4) by (intro int64_id) (simp add: assignment_ok_def is_int64_def)
    then have "new_layout (fsm_of c) \<lparr>ulTopic = t, ulPartition = i, ulBrokerAddr = addr\<rparr> = (psEpoch ps + 1, remaining_backups ps addr)"
      using assms(3) by (simp add: new_layout_def)
    moreover have "raft_Apply raft c ?cmd = (c\<lparr>cRaft := Some (n\<lparr>rnFSM := FSM_applyCommand (rnFSM n) ?cmd\<rparr>)\<rparr>, Inr ())"
      using n assms(7) leader_command_ok [OF assms(4,6)] by (intro raft_Apply_committed) auto
    ultimately show ?thesis
      using u assms(1,4,5,8) n by (auto simp: UpdatePartitionLeader_def assignment_ok_def)
  qed
  moreover have "FSM_Get (fsm_of c') t i = Some (ps\<lparr>psPrimary := addr, psBackups := remaining_backups ps addr, psEpoch := psEpoch ps + 1\<rparr>)"
    using assms(3) unfolding up(2) FSM_Get_apply
    by (auto simp: leader_command_def CmdAssign_def CmdUpdateLeader_def state_at_def FSM_Get_def)
  ultimately show ?thesis using u by auto
qed

lemma new_raft_leader_assigns_no_roles_witness:
  "\<exists>c'. UpdatePartitionLeader (\<lambda>_. Committed) 0 (demo_created\<lparr>cTopics := []\<rparr>)
        \<lparr>ulTopic = ''t'', ulPartition = 0, ulBrokerAddr = ''b:1''\<rparr> = (c', [], Inl (Status NotFound))
    \<and> FSM_Get (fsm_of c') ''t'' 0 = Some ((\<lparr>psPrimary = ''a:1'', psBackups = [''b:1'', ''c:1''], psEpoch = 1, psISR = []\<rparr>)
        \<lparr>psPrimary := ''b:1'', psBackups := remaining_backups
           \<lparr>psPrimary = ''a:1'', psBackups = [''b:1'', ''c:1''], psEpoch = 1, psISR = []\<rparr> ''b:1'', psEpoch := 1 + 1\<rparr>)"
proof -
  let ?c = "demo_created\<lparr>cTopics := []\<rparr>"
  have h: "\<not> notLeader ?c" "cRaft ?c \<noteq> None" "FSM_Get (fsm_of ?c) ''t'' 0 =
       Some \<lparr>psPrimary = ''a:1'', psBackups = [''b:1'', ''c:1''], psEpoch = 1, psISR = []\<rparr>"
    "assignment_ok ''t'' 0 \<lparr>psPrimary = ''a:1'', psBackups = [''b:1'', ''c:1''], psEpoch = 1, psISR = []\<rparr>"
    "utf8_valid ''b:1''" "map_get (cTopics ?c) ''t'' = None" by code_simp+
  from new_raft_leader_assigns_no_roles [OF h(1-4) _ h(5) _ h(6), where raft = "\<lambda>_. Committed" and now = 0]
  show ?thesis by simp
qed

text \<open>
  A broker that comes back after it was declared dead is not made a follower again: the role
  calls that its heartbeat triggers carry epoch 0, and a broker ignores them for every partition
  that has had a leader epoch.
\<close>

lemma rejoin_has_no_effect:
  assumes "CallAssignRole cl areq \<in> set (fst (snd (Heartbeat now c req)))"
    and "getPartition b (arTopic areq) (arPartition areq) = Inr p" "0 < pLeaderEpoch p"
  shows "getPartition (fst (AssignRole dial b areq)) t i = getPartition b t i"
proof -
  have f: "arEpoch areq = 0 \<and> arRole areq = FOLLOWER"
    if "CallAssignRole cl areq \<in> set (assignFollowerRoles now c' topic as 0)" for c' topic as
    using that by (auto simp: assignFollowerRoles_def follower_calls_def split: option.splits if_splits)
  have "arEpoch areq = 0 \<and> arRole areq = FOLLOWER"
    using assms(1) by (auto simp: Heartbeat_def rejoinReturningBroker_def Let_def dest!: f
        split: if_splits option.splits prod.splits)
  then have role: "arRole areq = FOLLOWER" "BecomeFollower p (arLeaderId areq) (arEpoch areq) = p"
    using assms(3) by (simp_all add: BecomeFollower_def epoch_accepted_def)
  obtain b1 r where con: "ConnectToPeer dial b (arLeaderId areq) (arLeaderAddr areq) = (b1, r)" by force
  have b1: "getPartition b1 t i = getPartition b t i" for t i
    using getPartition_ConnectToPeer [OF con] by (rule getPartition_topics)
  show ?thesis
    using assms(2) role con by (cases r) (simp_all add: AssignRole_def b1 setPartition_self)
qed

definition rejoin_request :: assign_role_request where
  "rejoin_request = \<lparr>arTopic = ''t'', arPartition = 0, arRole = FOLLOWER, arLeaderId = 1, arLeaderAddr = ''a:1'',
     arEpoch = 0, arIsrIds = []\<rparr>"

definition rejoin_broker :: broker where
  "rejoin_broker = fst (AssignRole (\<lambda>_. True) demo_broker (rejoin_request\<lparr>arRole := LEADER, arEpoch := 1\<rparr>))"

lemma rejoin_has_no_effect_witness:
  "getPartition (fst (AssignRole (\<lambda>_. True) rejoin_broker rejoin_request)) ''t'' 0 = getPartition rejoin_broker ''t'' 0"
proof -
  let ?hb = "\<lparr>hbBrokerId = 2, hbBrokerAddr = '''', hbPartitionLeos = []\<rparr>"
  let ?p = "projr (getPartition rejoin_broker ''t'' 0)"
  have "CallAssignRole ''b:1'' rejoin_request \<in> set (fst (snd (Heartbeat 40000000000 demo_coordinator ?hb)))"
    "getPartition rejoin_broker (arTopic rejoin_request) (arPartition rejoin_request) = Inr ?p" "0 < pLeaderEpoch ?p"
    by code_simp+
  then show ?thesis by (rule rejoin_has_no_effect)
qed

text \<open>
  An ISR report for a partition that was never assigned is not refused: it creates an assignment
  without a primary, and the topic then exists for producers, with an empty broker address.
\<close>

lemma AlterIsr_creates_partition:
  assumes "aiTopic req \<noteq> ''''" "cRaft c = Some n" "rnIsLeader n" "gomap_ok (fsmState (rnFSM n))"
    and "\<And>i. FSM_Get (rnFSM n) (aiTopic req) i = None" "command_ok (isr_command req)" "\<And>d. raft d = Committed"
    and "aiPartition req = 0" "0 \<le> aiEpoch req"
  shows "\<exists>c'. AlterIsr raft c req = (c', Inr ()) \<and> GetMetadata c' (aiTopic req) = Inr [\<lparr>piPartition = 0, piBrokerAddr = ''''\<rparr>]"
proof -
  let ?f = "FSM_applyCommand (rnFSM n) (isr_command req)"
  let ?c' = "c\<lparr>cRaft := Some (n\<lparr>rnFSM := ?f\<rparr>)\<rparr>"
  have run: "AlterIsr raft c req = (?c', Inr ())"
  proof -
    have "raft_Apply raft c (isr_command req) = (?c', Inr ())" by (rule raft_Apply_committed [OF assms(2,6,7)])
    then show ?thesis using assms(1-3,5) by (simp add: AlterIsr_def notLeader_def fsm_of_def)
  qed
  have zero: "state_at (rnFSM n) (aiTopic req, 0) = zero_state" using assms(5) by (simp add: state_at_def FSM_Get_def)
  have "FSM_Get ?f (aiTopic req) i = (if 0 \<le> i \<and> i < int 1 then Some (zero_state\<lparr>psISR := aiIsrIds req\<rparr>) else None)" for i
    using assms(5,8,9) zero unfolding FSM_Get_apply
    by (auto simp: isr_command_def CmdAssign_def CmdUpdateLeader_def CmdUpdateISR_def zero_state_def)
  then have "GetMetadata ?c' (aiTopic req) = Inr (map (\<lambda>i. \<lparr>piPartition = int i,
      piBrokerAddr = psPrimary (zero_state\<lparr>psISR := aiIsrIds req\<rparr>)\<rparr>) [0..<1])"
    using assms(4) by (intro GetMetadata_of_fsm [where n = "n\<lparr>rnFSM := ?f\<rparr>"]) (simp_all add: FSM_apply_ok)
  then show ?thesis using run by (simp add: zero_state_def)
qed

lemma AlterIsr_creates_partition_witness:
  "\<exists>c'. AlterIsr (\<lambda>_. Committed) demo_registered \<lparr>aiTopic = ''x'', aiPartition = 0, aiEpoch = 0, aiIsrIds = [1]\<rparr> = (c', Inr ())
     \<and> GetMetadata c' ''x'' = Inr [\<lparr>piPartition = 0, piBrokerAddr = ''''\<rparr>]"
proof -
  let ?req = "\<lparr>aiTopic = ''x'', aiPartition = 0, aiEpoch = 0, aiIsrIds = [1]\<rparr>"
  have h: "cRaft demo_registered = Some demo_node" "rnIsLeader demo_node" "gomap_ok (fsmState (rnFSM demo_node))"
    "command_ok (isr_command ?req)" by code_simp+
  have "FSM_Get (rnFSM demo_node) (aiTopic ?req) i = None" for i
    by (simp add: demo_node_def newFSM_def FSM_Get_def)
  from AlterIsr_creates_partition [OF _ h(1-3) this h(4), where raft = "\<lambda>_. Committed"] show ?thesis by simp
qed

end
