(* ===== verification/Election.thy ===== *)
theory Election
  imports Replica_Set Coordinator
begin

text \<open>
  The coordinator's choice of a new leader (src/internal/coordinator/coordinator.go) meets what a failover of \<open>Replica_Set\<close> asks for, when
  the log ends it compares are current.  They come with heartbeats, so they may be behind; \<open>stale_election\<close>
  shows what is lost then.
\<close>

text \<open>
  The live backups are the followers of the partition, and each has reported the end of its log.
\<close>

definition reports_current :: "int \<Rightarrow> coordinator \<Rightarrow> string \<Rightarrow> int \<Rightarrow> string list \<Rightarrow> replica_set \<Rightarrow> bool" where
  "reports_current now c topic part backups g \<longleftrightarrow>
     list_all (\<lambda>b. live_backup now c b \<longrightarrow> (case map_get (cBrokerIDs c) b of None \<Rightarrow> False
       | Some i \<Rightarrow> List.member (gMembers g) i \<and> reported_leo c topic part b = Partition_LogEndOffset (gReplica g i))) backups
     \<and> list_all (\<lambda>j. list_ex (\<lambda>b. live_backup now c b \<and> map_get (cBrokerIDs c) b = Some j) backups) (gMembers g)"

lemma reports_current_live:
  assumes "reports_current now c topic part backups g" "b \<in> set backups" "live_backup now c b"
  obtains i where "map_get (cBrokerIDs c) b = Some i" "i \<in> set (gMembers g)" "reported_leo c topic part b = leo (gReplica g i)"
  using assms by (fastforce simp: reports_current_def list_all_iff Partition_LogEndOffset_def split: option.splits)

lemma reports_current_member:
  assumes "reports_current now c topic part backups g" "j \<in> set (gMembers g)"
  obtains b where "b \<in> set backups" "live_backup now c b" "map_get (cBrokerIDs c) b = Some j" "reported_leo c topic part b = leo (gReplica g j)"
proof -
  obtain b where b: "b \<in> set backups" "live_backup now c b" "map_get (cBrokerIDs c) b = Some j"
    using assms by (fastforce simp: reports_current_def list_all_iff list_ex_iff)
  then show thesis using that reports_current_live [OF assms(1) b(1,2)] by force
qed

text \<open>The choice has the longest log of the followers.\<close>

lemma elected_longest:
  assumes "list_all (\<lambda>(k, l). 0 \<le> l) (cBrokerLEO c)" "map_get (cBrokerIDs c) '''' = None"
    and "reports_current now c topic part backups g" "j \<in> set (gMembers g)"
  shows "\<exists>a w. pickNewLeader now c topic part backups = Some a \<and> map_get (cBrokerIDs c) a = Some w \<and> w \<in> set (gMembers g)
    \<and> (\<forall>k \<in> set (gMembers g). leo (gReplica g k) \<le> leo (gReplica g w))"
proof -
  note pick = pickNewLeader_choice [OF assms(1,2), where now = now and topic = topic and part = part and backups = backups]
  obtain b where "b \<in> set backups" "live_backup now c b" by (rule reports_current_member [OF assms(3,4)])
  then obtain a where a: "pickNewLeader now c topic part backups = Some a" using pick by (auto split: option.splits)
  then obtain pre post where p: "backups = pre @ a # post" "live_backup now c a"
    and best: "\<forall>b \<in> set pre. live_backup now c b \<longrightarrow> reported_leo c topic part b < reported_leo c topic part a"
      "\<forall>b \<in> set post. live_backup now c b \<longrightarrow> reported_leo c topic part b \<le> reported_leo c topic part a"
    using pick by auto
  then have max: "reported_leo c topic part b \<le> reported_leo c topic part a" if "b \<in> set backups" "live_backup now c b" for b
    using that by (auto dest: less_imp_le)
  have "a \<in> set backups" using p(1) by simp
  from reports_current_live [OF assms(3) this p(2)]
  obtain w where w: "map_get (cBrokerIDs c) a = Some w" "w \<in> set (gMembers g)" "reported_leo c topic part a = leo (gReplica g w)" .
  have "leo (gReplica g k) \<le> leo (gReplica g w)" if "k \<in> set (gMembers g)" for k
    using reports_current_member [OF assms(3) that] max w(3) by metis
  then show ?thesis using a w by blast
qed

section \<open>Properties\<close>


definition demo_reports :: "(int \<times> int) list \<Rightarrow> coordinator" where
  "demo_reports rs = fold (\<lambda>(i, l) c. fst (Heartbeat 20000000000 c \<lparr>hbBrokerId = i, hbBrokerAddr = '''',
     hbPartitionLeos = [\<lparr>plTopic = ''t'', plPartition = 0, plLogEndOffset = l\<rparr>]\<rparr>)) rs demo_created"


text \<open>
  With reports that are behind the choice may fall on a follower that lacks what was committed: here the one follower that
  stored the committed message has not reported it yet.
\<close>

lemma stale_election:
  "let g = the (set_run first_term fresh_set)
   in pickNewLeader 20000000000 (demo_reports [(2, 0), (3, 0)]) ''t'' 0 [''c:1'', ''b:1''] = Some ''c:1''
      \<and> map_get (cBrokerIDs (demo_reports [(2, 0), (3, 0)])) ''c:1'' = Some 3
      \<and> Partition_LogEndOffset (gReplica g 3) < gCommitted g \<and> gCommitted g \<le> Partition_LogEndOffset (gReplica g 2)"
  by code_simp

end
