(* ===== verification/Producer.thy ===== *)
theory Producer
  imports Coordinator
begin

text \<open>
  The producer, src/internal/producer/producer.go: the FNV-1 hash that maps a key to a partition,
  the cache of topic metadata, the cache of broker clients, and \<open>Route\<close>, which sends a message to the
  broker that leads the partition of its key.  A client is the address it was dialled with; the
  remote calls and the dialler are arguments.
\<close>

record producer =
  pdClient :: string
  pdConn :: string
  pdCoordConn :: "string option"
  pdCoordClient :: "string option"
  pdMetaCache :: "(string, partition_info list) gomap"
  pdBrokerClients :: "(string, string) gomap"

definition producer_New :: "(string \<Rightarrow> bool) \<Rightarrow> string \<Rightarrow> producer result" where
  "producer_New dial brokerAddr =
     (if \<not> dial brokerAddr then Inl (OtherError ''dial'')
      else Inr \<lparr>pdClient = brokerAddr, pdConn = brokerAddr, pdCoordConn = None, pdCoordClient = None,
                pdMetaCache = [], pdBrokerClients = []\<rparr>)"

text \<open>\<open>strings.Split\<close> at commas and \<open>strings.TrimSpace\<close> on ASCII addresses.\<close>

fun split_comma :: "string \<Rightarrow> string list" where
  "split_comma [] = [[]]"
| "split_comma (ch # s) =
     (if ch = CHR '','' then [] # split_comma s
      else (case split_comma s of [] \<Rightarrow> [[ch]] | w # ws \<Rightarrow> (ch # w) # ws))"

definition is_space :: "char \<Rightarrow> bool" where
  "is_space ch \<longleftrightarrow> ch \<in> {CHR '' '', CHR 0x09, CHR 0x0A, CHR 0x0B, CHR 0x0C, CHR 0x0D}"

definition TrimSpace :: "string \<Rightarrow> string" where
  "TrimSpace s = rev (dropWhile is_space (rev (dropWhile is_space s)))"

definition producer_ConnectCoordinator :: "(string \<Rightarrow> bool) \<Rightarrow> producer \<Rightarrow> string list \<Rightarrow> producer" where
  "producer_ConnectCoordinator dial p coordAddrs =
     (let p1 = p\<lparr>pdMetaCache := [], pdBrokerClients := []\<rparr>
      in case find (\<lambda>addr. addr \<noteq> '''' \<and> dial addr) (map TrimSpace (concat (map split_comma coordAddrs))) of
           Some addr \<Rightarrow> p1\<lparr>pdCoordConn := Some addr, pdCoordClient := Some addr\<rparr>
         | None \<Rightarrow> p1\<lparr>pdCoordClient := Some (pdConn p1)\<rparr>)"

text \<open>FNV-1 on 32 bits: multiply by the prime, then exclusive-or with the byte.\<close>

definition fnv32 :: "bytes \<Rightarrow> 32 word" where
  "fnv32 key = fold (\<lambda>b h. xor (h * 16777619) (of_nat (of_char b))) key 2166136261"

definition partitionForKey :: "bytes \<Rightarrow> int \<Rightarrow> int result" where
  "partitionForKey key numPartitions =
     (if key = [] \<or> numPartitions \<le> 1 then Inr 0
      else if uint32 numPartitions = 0 then Inl GoPanic
      else Inr (int32 (uint (fnv32 key) mod uint32 numPartitions)))"

definition metadata :: "(string \<Rightarrow> string \<Rightarrow> partition_info list result) \<Rightarrow> producer \<Rightarrow> string \<Rightarrow>
    producer \<times> partition_info list result" where
  "metadata getMetadata p topic = (case map_get (pdMetaCache p) topic of
      Some parts \<Rightarrow> (p, Inr parts)
    | None \<Rightarrow> (case pdCoordClient p of
        None \<Rightarrow> (p, Inl GoPanic)
      | Some c \<Rightarrow> (case getMetadata c topic of
          Inl e \<Rightarrow> (p, Inl e)
        | Inr parts \<Rightarrow> (p\<lparr>pdMetaCache := map_put topic parts (pdMetaCache p)\<rparr>, Inr parts))))"

definition producer_brokerClient :: "(string \<Rightarrow> bool) \<Rightarrow> producer \<Rightarrow> string \<Rightarrow> producer \<times> string result" where
  "producer_brokerClient dial p addr = (case map_get (pdBrokerClients p) addr of
      Some client \<Rightarrow> (p, Inr client)
    | None \<Rightarrow> if \<not> dial addr then (p, Inl (OtherError ''dial''))
              else (p\<lparr>pdBrokerClients := map_put addr addr (pdBrokerClients p)\<rparr>, Inr addr))"

definition Send :: "(string \<Rightarrow> produce_request \<Rightarrow> int result) \<Rightarrow> producer \<Rightarrow> string \<Rightarrow> int \<Rightarrow> bytes \<Rightarrow> bytes \<Rightarrow> int result" where
  "Send produce p topic i key val =
     produce (pdClient p) \<lparr>prTopic = topic, prPartition = i, prKey = key, prValue = val\<rparr>"

text \<open>What \<open>Route\<close> does to the caches when \<open>Produce\<close> fails.\<close>

definition route_failed :: "producer \<Rightarrow> string \<Rightarrow> string \<Rightarrow> go_error \<Rightarrow> producer" where
  "route_failed p topic addr e =
     (if e = Status FailedPrecondition then p\<lparr>pdMetaCache := map_del topic (pdMetaCache p)\<rparr>
      else if e = Status Unavailable then p\<lparr>pdMetaCache := map_del topic (pdMetaCache p),
        pdBrokerClients := map_del addr (pdBrokerClients p)\<rparr>
      else p)"

definition Route :: "(string \<Rightarrow> string \<Rightarrow> partition_info list result) \<Rightarrow> (string \<Rightarrow> bool) \<Rightarrow>
    (string \<Rightarrow> produce_request \<Rightarrow> int result) \<Rightarrow> producer \<Rightarrow> string \<Rightarrow> bytes \<Rightarrow> bytes \<Rightarrow>
    producer \<times> (int \<times> int) result" where
  "Route getMetadata dial produce p topic key val =
     (case metadata getMetadata p topic of
        (p1, Inl e) \<Rightarrow> (p1, Inl e)
      | (p1, Inr parts) \<Rightarrow>
         (case partitionForKey key (int (length parts)) of
            Inl e \<Rightarrow> (p1, Inl e)
          | Inr i \<Rightarrow>
             if i < 0 \<or> int (length parts) \<le> i then (p1, Inl GoPanic)
             else let addr = piBrokerAddr (parts ! nat i)
                  in case producer_brokerClient dial p1 addr of
                       (p2, Inl e) \<Rightarrow> (p2, Inl e)
                     | (p2, Inr client) \<Rightarrow>
                        (case produce client \<lparr>prTopic = topic, prPartition = i, prKey = key, prValue = val\<rparr> of
                           Inl e \<Rightarrow> (route_failed p2 topic addr e, Inl e)
                         | Inr offset \<Rightarrow> (p2, Inr (i, offset)))))"

text \<open>Every cached client was dialled with the address it is cached under.\<close>

definition clients_ok :: "producer \<Rightarrow> bool" where
  "clients_ok p \<longleftrightarrow> list_all (\<lambda>(addr, client). client = addr) (pdBrokerClients p)"

definition key_partition :: "bytes \<Rightarrow> nat \<Rightarrow> nat" where
  "key_partition key n = (if key = [] \<or> n \<le> 1 then 0 else nat (uint (fnv32 key) mod int n))"

section \<open>The partition of a key\<close>

lemma partitionForKey_eq:
  assumes "n < 2 ^ 31"
  shows "partitionForKey key (int n) = Inr (int (key_partition key n))"
proof (cases "key = [] \<or> n \<le> 1")
  case False
  have u: "uint32 (int n) = int n" using assms by (simp add: uint32_def)
  have r: "0 \<le> uint (fnv32 key) mod int n" "uint (fnv32 key) mod int n < int n" using False by simp_all
  then have "int32 (uint (fnv32 key) mod int n) = uint (fnv32 key) mod int n"
    using assms by (intro int32_id) (simp add: is_int32_def)
  then show ?thesis using False u r by (simp add: partitionForKey_def key_partition_def)
qed (auto simp: partitionForKey_def key_partition_def)

lemma key_partition_less: "0 < n \<Longrightarrow> key_partition key n < n"
  by (simp add: key_partition_def nat_less_iff)

lemma producer_brokerClient_ok:
  assumes "clients_ok p" "dial addr"
  obtains p' where "producer_brokerClient dial p addr = (p', Inr addr)" "clients_ok p'" "pdMetaCache p' = pdMetaCache p"
proof (cases "map_get (pdBrokerClients p) addr")
  case None
  then show ?thesis
    using assms that [of "p\<lparr>pdBrokerClients := map_put addr addr (pdBrokerClients p)\<rparr>"]
    by (auto simp: producer_brokerClient_def clients_ok_def)
next
  case (Some client)
  then have "client = addr" using assms(1) list_all_get by (fastforce simp: clients_ok_def)
  then show ?thesis using assms(1) Some that [of p] by (simp add: producer_brokerClient_def)
qed

lemma list_all_del: "list_all P m \<Longrightarrow> list_all P (map_del k m)"
  by (induction m) auto

text \<open>\<open>Route\<close> once the metadata is known.\<close>

lemma Route_known:
  assumes "clients_ok p" "metadata getMetadata p topic = (p1, Inr parts)" "clients_ok p1" "parts \<noteq> []" "length parts < 2 ^ 31"
    and "dial (piBrokerAddr (parts ! key_partition key (length parts)))"
  defines "i \<equiv> key_partition key (length parts)"
  obtains p2 where "clients_ok p2" "pdMetaCache p2 = pdMetaCache p1"
    "Route getMetadata dial produce p topic key val =
      (case produce (piBrokerAddr (parts ! i)) \<lparr>prTopic = topic, prPartition = int i, prKey = key, prValue = val\<rparr> of
         Inl e \<Rightarrow> (route_failed p2 topic (piBrokerAddr (parts ! i)) e, Inl e)
       | Inr offset \<Rightarrow> (p2, Inr (int i, offset)))"
proof -
  have i: "i < length parts" unfolding i_def using assms(4) by (simp add: key_partition_less)
  obtain p2 where p2: "producer_brokerClient dial p1 (piBrokerAddr (parts ! i)) = (p2, Inr (piBrokerAddr (parts ! i)))"
    "clients_ok p2" "pdMetaCache p2 = pdMetaCache p1"
    using producer_brokerClient_ok [OF assms(3)] assms(6) unfolding i_def by blast
  show ?thesis
    using p2 i assms(2) partitionForKey_eq [OF assms(5), of key]
    by (intro that [of p2]) (auto simp: Route_def i_def [symmetric] Let_def split: sum.splits)
qed

lemma metadata_clients: "metadata getMetadata p topic = (p1, r) \<Longrightarrow> pdBrokerClients p1 = pdBrokerClients p"
  by (auto simp: metadata_def split: option.splits sum.splits)

text \<open>A call of \<open>Route\<close> that succeeds got its offset from the broker of the partition it returns.\<close>

lemma Route_success:
  assumes "clients_ok p" "metadata getMetadata p topic = (p1, Inr parts)"
    and "Route getMetadata dial produce p topic key val = (p', Inr (i, offset))"
  shows "0 \<le> i" "nat i < length parts"
    and "produce (piBrokerAddr (parts ! nat i)) \<lparr>prTopic = topic, prPartition = i, prKey = key, prValue = val\<rparr> = Inr offset"
proof -
  have ok: "clients_ok p1" using assms(1) metadata_clients [OF assms(2)] by (simp add: clients_ok_def)
  have client: "cl = addr" if "producer_brokerClient dial p1 addr = (p2, Inr cl)" for p2 cl addr
    using that ok list_all_get
    by (fastforce simp: producer_brokerClient_def clients_ok_def split: option.splits if_splits)
  show "0 \<le> i" "nat i < length parts"
    and "produce (piBrokerAddr (parts ! nat i)) \<lparr>prTopic = topic, prPartition = i, prKey = key, prValue = val\<rparr> = Inr offset"
    using assms(2,3) client
    by (auto simp: Route_def Let_def split: sum.splits prod.splits if_splits)
qed

section \<open>Properties\<close>

text \<open>
  C32: \<open>Route\<close> sends a message to exactly the partition that the FNV-1 hash of its key selects, at the
  broker the metadata names for it, and returns that partition with the offset the broker gave;
  the partition lies in the range of the topic and depends only on the key and their number.
\<close>

theorem Route_to_leader:
  assumes "clients_ok p" "metadata getMetadata p topic = (p1, Inr parts)" "parts \<noteq> []" "length parts < 2 ^ 31"
    and "dial (piBrokerAddr (parts ! key_partition key (length parts)))"
    and "produce (piBrokerAddr (parts ! key_partition key (length parts)))
      \<lparr>prTopic = topic, prPartition = int (key_partition key (length parts)), prKey = key, prValue = val\<rparr> = Inr offset"
  shows "\<exists>p'. Route getMetadata dial produce p topic key val = (p', Inr (int (key_partition key (length parts)), offset))
    \<and> clients_ok p' \<and> pdMetaCache p' = pdMetaCache p1 \<and> key_partition key (length parts) < length parts"
proof -
  have "clients_ok p1" using assms(1) metadata_clients [OF assms(2)] by (simp add: clients_ok_def)
  from Route_known [where dial = dial and key = key and parts = parts and p = p and produce = produce and val = val,
      OF assms(1,2) this assms(3-5)] obtain p2 where "clients_ok p2" "pdMetaCache p2 = pdMetaCache p1"
    "Route getMetadata dial produce p topic key val = (p2, Inr (int (key_partition key (length parts)), offset))"
    using assms(6) by (metis (no_types, lifting) sum.case(2))
  then show ?thesis using assms(3) by (simp add: key_partition_less)
qed

definition demo_producer :: producer where
  "demo_producer = \<lparr>pdClient = ''a:1'', pdConn = ''a:1'', pdCoordConn = None, pdCoordClient = Some ''a:1'',
     pdMetaCache = [(''t'', [\<lparr>piPartition = 0, piBrokerAddr = ''a:1''\<rparr>, \<lparr>piPartition = 1, piBrokerAddr = ''b:1''\<rparr>])],
     pdBrokerClients = []\<rparr>"

theorem Route_to_leader_witness:
  "\<exists>p'. Route (\<lambda>_ _. Inl (Status Internal)) (\<lambda>_. True) (\<lambda>_ _. Inr 5) demo_producer ''t'' ''k'' ''v''
      = (p', Inr (int (key_partition ''k'' 2), 5))"
proof -
  let ?parts = "[\<lparr>piPartition = 0, piBrokerAddr = ''a:1''\<rparr>, \<lparr>piPartition = 1, piBrokerAddr = ''b:1''\<rparr>]"
  have "clients_ok demo_producer" by code_simp
  moreover have "metadata (\<lambda>_ _. Inl (Status Internal)) demo_producer ''t'' = (demo_producer, Inr ?parts)"
    by (simp add: metadata_def demo_producer_def)
  moreover have "length ?parts = 2" "(2::nat) < 2 ^ 31" by simp_all
  ultimately show ?thesis
    using Route_to_leader [of demo_producer "\<lambda>_ _. Inl (Status Internal)" "''t''" demo_producer ?parts "\<lambda>_. True" "''k''"
        "\<lambda>_ _. Inr 5" "''v''" 5] by (metis list.discI)
qed

text \<open>
  C33: A producer recovers from a change of leader: when the broker it holds for leader refuses with
  \<open>FailedPrecondition\<close> or is unavailable, the failed call drops the cached metadata, and the next
  call goes to the leader the coordinator names then.
\<close>

theorem Route_recovers:
  assumes "clients_ok p" "map_get (pdMetaCache p) topic = Some old" "old \<noteq> []" "length old < 2 ^ 31"
    and "produce (piBrokerAddr (old ! key_partition key (length old)))
      \<lparr>prTopic = topic, prPartition = int (key_partition key (length old)), prKey = key, prValue = val\<rparr> = Inl e"
    and "e = Status FailedPrecondition \<or> e = Status Unavailable" "\<And>a. dial a"
    and "pdCoordClient p = Some c" "getMetadata c topic = Inr new" "new \<noteq> []" "length new < 2 ^ 31"
    and "produce (piBrokerAddr (new ! key_partition key (length new)))
      \<lparr>prTopic = topic, prPartition = int (key_partition key (length new)), prKey = key, prValue = val\<rparr> = Inr offset"
  shows "\<exists>p' p''. Route getMetadata dial produce p topic key val = (p', Inl e)
    \<and> Route getMetadata dial produce p' topic key val = (p'', Inr (int (key_partition key (length new)), offset))"
proof -
  let ?addr = "piBrokerAddr (old ! key_partition key (length old))"
  have meta: "metadata getMetadata p topic = (p, Inr old)" using assms(2) by (simp add: metadata_def)
  obtain p2 where p2: "clients_ok p2" "pdMetaCache p2 = pdMetaCache p" "pdCoordClient p2 = pdCoordClient p"
    "Route getMetadata dial produce p topic key val = (route_failed p2 topic ?addr e, Inl e)"
  proof -
    obtain q where q: "producer_brokerClient dial p ?addr = (q, Inr ?addr)" "clients_ok q" "pdMetaCache q = pdMetaCache p"
      using producer_brokerClient_ok [OF assms(1)] assms(7) by blast
    have "pdCoordClient q = pdCoordClient p"
      using q(1) by (auto simp: producer_brokerClient_def split: option.splits if_splits)
    then show ?thesis
      using q meta assms(3,5) partitionForKey_eq [OF assms(4), of key] key_partition_less [of "length old" key]
      by (intro that [of q]) (auto simp: Route_def Let_def)
  qed
  let ?p' = "route_failed p2 topic ?addr e"
  have ok: "clients_ok ?p'"
    using p2(1) by (simp add: route_failed_def clients_ok_def list_all_del)
  have "map_get (pdMetaCache ?p') topic = None" using assms(6) by (auto simp: route_failed_def go_map)
  moreover have "pdCoordClient ?p' = Some c" using p2(3) assms(8) by (simp add: route_failed_def)
  ultimately have meta': "metadata getMetadata ?p' topic =
      (?p'\<lparr>pdMetaCache := map_put topic new (pdMetaCache ?p')\<rparr>, Inr new)"
    using assms(9) by (simp add: metadata_def)
  have "clients_ok (?p'\<lparr>pdMetaCache := map_put topic new (pdMetaCache ?p')\<rparr>)" using ok by (simp add: clients_ok_def)
  from Route_known [where dial = dial and key = key and parts = new and p = ?p' and produce = produce and val = val,
      OF ok meta' this assms(10,11) assms(7)] obtain p3 where
    "Route getMetadata dial produce ?p' topic key val = (p3, Inr (int (key_partition key (length new)), offset))"
    using assms(12) by (metis (no_types, lifting) sum.case(2))
  then show ?thesis using p2(4) by blast
qed

theorem Route_recovers_witness:
  "\<exists>p' p''. Route (\<lambda>_ _. Inr [\<lparr>piPartition = 0, piBrokerAddr = ''c:1''\<rparr>]) (\<lambda>_. True)
        (\<lambda>a _. if a = ''c:1'' then Inr 9 else Inl (Status Unavailable)) demo_producer ''t'' '''' ''v'' = (p', Inl (Status Unavailable))
    \<and> Route (\<lambda>_ _. Inr [\<lparr>piPartition = 0, piBrokerAddr = ''c:1''\<rparr>]) (\<lambda>_. True)
        (\<lambda>a _. if a = ''c:1'' then Inr 9 else Inl (Status Unavailable)) p' ''t'' '''' ''v''
      = (p'', Inr (int (key_partition '''' 1), 9))"
proof -
  let ?old = "[\<lparr>piPartition = 0, piBrokerAddr = ''a:1''\<rparr>, \<lparr>piPartition = 1, piBrokerAddr = ''b:1''\<rparr>]"
  have "clients_ok demo_producer" "map_get (pdMetaCache demo_producer) ''t'' = Some ?old" "pdCoordClient demo_producer = Some ''a:1''"
    by code_simp+
  from Route_recovers [OF this(1,2) _ _ _ _ _ this(3), where key = "''''" and val = "''v''" and offset = 9
      and e = "Status Unavailable" and dial = "\<lambda>_. True"
      and produce = "\<lambda>a _. if a = ''c:1'' then Inr 9 else Inl (Status Unavailable)"
      and getMetadata = "\<lambda>_ _. Inr [\<lparr>piPartition = 0, piBrokerAddr = ''c:1''\<rparr>]" and new = "[\<lparr>piPartition = 0, piBrokerAddr = ''c:1''\<rparr>]"]
  show ?thesis by (simp add: key_partition_def)
qed

end
