(* ===== verification/Consumer.thy ===== *)
theory Consumer
  imports Coordinator
begin

text \<open>
  The consumer, src/internal/consumer/consumer.go: the loop that reads a \<open>Fetch\<close> stream and reopens it
  from the next offset when it breaks, consumer groups with one reader per assigned partition, the
  periodic rebalance and the commit of offsets.

  A client is the address it was dialled with.  \<open>net cl req k\<close> is the message number \<open>k\<close> that the
  broker behind \<open>cl\<close> sends on a stream opened with \<open>req\<close>, or \<open>None\<close> when it has not sent so many.  The
  network answers every call of \<open>Fetch\<close> and \<open>Recv\<close> in turn: the list of answers is an argument, and a
  poll that consumes all of them without returning is still blocked, which is the value \<open>None\<close>.
  The struct \<open>Consumer\<close> repeats the five fields of a \<open>partitionReader\<close> for its own topic and partition
  and its \<open>Poll\<close> repeats the loop of \<open>partitionReader.poll\<close> on them: the model has the loop once and
  the five fields as the component \<open>cnSelf\<close>.
\<close>

subsection \<open>Reading one partition\<close>

record partition_reader =
  rdClient :: string
  rdTopic :: string
  rdPartition :: int
  rdNextOffset :: int
  rdStream :: "(fetch_request \<times> nat) option"

datatype answer = AnsOk | AnsErr bool go_error

definition transient :: "go_error \<Rightarrow> bool" where
  "transient e \<longleftrightarrow> e \<in> {EndOfStream, Status Unavailable, Status Internal, Status Unknown}"

definition reader_request :: "partition_reader \<Rightarrow> fetch_request" where
  "reader_request pr = \<lparr>feTopic = rdTopic pr, fePartition = rdPartition pr, feStartOffset = rdNextOffset pr\<rparr>"

text \<open>
  \<open>AnsOk\<close>: the call succeeds.  \<open>AnsErr done e\<close>: it fails with \<open>e\<close>; \<open>done\<close> says whether the caller's
  context is cancelled by then.
\<close>

fun reader_poll :: "(string \<Rightarrow> fetch_request \<Rightarrow> nat \<Rightarrow> message option) \<Rightarrow> answer list \<Rightarrow> partition_reader \<Rightarrow>
    (partition_reader \<times> answer list \<times> message result) option" where
  "reader_poll net [] pr = None"
| "reader_poll net (a # as) pr = (case rdStream pr of
      None \<Rightarrow> (case a of
          AnsErr _ e \<Rightarrow> Some (pr, as, Inl e)
        | AnsOk \<Rightarrow> reader_poll net as (pr\<lparr>rdStream := Some (reader_request pr, 0)\<rparr>))
    | Some (req, k) \<Rightarrow> (case a of
          AnsOk \<Rightarrow> (case net (rdClient pr) req k of
              None \<Rightarrow> None
            | Some msg \<Rightarrow> Some (pr\<lparr>rdNextOffset := int64 (msgOffset msg + 1), rdStream := Some (req, k + 1)\<rparr>, as, Inr msg))
        | AnsErr isDone e \<Rightarrow>
            if isDone then Some (pr\<lparr>rdStream := None\<rparr>, as, Inl ContextErr)
            else if transient e then reader_poll net as (pr\<lparr>rdStream := None\<rparr>)
            else Some (pr\<lparr>rdStream := None\<rparr>, as, Inl e)))"

lemma reader_poll_consumes: "reader_poll net as pr = Some (pr', as', r) \<Longrightarrow> length as' < length as"
  by (induction net as pr rule: reader_poll.induct)
    (auto split: option.splits answer.splits if_splits prod.splits intro: less_SucI)

text \<open>Polling again and again until the answers run out; the results in order.\<close>

function reader_polls :: "(string \<Rightarrow> fetch_request \<Rightarrow> nat \<Rightarrow> message option) \<Rightarrow> answer list \<Rightarrow> partition_reader \<Rightarrow>
    partition_reader \<times> message result list" where
  "reader_polls net as pr = (case reader_poll net as pr of
      None \<Rightarrow> (pr, [])
    | Some (pr', as', r) \<Rightarrow> (case reader_polls net as' pr' of (pr'', rs) \<Rightarrow> (pr'', r # rs)))"
  by pat_completeness auto
termination
  by (relation "measure (\<lambda>(net, as, pr). length as)") (auto dest: reader_poll_consumes)

declare reader_polls.simps [simp del]

definition delivered :: "message result list \<Rightarrow> message list" where
  "delivered rs = concat (map (\<lambda>r. case r of Inl _ \<Rightarrow> [] | Inr m \<Rightarrow> [m]) rs)"

subsection \<open>Consumers and groups\<close>

record consumer =
  cnSelf :: partition_reader
  cnConn :: string
  cnCoordClient :: "string option"
  cnGroupID :: string
  cnMemberID :: string
  cnReaders :: "partition_reader list"
  cnNextIdx :: int
  cnLastRebalanceCheck :: int
  cnRebalanceInterval :: int
  cnRebalanceIntervalIsSet :: bool

definition consumer_New :: "(string \<Rightarrow> bool) \<Rightarrow> string \<Rightarrow> string \<Rightarrow> int \<Rightarrow> int \<Rightarrow> consumer result" where
  "consumer_New dial brokerAddr topic i startOffset =
     (if \<not> dial brokerAddr then Inl (OtherError ''dial'')
      else Inr \<lparr>cnSelf = \<lparr>rdClient = brokerAddr, rdTopic = topic, rdPartition = i, rdNextOffset = startOffset, rdStream = None\<rparr>,
        cnConn = brokerAddr, cnCoordClient = None, cnGroupID = '''', cnMemberID = '''', cnReaders = [], cnNextIdx = 0,
        cnLastRebalanceCheck = 0, cnRebalanceInterval = 0, cnRebalanceIntervalIsSet = False\<rparr>)"

definition SetRebalanceInterval :: "consumer \<Rightarrow> int \<Rightarrow> consumer" where
  "SetRebalanceInterval c d = c\<lparr>cnRebalanceInterval := d, cnRebalanceIntervalIsSet := True\<rparr>"

definition new_reader :: "string \<Rightarrow> string \<Rightarrow> int \<Rightarrow> partition_reader" where
  "new_reader cl topic i = \<lparr>rdClient = cl, rdTopic = topic, rdPartition = i, rdNextOffset = 0, rdStream = None\<rparr>"

definition partitionBroker :: "partition_info list \<Rightarrow> (int, string) gomap" where
  "partitionBroker parts = fold (\<lambda>pi m. map_put (piPartition pi) (piBrokerAddr pi) m) parts []"

text \<open>The loop of \<open>JoinGroup\<close>: an error leaves the readers opened so far in place.\<close>

fun open_readers :: "(string \<Rightarrow> bool) \<Rightarrow> (int, string) gomap \<Rightarrow> string \<Rightarrow> int list \<Rightarrow> partition_reader list \<Rightarrow>
    partition_reader list \<times> unit result" where
  "open_readers dial pb topic [] rs = (rs, Inr ())"
| "open_readers dial pb topic (i # is) rs = (case map_get pb i of
      None \<Rightarrow> (rs, Inl (OtherError ''metadata missing partition''))
    | Some addr \<Rightarrow> if \<not> dial addr then (rs, Inl (OtherError ''dial''))
                   else open_readers dial pb topic is (rs @ [new_reader addr topic i]))"

text \<open>\<open>join\<close> and \<open>getMeta\<close> are the coordinator's answers to \<open>JoinGroup\<close> and \<open>GetMetadata\<close>.\<close>

definition consumer_JoinGroup :: "(string \<Rightarrow> bool) \<Rightarrow> (join_group_request \<Rightarrow> int list result) \<Rightarrow>
    (string \<Rightarrow> partition_info list result) \<Rightarrow> int \<Rightarrow> consumer \<Rightarrow> string \<Rightarrow> string \<Rightarrow> string \<Rightarrow> consumer \<times> unit result" where
  "consumer_JoinGroup dial join getMeta now c groupID memberID topic =
     (let c1 = c\<lparr>cnCoordClient := Some (cnConn c), cnGroupID := groupID, cnMemberID := memberID,
                 cnSelf := (cnSelf c)\<lparr>rdTopic := topic\<rparr>\<rparr>;
          c2 = (if \<not> cnRebalanceIntervalIsSet c1 then c1\<lparr>cnRebalanceInterval := 5 * second\<rparr> else c1)
      in case join \<lparr>jgGroupId = groupID, jgMemberId = memberID, jgTopic = topic\<rparr> of
           Inl e \<Rightarrow> (c2, Inl e)
         | Inr assigned \<Rightarrow> (case getMeta topic of
             Inl e \<Rightarrow> (c2, Inl e)
           | Inr parts \<Rightarrow> (case open_readers dial (partitionBroker parts) topic assigned [] of
               (rs, Inl e) \<Rightarrow> (c2\<lparr>cnReaders := rs\<rparr>, Inl e)
             | (rs, Inr _) \<Rightarrow> (c2\<lparr>cnReaders := rs, cnLastRebalanceCheck := now\<rparr>, Inr ()))))"

text \<open>The new reader slice of \<open>tryRebalance\<close>: a reader kept for a partition the consumer already has.\<close>

definition rebalanced_reader :: "(string \<Rightarrow> bool) \<Rightarrow> (int, string) gomap \<Rightarrow> string \<Rightarrow> (int, partition_reader) gomap \<Rightarrow>
    int \<Rightarrow> partition_reader list" where
  "rebalanced_reader dial pb topic existing i = (case map_get existing i of
      Some pr \<Rightarrow> [pr]
    | None \<Rightarrow> (case map_get pb i of
        None \<Rightarrow> []
      | Some addr \<Rightarrow> if \<not> dial addr then [] else [new_reader addr topic i]))"

definition assignment_unchanged :: "int list \<Rightarrow> partition_reader list \<Rightarrow> bool" where
  "assignment_unchanged assigned rs \<longleftrightarrow> length assigned = length rs \<and> list_all (\<lambda>pr. rdPartition pr \<in> set assigned) rs"

definition tryRebalance :: "(string \<Rightarrow> bool) \<Rightarrow> (join_group_request \<Rightarrow> int list result) \<Rightarrow>
    (string \<Rightarrow> partition_info list result) \<Rightarrow> int \<Rightarrow> consumer \<Rightarrow> consumer \<times> unit result" where
  "tryRebalance dial join getMeta now c =
     (let c1 = c\<lparr>cnLastRebalanceCheck := now\<rparr>; topic = rdTopic (cnSelf c)
      in case join \<lparr>jgGroupId = cnGroupID c, jgMemberId = cnMemberID c, jgTopic = topic\<rparr> of
           Inl e \<Rightarrow> (c1, Inl e)
         | Inr assigned \<Rightarrow>
            if assignment_unchanged assigned (cnReaders c) then (c1, Inr ())
            else (case getMeta topic of
                Inl e \<Rightarrow> (c1, Inl e)
              | Inr parts \<Rightarrow>
                 (let existing = fold (\<lambda>pr m. map_put (rdPartition pr) pr m) (cnReaders c) []
                  in (c1\<lparr>cnReaders := concat (map (rebalanced_reader dial (partitionBroker parts) topic existing) assigned),
                         cnNextIdx := 0\<rparr>, Inr ()))))"

text \<open>
  \<open>Poll\<close>.  The index is \<open>c.nextIdx % len(c.readers)\<close>, Go's truncated remainder, which indexes out of
  range when a wrapped \<open>nextIdx\<close> is negative and no multiple of the length.
\<close>

definition consumer_Poll :: "(string \<Rightarrow> fetch_request \<Rightarrow> nat \<Rightarrow> message option) \<Rightarrow> (string \<Rightarrow> bool) \<Rightarrow>
    (join_group_request \<Rightarrow> int list result) \<Rightarrow> (string \<Rightarrow> partition_info list result) \<Rightarrow> int \<Rightarrow> answer list \<Rightarrow> consumer \<Rightarrow>
    (consumer \<times> answer list \<times> message result) option" where
  "consumer_Poll net dial join getMeta now as c =
     (if cnReaders c \<noteq> [] then
        let c1 = (if cnRebalanceInterval c \<le> now - cnLastRebalanceCheck c then fst (tryRebalance dial join getMeta now c) else c);
            n = int (length (cnReaders c1)); i = cnNextIdx c1 mod n
        in if cnReaders c1 = [] then Some (c1, as, Inl (OtherError ''no partitions assigned after rebalance''))
           else if cnNextIdx c1 < 0 \<and> i \<noteq> 0 then Some (c1, as, Inl GoPanic)
           else (case reader_poll net as (cnReaders c1 ! nat i) of
               None \<Rightarrow> None
             | Some (pr, as', r) \<Rightarrow> Some (c1\<lparr>cnReaders := (cnReaders c1)[nat i := pr], cnNextIdx := int64 (cnNextIdx c1 + 1)\<rparr>, as', r))
      else (case reader_poll net as (cnSelf c) of
               None \<Rightarrow> None
             | Some (pr, as', r) \<Rightarrow> Some (c\<lparr>cnSelf := pr\<rparr>, as', r)))"

definition commit_request :: "consumer \<Rightarrow> commit_offsets_request" where
  "commit_request c = \<lparr>coGroupId = cnGroupID c, coTopic = rdTopic (cnSelf c),
     coOffsets = map (\<lambda>pr. (rdPartition pr, rdNextOffset pr)) (cnReaders c)\<rparr>"

definition consumer_CommitOffsets :: "(commit_offsets_request \<Rightarrow> unit result) \<Rightarrow> consumer \<Rightarrow> unit result" where
  "consumer_CommitOffsets commit c = (case cnCoordClient c of None \<Rightarrow> Inl GoPanic | Some _ \<Rightarrow> commit (commit_request c))"

definition consumer_Offset :: "consumer \<Rightarrow> int" where
  "consumer_Offset c = rdNextOffset (cnSelf c)"

definition AssignedPartitions :: "consumer \<Rightarrow> int list" where
  "AssignedPartitions c = map rdPartition (cnReaders c)"

definition consumer_Close :: "consumer \<Rightarrow> consumer" where
  "consumer_Close c = c\<lparr>cnSelf := (cnSelf c)\<lparr>rdStream := None\<rparr>\<rparr>"

subsection \<open>The stream a broker serves and the state of a reader\<close>

definition committed :: "partition \<Rightarrow> message list" where
  "committed p = take (nat (pHw p)) (log_msgs (pLog p))"

text \<open>What the broker's \<open>Fetch\<close> has sent for a request when it comes to its wait.\<close>

definition broker_stream :: "partition \<Rightarrow> fetch_request \<Rightarrow> nat \<Rightarrow> message option" where
  "broker_stream p req k =
     (let sent = fcSent (Fetch_drain p \<lparr>fcOffset = feStartOffset req, fcSent = [], fcEnd = None\<rparr>)
      in if k < length sent then Some (sent ! k) else None)"

definition serving :: "partition \<Rightarrow> bool" where
  "serving p \<longleftrightarrow> committed_inv p \<and> Partition_LogEndOffset p + 64 < 2 ^ 63"

text \<open>A reader of a log: its open stream, if any, continues at its next offset.\<close>

definition reader_ok :: "partition_reader \<Rightarrow> bool" where
  "reader_ok pr \<longleftrightarrow> 0 \<le> rdNextOffset pr
     \<and> (case rdStream pr of
          None \<Rightarrow> True
        | Some (req, k) \<Rightarrow> feTopic req = rdTopic pr \<and> fePartition req = rdPartition pr \<and> 0 \<le> feStartOffset req
            \<and> feStartOffset req + int k = rdNextOffset pr)"

definition serves :: "(string \<Rightarrow> fetch_request \<Rightarrow> nat \<Rightarrow> message option) \<Rightarrow> (fetch_request \<Rightarrow> nat \<Rightarrow> message option) \<Rightarrow>
    partition_reader \<Rightarrow> bool" where
  "serves net srv pr \<longleftrightarrow> (\<forall>req k. feTopic req = rdTopic pr \<longrightarrow> fePartition req = rdPartition pr \<longrightarrow> net (rdClient pr) req k = srv req k)"

section \<open>Readers of an ordered source\<close>

text \<open>
  What a reader relies on: in a good state \<open>s\<close>, a stream gives the messages of the log \<open>lg s\<close> from its
  start offset on (none if the log ends before), and every message carries its position.
\<close>

locale fetch_source =
  fixes good :: "'s \<Rightarrow> bool"
    and srv :: "'s \<Rightarrow> fetch_request \<Rightarrow> nat \<Rightarrow> message option"
    and lg :: "'s \<Rightarrow> message list"
  assumes srv_delivers: "good s \<Longrightarrow> 0 \<le> feStartOffset req \<Longrightarrow>
      srv s req k = (if nat (feStartOffset req) + k < length (lg s) then Some (lg s ! (nat (feStartOffset req) + k)) else None)"
    and offsets: "good s \<Longrightarrow> offsets_ok (lg s)"
    and bounded: "good s \<Longrightarrow> int (length (lg s)) < 2 ^ 63"
begin

lemma recv:
  assumes "good s" "serves net (srv s) pr" "reader_ok pr" "rdStream pr = Some (req, k)"
  shows "net (rdClient pr) req k = (if nat (rdNextOffset pr) < length (lg s) then Some (lg s ! nat (rdNextOffset pr)) else None)"
proof -
  have "nat (feStartOffset req) + k = nat (rdNextOffset pr)"
    using assms(3,4) by (auto simp: reader_ok_def)
  moreover have "net (rdClient pr) req k = srv s req k" using assms(2-4) by (simp add: serves_def reader_ok_def)
  ultimately show ?thesis using srv_delivers [OF assms(1), of req k] assms(3,4) by (simp add: reader_ok_def)
qed

lemma next_offset:
  assumes "good s" "0 \<le> off" "nat off < length (lg s)"
  shows "int64 (msgOffset (lg s ! nat off) + 1) = off + 1"
proof -
  have "msgOffset (lg s ! nat off) = off"
    using offsets [OF assms(1)] assms(2,3) by (metis offsets_ok_def nth_map length_map add_0 nth_upt int_nat_eq)
  moreover have "is_int64 (off + 1)" using bounded [OF assms(1)] assms(2,3) by (simp add: is_int64_def)
  ultimately show ?thesis by (simp add: go_int)
qed

text \<open>One call of \<open>poll\<close>: an error keeps the next offset, a message is the one at the next offset.\<close>

lemma poll_step:
  assumes "good s" "reader_poll net as pr = Some (pr', as', r)" "serves net (srv s) pr" "reader_ok pr"
  shows "serves net (srv s) pr' \<and> reader_ok pr' \<and>
    (case r of Inl _ \<Rightarrow> rdNextOffset pr' = rdNextOffset pr
     | Inr m \<Rightarrow> nat (rdNextOffset pr) < length (lg s) \<and> m = lg s ! nat (rdNextOffset pr) \<and> rdNextOffset pr' = rdNextOffset pr + 1)"
  using assms(2-4)
proof (induction as arbitrary: pr)
  case (Cons a as)
  have closed: "serves net (srv s) (pr\<lparr>rdStream := None\<rparr>)" "reader_ok (pr\<lparr>rdStream := None\<rparr>)"
    using Cons.prems by (simp_all add: serves_def reader_ok_def)
  show ?case
  proof (cases "rdStream pr")
    case None
    then have "serves net (srv s) (pr\<lparr>rdStream := Some (reader_request pr, 0)\<rparr>)"
      "reader_ok (pr\<lparr>rdStream := Some (reader_request pr, 0)\<rparr>)"
      using Cons.prems by (simp_all add: serves_def reader_ok_def reader_request_def)
    from Cons.IH [OF _ this] Cons.prems None show ?thesis by (cases a) (auto split: sum.splits)
  next
    case (Some st)
    obtain req k where st: "st = (req, k)" by force
    note rc = recv [OF assms(1) Cons.prems(2,3) Some [unfolded st]]
    have off: "0 \<le> rdNextOffset pr" using Cons.prems(3) by (simp add: reader_ok_def)
    show ?thesis
    proof (cases a)
      case AnsOk
      then have m: "nat (rdNextOffset pr) < length (lg s)" "r = Inr (lg s ! nat (rdNextOffset pr))"
        "pr' = pr\<lparr>rdNextOffset := rdNextOffset pr + 1, rdStream := Some (req, k + 1)\<rparr>"
        using Cons.prems(1) Some st rc next_offset [OF assms(1) off] by (auto split: if_splits)
      then show ?thesis using Cons.prems(2,3) Some st by (auto simp: serves_def reader_ok_def)
    next
      case (AnsErr d e)
      then show ?thesis using Cons.IH [OF _ closed] Cons.prems closed Some st by (auto split: if_splits sum.splits)
    qed
  qed
qed simp

lemma polls_exact:
  assumes "good s" "serves net (srv s) pr" "reader_ok pr" "reader_polls net as pr = (pr', rs)"
  shows "\<exists>n. delivered rs = take n (drop (nat (rdNextOffset pr)) (lg s)) \<and> length (delivered rs) = n
    \<and> rdNextOffset pr' = rdNextOffset pr + int n \<and> reader_ok pr'"
  using assms(2-4)
proof (induction net as pr arbitrary: pr' rs rule: reader_polls.induct)
  case (1 net as pr)
  show ?case
  proof (cases "reader_poll net as pr")
    case None
    then show ?thesis using "1.prems" by (simp add: reader_polls.simps [of net as pr] delivered_def)
  next
    case (Some t)
    obtain pr1 as1 r where t: "t = (pr1, as1, r)" by (cases t) auto
    obtain rs1 where rs: "reader_polls net as1 pr1 = (pr', rs1)" "rs = r # rs1"
      using "1.prems"(3) Some t by (auto simp: reader_polls.simps [of net as pr] split: prod.splits)
    have step: "serves net (srv s) pr1" "reader_ok pr1"
      "case r of Inl _ \<Rightarrow> rdNextOffset pr1 = rdNextOffset pr
       | Inr m \<Rightarrow> nat (rdNextOffset pr) < length (lg s) \<and> m = lg s ! nat (rdNextOffset pr) \<and> rdNextOffset pr1 = rdNextOffset pr + 1"
      using poll_step [OF assms(1) Some [unfolded t] "1.prems"(1,2)] by simp_all
    from "1.IH" [OF Some t [symmetric] refl step(1,2) rs(1)] obtain n where n:
      "delivered rs1 = take n (drop (nat (rdNextOffset pr1)) (lg s))" "length (delivered rs1) = n"
      "rdNextOffset pr' = rdNextOffset pr1 + int n" "reader_ok pr'" by blast
    show ?thesis
    proof (cases r)
      case (Inl e)
      then show ?thesis using n step(3) rs(2) by (intro exI [of _ n]) (simp add: delivered_def)
    next
      case (Inr m)
      have "drop (nat (rdNextOffset pr)) (lg s) = m # drop (nat (rdNextOffset pr1)) (lg s)"
        using step(3) Inr "1.prems"(2) by (simp add: Cons_nth_drop_Suc reader_ok_def nat_add_distrib)
      then show ?thesis using n step(3) rs(2) Inr by (intro exI [of _ "Suc n"]) (simp add: delivered_def)
    qed
  qed
qed

text \<open>Any number of broken streams before the one that holds.\<close>

lemma poll_survives:
  assumes "good s" "list_all transient es" "serves net (srv s) pr" "reader_ok pr" "rdStream pr = None"
    and "rdNextOffset pr < int (length (lg s))"
  shows "\<exists>pr'. reader_poll net (concat (map (\<lambda>e. [AnsOk, AnsErr False e]) es) @ [AnsOk, AnsOk]) pr
    = Some (pr', [], Inr (lg s ! nat (rdNextOffset pr))) \<and> rdNextOffset pr' = rdNextOffset pr + 1"
  using assms(2)
proof (induction es)
  case Nil
  let ?pr = "pr\<lparr>rdStream := Some (reader_request pr, 0)\<rparr>"
  have "serves net (srv s) ?pr" "reader_ok ?pr"
    using assms(3,4) by (simp_all add: serves_def reader_ok_def reader_request_def)
  from recv [OF assms(1) this, of "reader_request pr" 0] next_offset [OF assms(1), of "rdNextOffset pr"]
  show ?case using assms(4-6) by (simp add: reader_ok_def)
next
  case (Cons e es)
  have eq: "pr\<lparr>rdStream := None\<rparr> = pr" using assms(5) by simp
  show ?case using Cons assms(5) by (simp add: eq)
qed

end

section \<open>The broker as a source\<close>

lemma broker_stream_delivers:
  assumes "serving p" "0 \<le> feStartOffset req"
  shows "broker_stream p req k =
    (if nat (feStartOffset req) + k < length (committed p) then Some (committed p ! (nat (feStartOffset req) + k)) else None)"
proof -
  let ?st = "feStartOffset req"
  let ?c = "\<lparr>fcOffset = ?st, fcSent = [], fcEnd = None\<rparr>"
  have inv: "committed_inv p" "0 \<le> pHw p" using assms(1) by (simp_all add: serving_def committed_inv_def part_inv_def)
  have "fcSent (Fetch_drain p ?c) = drop (nat ?st) (committed p)"
  proof (cases "?st \<le> pHw p")
    case True
    then have "fcSent (Fetch_drain p ?c) = take (nat (pHw p - ?st)) (drop (nat ?st) (log_msgs (pLog p)))"
      using Fetch_drain_eq [OF inv(1), of ?c] assms by (simp add: serving_def)
    also have "\<dots> = drop (nat ?st) (committed p)"
      using assms(2) inv(2) by (simp add: committed_def drop_take nat_diff_distrib')
    finally show ?thesis .
  next
    case False
    then have "Fetch_drain p ?c = ?c" by (subst Fetch_drain.simps) (simp add: Partition_Read_def Let_def)
    then show ?thesis using False by (simp add: committed_def)
  qed
  then show ?thesis by (auto simp: broker_stream_def Let_def less_diff_conv add.commute)
qed

lemma committed_offsets: "serving p \<Longrightarrow> offsets_ok (committed p)"
  by (auto simp: serving_def committed_inv_def part_inv_def committed_def intro: offsets_ok_take dest: alog.invar_offsets)

lemma committed_bounded: "serving p \<Longrightarrow> int (length (committed p)) < 2 ^ 63"
  by (auto simp: serving_def committed_inv_def part_inv_def committed_def alog.len_msgs Partition_LogEndOffset_def)

interpretation broker_source: fetch_source serving broker_stream committed
  by unfold_locales (rule broker_stream_delivers committed_offsets committed_bounded; assumption)+

section \<open>Groups\<close>

lemma partitionBroker_get:
  assumes "gomap_ok (map (\<lambda>pi. (piPartition pi, piBrokerAddr pi)) parts)" "pi \<in> set parts"
  shows "map_get (partitionBroker parts) (piPartition pi) = Some (piBrokerAddr pi)"
proof -
  have "map_get (fold (\<lambda>pi m. map_put (piPartition pi) (piBrokerAddr pi) m) parts m) j =
      (case map_get (rev (map (\<lambda>pi. (piPartition pi, piBrokerAddr pi)) parts)) j of Some a \<Rightarrow> Some a | None \<Rightarrow> map_get m j)" for m j
    by (induction parts arbitrary: m) (auto simp: go_map map_add_def split: option.splits)
  moreover have "map_get (rev (map (\<lambda>pi. (piPartition pi, piBrokerAddr pi)) parts)) (piPartition pi) = Some (piBrokerAddr pi)"
    using assms by (intro map_of_is_SomeI) (auto simp: gomap_ok_def rev_map [symmetric])
  ultimately show ?thesis by (simp add: partitionBroker_def)
qed

lemma distinct_head: "distinct (map f (x # xs)) \<Longrightarrow> y \<in> set xs \<Longrightarrow> f y \<noteq> f x"
  by (auto simp: rev_image_eqI)

lemma existing_readers_get:
  assumes "distinct (map rdPartition rs)"
  shows "map_get (fold (\<lambda>pr m. map_put (rdPartition pr) pr m) rs m) j =
    (case find (\<lambda>pr. rdPartition pr = j) rs of Some pr \<Rightarrow> Some pr | None \<Rightarrow> map_get m j)"
  using assms
proof (induction rs arbitrary: m)
  case (Cons pr rs)
  have "find (\<lambda>q. rdPartition q = rdPartition pr) rs = None"
    unfolding find_None_iff using distinct_head [OF Cons.prems] by auto
  then show ?case using Cons by (auto simp: go_map split: option.splits)
qed simp

lemma open_readers_all:
  assumes "\<And>i. i \<in> set is \<Longrightarrow> \<exists>addr. map_get pb i = Some addr \<and> dial addr"
  shows "open_readers dial pb topic is rs = (rs @ map (\<lambda>i. new_reader (the (map_get pb i)) topic i) is, Inr ())"
  using assms
proof (induction "is" arbitrary: rs)
  case (Cons i "is")
  obtain addr where "map_get pb i = Some addr" "dial addr" using Cons.prems [of i] by auto
  then show ?case using Cons.IH [of "rs @ [new_reader addr topic i]"] Cons.prems by simp
qed simp

text \<open>The consumer that a successful \<open>JoinGroup\<close> leaves.\<close>

lemma JoinGroup_readers:
  assumes "join \<lparr>jgGroupId = g, jgMemberId = m, jgTopic = t\<rparr> = Inr assigned" "getMeta t = Inr parts"
    and "gomap_ok (map (\<lambda>pi. (piPartition pi, piBrokerAddr pi)) parts)"
    and "\<And>i. i \<in> set assigned \<Longrightarrow> \<exists>pi \<in> set parts. piPartition pi = i \<and> dial (piBrokerAddr pi)"
  shows "\<exists>c'. consumer_JoinGroup dial join getMeta now c g m t = (c', Inr ())
    \<and> cnReaders c' = map (\<lambda>i. new_reader (the (map_get (partitionBroker parts) i)) t i) assigned
    \<and> (\<forall>i \<in> set assigned. \<lparr>piPartition = i, piBrokerAddr = the (map_get (partitionBroker parts) i)\<rparr> \<in> set parts)
    \<and> cnGroupID c' = g \<and> cnMemberID c' = m \<and> cnLastRebalanceCheck c' = now \<and> cnCoordClient c' = Some (cnConn c)
    \<and> cnNextIdx c' = cnNextIdx c \<and> rdTopic (cnSelf c') = t"
proof -
  have get: "\<exists>addr. map_get (partitionBroker parts) i = Some addr \<and> dial addr \<and> \<lparr>piPartition = i, piBrokerAddr = addr\<rparr> \<in> set parts"
    if i: "i \<in> set assigned" for i
  proof -
    obtain pi where pi: "pi \<in> set parts" "piPartition pi = i" "dial (piBrokerAddr pi)" using assms(4) [OF i] by blast
    then have "pi = \<lparr>piPartition = i, piBrokerAddr = piBrokerAddr pi\<rparr>" by simp
    then show ?thesis using partitionBroker_get [OF assms(3) pi(1)] pi by metis
  qed
  then have o: "open_readers dial (partitionBroker parts) t assigned [] =
      (map (\<lambda>i. new_reader (the (map_get (partitionBroker parts) i)) t i) assigned, Inr ())"
    by (subst open_readers_all) auto
  have "\<lparr>piPartition = i, piBrokerAddr = the (map_get (partitionBroker parts) i)\<rparr> \<in> set parts" if "i \<in> set assigned" for i
    using get [OF that] by auto
  then show ?thesis using assms(1,2) o by (auto simp: consumer_JoinGroup_def Let_def)
qed

text \<open>The reader slice after a rebalance, partition by partition.\<close>

definition next_reader :: "(int, string) gomap \<Rightarrow> string \<Rightarrow> partition_reader list \<Rightarrow> int \<Rightarrow> partition_reader" where
  "next_reader pb topic rs i = (case find (\<lambda>pr. rdPartition pr = i) rs of
      Some pr \<Rightarrow> pr
    | None \<Rightarrow> new_reader (the (map_get pb i)) topic i)"

lemma rebalanced_all:
  assumes "distinct (map rdPartition rs)" "\<And>i. i \<in> set is \<Longrightarrow> \<exists>addr. map_get pb i = Some addr \<and> dial addr"
  shows "concat (map (rebalanced_reader dial pb topic (fold (\<lambda>pr m. map_put (rdPartition pr) pr m) rs [])) is)
    = map (next_reader pb topic rs) is"
  using assms(2)
proof (induction "is")
  case (Cons i "is")
  obtain addr where "map_get pb i = Some addr" "dial addr" using Cons.prems [of i] by auto
  then show ?case using Cons existing_readers_get [OF assms(1), of "[]" i]
    by (auto simp: rebalanced_reader_def next_reader_def split: option.splits)
qed simp

section \<open>Properties\<close>

text \<open>
  C12: A reader delivers the committed messages of its partition exactly once and in order: over any
  sequence of polls, whatever calls the network fails, whatever streams break and are reopened and
  whatever errors surface in between, the messages it returns are the committed log from its next
  offset on, without gap or repetition, and its next offset moves past exactly these.
\<close>

theorem reader_exactly_once:
  assumes "serving p" "serves net (broker_stream p) pr" "reader_ok pr" "reader_polls net as pr = (pr', rs)"
  shows "\<exists>n. delivered rs = take n (drop (nat (rdNextOffset pr)) (committed p)) \<and> length (delivered rs) = n
    \<and> rdNextOffset pr' = rdNextOffset pr + int n \<and> reader_ok pr'"
  using assms by (rule broker_source.polls_exact)

text \<open>A partition with one committed message and a reader at its beginning.\<close>

definition demo_reader :: partition_reader where
  "demo_reader = new_reader ''a:1'' ''t'' 0"

lemma demo_serving: "serving one_msg"
  unfolding serving_def by code_simp

lemma demo_serves: "serves (\<lambda>_. broker_stream one_msg) (broker_stream one_msg) demo_reader"
  by (simp add: serves_def)

lemma demo_reader_ok: "reader_ok demo_reader"
  by code_simp

theorem reader_exactly_once_witness:
  "\<exists>n. delivered (snd (reader_polls (\<lambda>_. broker_stream one_msg) [AnsOk, AnsErr False EndOfStream, AnsOk, AnsOk] demo_reader))
      = take n (drop 0 (committed one_msg))"
  using reader_exactly_once [OF demo_serving demo_serves demo_reader_ok surjective_pairing]
  by (metis demo_reader_def new_reader_def nat_0 partition_reader.select_convs(4))

text \<open>
  A poll outlives any number of broken streams: when \<open>Recv\<close> fails with end of stream or a transient
  status and the stream can be opened again, the poll returns the committed message at the next
  offset, if there is one.
\<close>

lemma reader_survives_failures:
  assumes "serving p" "list_all transient es" "serves net (broker_stream p) pr" "reader_ok pr" "rdStream pr = None"
    and "rdNextOffset pr < int (length (committed p))"
  shows "\<exists>pr'. reader_poll net (concat (map (\<lambda>e. [AnsOk, AnsErr False e]) es) @ [AnsOk, AnsOk]) pr
    = Some (pr', [], Inr (committed p ! nat (rdNextOffset pr))) \<and> rdNextOffset pr' = rdNextOffset pr + 1"
  using assms by (rule broker_source.poll_survives)

lemma reader_survives_failures_witness:
  "\<exists>pr'. reader_poll (\<lambda>_. broker_stream one_msg) (concat (map (\<lambda>e. [AnsOk, AnsErr False e]) [EndOfStream, Status Unavailable]) @ [AnsOk, AnsOk]) demo_reader
    = Some (pr', [], Inr (committed one_msg ! nat (rdNextOffset demo_reader))) \<and> rdNextOffset pr' = rdNextOffset demo_reader + 1"
  by (rule reader_survives_failures [OF demo_serving _ demo_serves demo_reader_ok]) code_simp+

text \<open>
  What \<open>JoinGroup\<close> leaves behind when it succeeds: one reader per assigned partition, in the order
  of the assignment, at the broker the metadata names, and at offset 0 whatever the group has
  committed before.
\<close>

lemma consumer_JoinGroup_exact:
  assumes "join \<lparr>jgGroupId = g, jgMemberId = m, jgTopic = t\<rparr> = Inr assigned" "getMeta t = Inr parts"
    and "gomap_ok (map (\<lambda>pi. (piPartition pi, piBrokerAddr pi)) parts)"
    and "\<And>i. i \<in> set assigned \<Longrightarrow> \<exists>pi \<in> set parts. piPartition pi = i \<and> dial (piBrokerAddr pi)"
  shows "\<exists>c'. consumer_JoinGroup dial join getMeta now c g m t = (c', Inr ())
    \<and> AssignedPartitions c' = assigned
    \<and> list_all (\<lambda>pr. rdNextOffset pr = 0 \<and> rdStream pr = None \<and> rdTopic pr = t
         \<and> \<lparr>piPartition = rdPartition pr, piBrokerAddr = rdClient pr\<rparr> \<in> set parts) (cnReaders c')
    \<and> cnGroupID c' = g \<and> cnMemberID c' = m \<and> cnLastRebalanceCheck c' = now"
  using JoinGroup_readers [where dial = dial and join = join and getMeta = getMeta and now = now and c = c, OF assms]
  by (auto simp: AssignedPartitions_def list_all_iff new_reader_def comp_def)


definition two_parts :: "partition_info list" where
  "two_parts = [\<lparr>piPartition = 0, piBrokerAddr = ''a:1''\<rparr>, \<lparr>piPartition = 1, piBrokerAddr = ''b:1''\<rparr>]"

definition demo_consumer :: consumer where
  "demo_consumer = \<lparr>cnSelf = new_reader ''a:1'' ''t'' 0, cnConn = ''a:1'', cnCoordClient = Some ''a:1'', cnGroupID = ''g'',
     cnMemberID = ''m'', cnReaders = [(new_reader ''b:1'' ''t'' 1)\<lparr>rdNextOffset := 7\<rparr>], cnNextIdx = 3, cnLastRebalanceCheck = 0,
     cnRebalanceInterval = 5, cnRebalanceIntervalIsSet = True\<rparr>"

lemma consumer_JoinGroup_exact_witness:
  "\<exists>c'. consumer_JoinGroup (\<lambda>_. True) (\<lambda>_. Inr [0, 1]) (\<lambda>_. Inr two_parts) 9 demo_consumer ''g'' ''m'' ''t'' = (c', Inr ())
    \<and> AssignedPartitions c' = [0, 1]
    \<and> list_all (\<lambda>pr. rdNextOffset pr = 0 \<and> rdStream pr = None \<and> rdTopic pr = ''t''
         \<and> \<lparr>piPartition = rdPartition pr, piBrokerAddr = rdClient pr\<rparr> \<in> set two_parts) (cnReaders c')
    \<and> cnGroupID c' = ''g'' \<and> cnMemberID c' = ''m'' \<and> cnLastRebalanceCheck c' = 9"
  by (rule consumer_JoinGroup_exact) (auto simp: two_parts_def gomap_ok_def)



text \<open>
  The offsets a consumer commits are the ones the coordinator then holds for its group: for every
  partition it has, the next offset of the reader; entries of other groups, topics and partitions
  keep their value.
\<close>

lemma commit_reaches_coordinator:
  assumes "cnCoordClient c = Some cl" "distinct (AssignedPartitions c)"
  shows "consumer_CommitOffsets commit c = commit (commit_request c) \<and>
    map_get (cOffsets (CommitOffsets co (commit_request c))) key =
      (case find (\<lambda>pr. key = (cnGroupID c, rdTopic (cnSelf c), rdPartition pr)) (cnReaders c) of
         Some pr \<Rightarrow> Some (rdNextOffset pr)
       | None \<Rightarrow> map_get (cOffsets co) key)"
proof -
  let ?k = "\<lambda>pr. (cnGroupID c, rdTopic (cnSelf c), rdPartition pr)"
  have "map_get (fold (\<lambda>(p, off). map_put (cnGroupID c, rdTopic (cnSelf c), p) off) (map (\<lambda>pr. (rdPartition pr, rdNextOffset pr)) rs) m) key =
      (case find (\<lambda>pr. key = ?k pr) rs of Some pr \<Rightarrow> Some (rdNextOffset pr) | None \<Rightarrow> map_get m key)"
    if "distinct (map rdPartition rs)" for rs m
    using that
  proof (induction rs arbitrary: m)
    case (Cons pr rs)
    have "find (\<lambda>q. key = ?k q) rs = None" if "key = ?k pr"
      unfolding find_None_iff that prod.inject using distinct_head [OF Cons.prems] by metis
    then show ?case using Cons by (auto simp: go_map split: option.splits)
  qed simp
  then show ?thesis using assms
    by (simp add: consumer_CommitOffsets_def CommitOffsets_def commit_request_def AssignedPartitions_def)
qed

lemma commit_reaches_coordinator_witness:
  "map_get (cOffsets (CommitOffsets coordinator_New (commit_request demo_consumer))) (''g'', ''t'', 1) = Some 7"
  using commit_reaches_coordinator [of demo_consumer "''a:1''" "\<lambda>_. Inr ()" coordinator_New "(''g'', ''t'', 1)"]
  by (simp add: demo_consumer_def AssignedPartitions_def new_reader_def)

text \<open>
  A member of a group that was assigned no partition does not wait for one: \<open>Poll\<close> falls back to
  reading the partition the consumer was created with, as if it were not in a group.
\<close>

lemma unassigned_member_reads_own_partition:
  assumes "join \<lparr>jgGroupId = g, jgMemberId = m, jgTopic = t\<rparr> = Inr []" "getMeta t = Inr parts" "consumer_New dial addr t i off = Inr c"
    and "consumer_JoinGroup dial join getMeta now c g m t = (c', r)"
  shows "r = Inr () \<and> AssignedPartitions c' = [] \<and>
    consumer_Poll net dial join getMeta later as c' =
      map_option (\<lambda>(pr, as', res). (c'\<lparr>cnSelf := pr\<rparr>, as', res))
        (reader_poll net as \<lparr>rdClient = addr, rdTopic = t, rdPartition = i, rdNextOffset = off, rdStream = None\<rparr>)"
  using assms
  by (auto simp: consumer_JoinGroup_def consumer_Poll_def consumer_New_def AssignedPartitions_def Let_def split: if_splits option.splits)

lemma unassigned_member_reads_own_partition_witness:
  "\<exists>c'. consumer_JoinGroup (\<lambda>_. True) (\<lambda>_. Inr []) (\<lambda>_. Inr two_parts) 9 (projr (consumer_New (\<lambda>_. True) ''a:1'' ''t'' 0 0)) ''g'' ''m'' ''t'' = (c', Inr ())
    \<and> AssignedPartitions c' = [] \<and>
    consumer_Poll (\<lambda>_. broker_stream one_msg) (\<lambda>_. True) (\<lambda>_. Inr []) (\<lambda>_. Inr two_parts) 10 [AnsOk, AnsOk] c' =
      map_option (\<lambda>(pr, as', res). (c'\<lparr>cnSelf := pr\<rparr>, as', res))
        (reader_poll (\<lambda>_. broker_stream one_msg) [AnsOk, AnsOk]
          \<lparr>rdClient = ''a:1'', rdTopic = ''t'', rdPartition = 0, rdNextOffset = 0, rdStream = None\<rparr>)"
proof -
  have "consumer_New (\<lambda>_. True) ''a:1'' ''t'' 0 0 = Inr (projr (consumer_New (\<lambda>_. True) ''a:1'' ''t'' 0 0))" by (simp add: consumer_New_def)
  from unassigned_member_reads_own_partition [OF _ _ this, where join = "\<lambda>_. Inr []" and getMeta = "\<lambda>_. Inr two_parts"
      and g = "''g''" and m = "''m''" and now = 9 and net = "\<lambda>_. broker_stream one_msg" and later = 10 and as = "[AnsOk, AnsOk]",
      OF refl refl surjective_pairing]
  show ?thesis by (metis prod.collapse)
qed

end
