(* ===== verification/Commands.thy ===== *)
theory Commands
  imports Producer Consumer
begin

text \<open>
  The commands: src/cmd/cli/main.go (create-topic, register-broker, produce, consume), the start of a
  broker in src/cmd/broker/main.go and of a coordinator in src/cmd/coordinator/main.go.  Flags are
  arguments; an exit with an error message is \<open>Inl\<close>.
\<close>

subsection \<open>Creating topics and registering brokers\<close>

definition runCreateTopic :: "(string \<Rightarrow> bool) \<Rightarrow> (string \<Rightarrow> create_topic_request \<Rightarrow> unit result) \<Rightarrow>
    (string \<Rightarrow> create_topic_request \<Rightarrow> unit result) \<Rightarrow> string \<Rightarrow> string \<Rightarrow> string \<Rightarrow> int \<Rightarrow> unit result" where
  "runCreateTopic dial brokerCreate coordCreate addr coordAddr topic partitions =
     (let req = \<lparr>ctTopic = topic, ctPartitions = int32 partitions, ctReplicationFactor = 0\<rparr>
      in if topic = '''' then Inl (OtherError ''-topic is required'')
         else if coordAddr \<noteq> '''' then
           (if \<not> dial coordAddr then Inl (OtherError ''dial coordinator'') else coordCreate coordAddr req)
         else if \<not> dial addr then Inl (OtherError ''dial'') else brokerCreate addr req)"

text \<open>\<open>RegisterBrokerRequest\<close> is sent without an \<open>Id\<close>, which is then 0.\<close>

definition runRegisterBroker :: "(string \<Rightarrow> bool) \<Rightarrow> (string \<Rightarrow> bool) \<Rightarrow> string \<Rightarrow> string \<Rightarrow> coordinator \<Rightarrow>
    coordinator \<times> unit result" where
  "runRegisterBroker dial coordDial coordAddr brokerAddr c =
     (if coordAddr = '''' \<or> brokerAddr = '''' then (c, Inl (OtherError ''-coordinator and -broker are required''))
      else if \<not> dial coordAddr then (c, Inl (OtherError ''dial coordinator''))
      else RegisterBroker coordDial c \<lparr>rgAddr = brokerAddr, rgId = 0\<rparr>)"

subsection \<open>Producing\<close>

definition runProduce :: "(string \<Rightarrow> string \<Rightarrow> partition_info list result) \<Rightarrow> (string \<Rightarrow> bool) \<Rightarrow>
    (string \<Rightarrow> produce_request \<Rightarrow> int result) \<Rightarrow> string \<Rightarrow> string \<Rightarrow> int \<Rightarrow> bytes \<Rightarrow> bytes \<Rightarrow> bool \<Rightarrow> (int \<times> int) result" where
  "runProduce getMetadata dial produce addr topic i key val route =
     (if topic = '''' \<or> val = [] then Inl (OtherError ''-topic and -value are required'')
      else case producer_New dial addr of
        Inl e \<Rightarrow> Inl e
      | Inr p \<Rightarrow>
         if route then snd (Route getMetadata dial produce (producer_ConnectCoordinator dial p []) topic key val)
         else (case Send produce p topic (int32 i) key val of Inl e \<Rightarrow> Inl e | Inr offset \<Rightarrow> Inr (i, offset)))"

subsection \<open>Consuming\<close>

text \<open>
  How a consume loop ends: \<open>Polling\<close> when it is still running at the end of what is observed, \<open>Stopped\<close> by a
  signal, \<open>Fatal\<close> by an error.  An event is one iteration: the clock when \<open>Poll\<close> looks at it, and whether
  the context is cancelled when it returns.
\<close>

datatype loop_end = Polling | Stopped | Fatal go_error

fun consume_loop :: "(string \<Rightarrow> fetch_request \<Rightarrow> nat \<Rightarrow> message option) \<Rightarrow> bool list \<Rightarrow> answer list \<Rightarrow> partition_reader \<Rightarrow>
    message list \<times> loop_end" where
  "consume_loop net [] as pr = ([], Polling)"
| "consume_loop net (cancelled # evs) as pr = (case reader_poll net as pr of
      None \<Rightarrow> ([], Polling)
    | Some (pr', as', Inl e) \<Rightarrow> ([], if cancelled then Stopped else Fatal e)
    | Some (pr', as', Inr msg) \<Rightarrow> (case consume_loop net evs as' pr' of (ms, st) \<Rightarrow> (msg # ms, st)))"

text \<open>\<open>CommitOffsets\<close> as the request it sends; \<open>JoinGroup\<close> has set the client.\<close>

definition commit_calls :: "consumer \<Rightarrow> commit_offsets_request list" where
  "commit_calls c = (case cnCoordClient c of None \<Rightarrow> [] | Some _ \<Rightarrow> [commit_request c])"

text \<open>The partition of the reader that the last \<open>Poll\<close> used; it only labels the printed messages.\<close>

definition polled_partition :: "consumer \<Rightarrow> int" where
  "polled_partition c = (if cnReaders c = [] then rdPartition (cnSelf c)
     else rdPartition (cnReaders c ! nat ((cnNextIdx c - 1) mod int (length (cnReaders c)))))"

fun group_loop :: "(string \<Rightarrow> fetch_request \<Rightarrow> nat \<Rightarrow> message option) \<Rightarrow> (string \<Rightarrow> bool) \<Rightarrow>
    (join_group_request \<Rightarrow> int list result) \<Rightarrow> (string \<Rightarrow> partition_info list result) \<Rightarrow> int \<Rightarrow> (int \<times> bool) list \<Rightarrow>
    answer list \<Rightarrow> consumer \<Rightarrow> int \<Rightarrow> consumer \<times> (int \<times> message) list \<times> commit_offsets_request list \<times> loop_end" where
  "group_loop net dial join getMeta commitEvery [] as c count = (c, [], [], Polling)"
| "group_loop net dial join getMeta commitEvery ((now, cancelled) # evs) as c count =
     (case consumer_Poll net dial join getMeta now as c of
        None \<Rightarrow> (c, [], [], Polling)
      | Some (c', as', Inl e) \<Rightarrow>
          if cancelled then (c', [], if commitEvery > 0 then commit_calls c' else [], Stopped)
          else (c', [], [], Fatal e)
      | Some (c', as', Inr msg) \<Rightarrow>
          (case group_loop net dial join getMeta commitEvery evs as' c' (int64 (count + 1)) of
             (c'', ms, cs, st) \<Rightarrow> (c'', (polled_partition c', msg) # ms,
               (if commitEvery > 0 \<and> int64 (count + 1) smod commitEvery = 0 then commit_calls c' else []) @ cs, st)))"

definition runConsumeGroup :: "(string \<Rightarrow> fetch_request \<Rightarrow> nat \<Rightarrow> message option) \<Rightarrow> (string \<Rightarrow> bool) \<Rightarrow>
    (join_group_request \<Rightarrow> int list result) \<Rightarrow> (string \<Rightarrow> partition_info list result) \<Rightarrow> int \<Rightarrow> string \<Rightarrow> string \<Rightarrow> string \<Rightarrow> string \<Rightarrow> int \<Rightarrow>
    (int \<times> bool) list \<Rightarrow> answer list \<Rightarrow> (consumer \<times> (int \<times> message) list \<times> commit_offsets_request list \<times> loop_end) result" where
  "runConsumeGroup net dial join getMeta now0 brokerAddr topic groupID memberID commitEvery evs as =
     (case consumer_New dial brokerAddr topic 0 0 of
        Inl e \<Rightarrow> Inl e
      | Inr c \<Rightarrow> (case consumer_JoinGroup dial join getMeta now0 c groupID memberID topic of
          (c', Inl e) \<Rightarrow> Inl e
        | (c', Inr _) \<Rightarrow> Inr (group_loop net dial join getMeta commitEvery evs as c' 0)))"

definition runConsume :: "(string \<Rightarrow> fetch_request \<Rightarrow> nat \<Rightarrow> message option) \<Rightarrow> (string \<Rightarrow> bool) \<Rightarrow>
    (join_group_request \<Rightarrow> int list result) \<Rightarrow> (string \<Rightarrow> partition_info list result) \<Rightarrow> int \<Rightarrow> string \<Rightarrow> string \<Rightarrow> int \<Rightarrow> int \<Rightarrow>
    string \<Rightarrow> string \<Rightarrow> int \<Rightarrow> (int \<times> bool) list \<Rightarrow> answer list \<Rightarrow> (message list \<times> loop_end) result" where
  "runConsume net dial join getMeta now0 addr topic i offset grp member commitEvery evs as =
     (if topic = '''' then Inl (OtherError ''-topic is required'')
      else if grp \<noteq> '''' then
        (if member = '''' then Inl (OtherError ''-member is required when -group is set'')
         else case runConsumeGroup net dial join getMeta now0 addr topic grp member commitEvery evs as of
           Inl e \<Rightarrow> Inl e
         | Inr (c, ms, cs, st) \<Rightarrow> Inr (map snd ms, st))
      else case consumer_New dial addr topic (int32 i) offset of
        Inl e \<Rightarrow> Inl e
      | Inr c \<Rightarrow> Inr (consume_loop net (map snd evs) as (cnSelf c)))"

subsection \<open>Starting a broker and a coordinator\<close>

definition coordinator_peers :: "string \<Rightarrow> string list" where
  "coordinator_peers coordAddr = filter (\<lambda>p. p \<noteq> '''') (map TrimSpace (split_comma coordAddr))"

text \<open>
  The loop that registers with every peer.  The coordinators are \<open>coords\<close>; \<open>up peer\<close> says whether the call
  reaches its coordinator.
\<close>

fun register_peers :: "(string \<Rightarrow> bool) \<Rightarrow> (string \<Rightarrow> bool) \<Rightarrow> (string \<Rightarrow> bool) \<Rightarrow> register_request \<Rightarrow> string list \<Rightarrow>
    (string \<Rightarrow> coordinator) \<Rightarrow> bool \<Rightarrow> (string \<Rightarrow> coordinator) \<times> bool" where
  "register_peers dial up coordDial req [] coords registered = (coords, registered)"
| "register_peers dial up coordDial req (peer # peers) coords registered =
     (if \<not> dial peer \<or> \<not> up peer then register_peers dial up coordDial req peers coords registered
      else case RegisterBroker coordDial (coords peer) req of
        (c, Inl e) \<Rightarrow> register_peers dial up coordDial req peers (coords(peer := c)) registered
      | (c, Inr _) \<Rightarrow> register_peers dial up coordDial req peers (coords(peer := c)) True)"

definition broker_main :: "(string \<Rightarrow> bool) \<Rightarrow> (string \<Rightarrow> bool) \<Rightarrow> (string \<Rightarrow> bool) \<Rightarrow> topic_entry list option result \<Rightarrow>
    string \<Rightarrow> string \<Rightarrow> string \<Rightarrow> string \<Rightarrow> int \<Rightarrow> int \<Rightarrow> int \<Rightarrow> (string \<Rightarrow> coordinator) \<Rightarrow> ((string \<Rightarrow> coordinator) \<times> broker) result" where
  "broker_main dial up coordDial listing addr dataDir advertise coordAddr i isrTimeout isrTick coords =
     (case (if dataDir \<noteq> '''' then NewWithDataDir (int32 i) dataDir listing else Inr (New (int32 i))) of
        Inl e \<Rightarrow> Inl e
      | Inr b0 \<Rightarrow>
         (let b = SetISRTimeout b0 isrTimeout isrTick; peers = coordinator_peers coordAddr;
              registerAddr = (if advertise = '''' then ''localhost'' @ addr else advertise)
          in if coordAddr = '''' then Inr (coords, b)
             else if peers = [] then Inl (OtherError ''coordinator address list is empty'')
             else case ConnectCoordinator dial (SetCoordinatorPeers b peers) (hd peers) of
               (b1, Inl e) \<Rightarrow> Inl e
             | (b1, Inr _) \<Rightarrow>
                (case register_peers dial up coordDial \<lparr>rgAddr = registerAddr, rgId = int32 i\<rparr> peers coords False of
                   (coords', registered) \<Rightarrow>
                     if \<not> registered then Inl (OtherError ''register with coordinator'')
                     else Inr (coords', SetSelfAddr b1 registerAddr))))"

text \<open>\<open>strings.SplitN(peer, ''='', 2)\<close>, and the list of Raft servers a coordinator bootstraps with.\<close>

record raft_server =
  rsID :: string
  rsAddress :: string

definition splitN2 :: "string \<Rightarrow> string list" where
  "splitN2 s = (case dropWhile (\<lambda>ch. ch \<noteq> CHR ''='') s of
      [] \<Rightarrow> [s]
    | _ # rest \<Rightarrow> [takeWhile (\<lambda>ch. ch \<noteq> CHR ''='') s, rest])"

definition parse_peer :: "string \<Rightarrow> raft_server result" where
  "parse_peer peer = (case splitN2 peer of
      [a, b] \<Rightarrow> Inr \<lparr>rsID = a, rsAddress = b\<rparr>
    | _ \<Rightarrow> Inl (OtherError ''invalid peer format''))"

definition bootstrap_servers :: "string \<Rightarrow> string \<Rightarrow> string \<Rightarrow> raft_server list result" where
  "bootstrap_servers raftID raftBind peers =
     (let self = \<lparr>rsID = raftID, rsAddress = raftBind\<rparr>
      in if peers = '''' then Inr [self]
         else case collect parse_peer (split_comma peers) of Inl e \<Rightarrow> Inl e | Inr ss \<Rightarrow> Inr (self # ss))"


section \<open>Group consumption\<close>

lemma reader_poll_frame:
  "reader_poll net as pr = Some (pr', as', r) \<Longrightarrow>
    rdPartition pr' = rdPartition pr \<and> rdTopic pr' = rdTopic pr \<and> rdClient pr' = rdClient pr"
  by (induction net as pr rule: reader_poll.induct) (auto split: option.splits answer.splits if_splits prod.splits)

text \<open>
  The request with which a member asks again for its assignment, and the coordinator's answer to it while the
  membership of the group does not change.
\<close>

definition member_request :: "consumer \<Rightarrow> join_group_request" where
  "member_request c = \<lparr>jgGroupId = cnGroupID c, jgMemberId = cnMemberID c, jgTopic = rdTopic (cnSelf c)\<rparr>"

definition stable :: "(join_group_request \<Rightarrow> int list result) \<Rightarrow> consumer \<Rightarrow> bool" where
  "stable join c \<longleftrightarrow> (\<forall>a. join (member_request c) = Inr a \<longrightarrow>
     length a = length (AssignedPartitions c) \<and> set (AssignedPartitions c) \<subseteq> set a)"

lemma stable_rebalance:
  "stable join c \<Longrightarrow> fst (tryRebalance dial join getMeta now c) = c\<lparr>cnLastRebalanceCheck := now\<rparr>"
  by (auto simp: stable_def member_request_def tryRebalance_def AssignedPartitions_def assignment_unchanged_def list_all_iff Let_def
      split: sum.splits)

text \<open>Every reader reads its partition from a broker that serves it.\<close>

definition readers_ok :: "(string \<Rightarrow> fetch_request \<Rightarrow> nat \<Rightarrow> message option) \<Rightarrow> (int \<Rightarrow> partition) \<Rightarrow> consumer \<Rightarrow> bool" where
  "readers_ok net src c \<longleftrightarrow> cnReaders c \<noteq> [] \<and> distinct (AssignedPartitions c) \<and> 0 \<le> cnNextIdx c \<and>
     (\<forall>pr \<in> set (cnReaders c). serving (src (rdPartition pr)) \<and> serves net (broker_stream (src (rdPartition pr))) pr \<and> reader_ok pr)"

text \<open>One call of \<open>Poll\<close> moves one reader.\<close>

lemma group_poll_step:
  assumes "readers_ok net src c" "stable join c" "cnNextIdx c + 1 < 2 ^ 63"
    and "consumer_Poll net dial join getMeta now as c = Some (c', as', r)"
  obtains i pr where "i < length (cnReaders c)" "cnReaders c' = (cnReaders c)[i := pr]" "AssignedPartitions c' = AssignedPartitions c"
    "cnNextIdx c' = cnNextIdx c + 1" "cnCoordClient c' = cnCoordClient c" "polled_partition c' = AssignedPartitions c ! i" "readers_ok net src c'"
    "member_request c' = member_request c"
    "case r of Inl _ \<Rightarrow> rdNextOffset pr = rdNextOffset (cnReaders c ! i)
     | Inr m \<Rightarrow> nat (rdNextOffset (cnReaders c ! i)) < length (committed (src (AssignedPartitions c ! i)))
        \<and> m = committed (src (AssignedPartitions c ! i)) ! nat (rdNextOffset (cnReaders c ! i))
        \<and> rdNextOffset pr = rdNextOffset (cnReaders c ! i) + 1"
proof -
  let ?n = "int (length (cnReaders c))"
  define i where "i = nat (cnNextIdx c mod ?n)"
  have ne: "cnReaders c \<noteq> []" "0 \<le> cnNextIdx c" using assms(1) by (simp_all add: readers_ok_def)
  have i: "i < length (cnReaders c)" using ne by (simp add: i_def nat_less_iff)
  define c1 where "c1 = (if cnRebalanceInterval c \<le> now - cnLastRebalanceCheck c then c\<lparr>cnLastRebalanceCheck := now\<rparr> else c)"
  have c1: "cnReaders c1 = cnReaders c" "cnNextIdx c1 = cnNextIdx c" "cnCoordClient c1 = cnCoordClient c"
    "cnGroupID c1 = cnGroupID c" "cnMemberID c1 = cnMemberID c" "cnSelf c1 = cnSelf c" by (simp_all add: c1_def)
  have idx: "int64 (cnNextIdx c + 1) = cnNextIdx c + 1" using ne(2) assms(3) by (intro int64_id) (simp add: is_int64_def)
  obtain pr where pr: "reader_poll net as (cnReaders c ! i) = Some (pr, as', r)"
    "c' = c1\<lparr>cnReaders := (cnReaders c)[i := pr], cnNextIdx := cnNextIdx c + 1\<rparr>"
    using assms(4) ne stable_rebalance [OF assms(2), of dial getMeta now] c1 idx
    by (auto simp: consumer_Poll_def Let_def i_def c1_def split: option.splits if_splits)
  let ?p = "src (rdPartition (cnReaders c ! i))"
  have old: "serving ?p" "serves net (broker_stream ?p) (cnReaders c ! i)" "reader_ok (cnReaders c ! i)"
    using assms(1) i by (simp_all add: readers_ok_def)
  note st = broker_source.poll_step [OF old(1) pr(1) old(2,3)]
  note fr = reader_poll_frame [OF pr(1)]
  have ap: "AssignedPartitions c' = AssignedPartitions c"
    using i fr by (simp add: pr(2) AssignedPartitions_def map_update list_update_same_conv)
  have "\<forall>q \<in> set (cnReaders c'). serving (src (rdPartition q)) \<and> serves net (broker_stream (src (rdPartition q))) q \<and> reader_ok q"
    using assms(1) st fr old(1) set_update_subset_insert [of "cnReaders c" i pr] by (auto simp: readers_ok_def pr(2))
  then have ok: "readers_ok net src c'" using assms(1) ap ne by (simp add: readers_ok_def pr(2))
  have pp: "polled_partition c' = AssignedPartitions c ! i"
    using ne i fr by (simp add: polled_partition_def pr(2) AssignedPartitions_def i_def [symmetric])
  have apn: "rdPartition (cnReaders c ! i) = AssignedPartitions c ! i" using i by (simp add: AssignedPartitions_def)
  show thesis
    by (rule that [OF i _ ap _ _ pp ok _ st [unfolded apn, THEN conjunct2, THEN conjunct2]])
      (simp_all add: pr(2) c1 member_request_def)
qed


definition of_partition :: "int \<Rightarrow> (int \<times> message) list \<Rightarrow> message list" where
  "of_partition p ms = map snd (filter (\<lambda>x. fst x = p) ms)"

lemma of_partition_simps [simp]:
  "of_partition p [] = []" "of_partition p ((q, m) # ms) = (if q = p then [m] else []) @ of_partition p ms"
  by (simp_all add: of_partition_def)

text \<open>
  Partition by partition, the printed messages and the final reader; every commit lies between the
  first and the last offset.
\<close>

definition group_exact :: "(int \<Rightarrow> partition) \<Rightarrow> consumer \<Rightarrow> consumer \<Rightarrow> (int \<times> message) list \<Rightarrow> nat \<Rightarrow> bool" where
  "group_exact src c c' ms i \<longleftrightarrow>
     (let p = AssignedPartitions c ! i; off = rdNextOffset (cnReaders c ! i); k = length (of_partition p ms)
      in of_partition p ms = take k (drop (nat off) (committed (src p))) \<and> rdNextOffset (cnReaders c' ! i) = off + int k)"

definition group_run :: "(int \<Rightarrow> partition) \<Rightarrow> consumer \<Rightarrow> consumer \<Rightarrow> (int \<times> message) list \<Rightarrow> bool" where
  "group_run src c c' ms \<longleftrightarrow> AssignedPartitions c' = AssignedPartitions c \<and> cnCoordClient c' = cnCoordClient c
     \<and> (\<forall>i < length (cnReaders c). group_exact src c c' ms i) \<and> fst ` set ms \<subseteq> set (AssignedPartitions c)"

definition commit_within :: "consumer \<Rightarrow> consumer \<Rightarrow> commit_offsets_request \<Rightarrow> bool" where
  "commit_within c c' req \<longleftrightarrow> map fst (coOffsets req) = AssignedPartitions c \<and>
     (\<forall>i < length (cnReaders c). rdNextOffset (cnReaders c ! i) \<le> snd (coOffsets req ! i) \<and> snd (coOffsets req ! i) \<le> rdNextOffset (cnReaders c' ! i))"

lemma group_run_refl [simp]: "group_run src c c []"
  by (simp add: group_run_def group_exact_def Let_def)

lemma group_run_length: "group_run src c c' ms \<Longrightarrow> length (cnReaders c') = length (cnReaders c)"
  unfolding group_run_def AssignedPartitions_def by (metis length_map)

lemma group_run_mono:
  "group_run src c c' ms \<Longrightarrow> i < length (cnReaders c) \<Longrightarrow> rdNextOffset (cnReaders c ! i) \<le> rdNextOffset (cnReaders c' ! i)"
  by (simp add: group_run_def group_exact_def Let_def)

lemma commit_within_later:
  assumes "group_run src c c1 ms" "commit_within c1 c' req"
  shows "commit_within c c' req"
  using assms group_run_length [OF assms(1)] group_run_mono [OF assms(1)] unfolding commit_within_def group_run_def
  by (metis order.trans)

lemma commit_calls_within:
  assumes "group_run src c c1 ms" "group_run src c1 c' ms'"
  shows "list_all (commit_within c c') (commit_calls c1)"
proof -
  have "map fst (coOffsets (commit_request c1)) = AssignedPartitions c1" by (simp add: commit_request_def AssignedPartitions_def comp_def)
  moreover have "snd (coOffsets (commit_request c1) ! i) = rdNextOffset (cnReaders c1 ! i)" if "i < length (cnReaders c1)" for i
    using that by (simp add: commit_request_def)
  ultimately have "commit_within c c' (commit_request c1)"
    using assms(1) group_run_length [OF assms(1)] group_run_mono [OF assms(1)] group_run_mono [OF assms(2)]
    by (simp add: commit_within_def group_run_def)
  then show ?thesis by (simp add: commit_calls_def split: option.split)
qed

lemma group_run_error:
  assumes "cnReaders c1 = (cnReaders c)[i := pr]" "i < length (cnReaders c)" "rdNextOffset pr = rdNextOffset (cnReaders c ! i)"
    and "AssignedPartitions c1 = AssignedPartitions c" "cnCoordClient c1 = cnCoordClient c"
  shows "group_run src c c1 []"
  using assms by (auto simp: group_run_def group_exact_def Let_def nth_list_update)

lemma group_run_Cons:
  assumes "cnReaders c1 = (cnReaders c)[i := pr]" "i < length (cnReaders c)" "distinct (AssignedPartitions c)"
    and "AssignedPartitions c1 = AssignedPartitions c" "cnCoordClient c1 = cnCoordClient c" "0 \<le> rdNextOffset (cnReaders c ! i)"
    and "nat (rdNextOffset (cnReaders c ! i)) < length (committed (src (AssignedPartitions c ! i)))"
    and "m = committed (src (AssignedPartitions c ! i)) ! nat (rdNextOffset (cnReaders c ! i))"
    and "rdNextOffset pr = rdNextOffset (cnReaders c ! i) + 1" "group_run src c1 c' ms"
  shows "group_run src c c' ((AssignedPartitions c ! i, m) # ms)"
proof -
  let ?p = "\<lambda>j. AssignedPartitions c ! j"
  have len: "length (AssignedPartitions c) = length (cnReaders c)" by (simp add: AssignedPartitions_def)
  have "group_exact src c c' ((?p i, m) # ms) j" if j: "j < length (cnReaders c)" for j
  proof -
    have IH: "group_exact src c1 c' ms j" using assms(1,10) j by (simp add: group_run_def)
    show ?thesis
    proof (cases "j = i")
      case True
      have "drop (nat (rdNextOffset (cnReaders c ! i))) (committed (src (?p i))) =
          m # drop (nat (rdNextOffset (cnReaders c ! i) + 1)) (committed (src (?p i)))"
        using assms(6-8) by (simp add: Cons_nth_drop_Suc nat_add_distrib)
      then show ?thesis using IH assms(1,4,9) j True by (simp add: group_exact_def Let_def)
    next
      case False
      then have "?p i \<noteq> ?p j" using assms(2,3) j by (simp add: nth_eq_iff_index_eq len)
      then show ?thesis using IH assms(1,4) j False by (simp add: group_exact_def Let_def)
    qed
  qed
  then show ?thesis using assms(2,4,5,10) len by (simp add: group_run_def)
qed

lemma group_loop_exact:
  assumes "readers_ok net src c" "stable join c" "cnNextIdx c + int (length evs) < 2 ^ 63"
    and "group_loop net dial join getMeta commitEvery evs as c count = (c', ms, cs, st)"
  shows "group_run src c c' ms \<and> list_all (commit_within c c') cs
    \<and> (st = Stopped \<longrightarrow> 0 < commitEvery \<longrightarrow> cnCoordClient c \<noteq> None \<longrightarrow> cs \<noteq> [] \<and> last cs = commit_request c')"
  using assms
proof (induction net dial join getMeta commitEvery evs as c count arbitrary: c' ms cs st rule: group_loop.induct)
  case (2 net dial join getMeta commitEvery now cancelled evs as c count)
  show ?case
  proof (cases "consumer_Poll net dial join getMeta now as c")
    case None
    then show ?thesis using "2.prems"(4) by auto
  next
    case (Some t)
    obtain c1 as1 r where t: "t = (c1, as1, r)" by (cases t) auto
    have "cnNextIdx c + 1 < 2 ^ 63" using "2.prems"(3) by simp
    from group_poll_step [OF "2.prems"(1,2) this Some [unfolded t]] obtain i pr where p: "i < length (cnReaders c)"
      "cnReaders c1 = (cnReaders c)[i := pr]" "AssignedPartitions c1 = AssignedPartitions c"
      "cnNextIdx c1 = cnNextIdx c + 1" "cnCoordClient c1 = cnCoordClient c" "polled_partition c1 = AssignedPartitions c ! i" "readers_ok net src c1"
      "member_request c1 = member_request c"
      and r: "case r of Inl _ \<Rightarrow> rdNextOffset pr = rdNextOffset (cnReaders c ! i)
       | Inr m \<Rightarrow> nat (rdNextOffset (cnReaders c ! i)) < length (committed (src (AssignedPartitions c ! i)))
          \<and> m = committed (src (AssignedPartitions c ! i)) ! nat (rdNextOffset (cnReaders c ! i))
          \<and> rdNextOffset pr = rdNextOffset (cnReaders c ! i) + 1" by blast
    show ?thesis
    proof (cases r)
      case (Inl e)
      then have run: "group_run src c c1 []" using r p by (intro group_run_error [OF p(2,1)]) auto
      have "(c', ms, cs, st) = (if cancelled then (c1, [], if commitEvery > 0 then commit_calls c1 else [], Stopped) else (c1, [], [], Fatal e))"
        using "2.prems"(4) Some t Inl by simp
      then show ?thesis
        using run commit_calls_within [OF run group_run_refl] p(5) by (auto simp: commit_calls_def split: if_splits)
    next
      case (Inr m)
      let ?now = "if commitEvery > 0 \<and> int64 (count + 1) smod commitEvery = 0 then commit_calls c1 else []"
      obtain ms1 cs1 where l: "group_loop net dial join getMeta commitEvery evs as1 c1 (int64 (count + 1)) = (c', ms1, cs1, st)"
        "ms = (AssignedPartitions c ! i, m) # ms1" "cs = ?now @ cs1"
        using "2.prems"(4) Some t Inr p(6) by (auto split: prod.splits)
      have "stable join c1" "cnNextIdx c1 + int (length evs) < 2 ^ 63" using "2.prems"(2,3) p(3,4,8) by (simp_all add: stable_def)
      note IH = "2.IH" [OF Some t [symmetric] refl Inr p(7) this l(1)]
      have ok: "distinct (AssignedPartitions c)" "0 \<le> rdNextOffset (cnReaders c ! i)"
        using "2.prems"(1) p(1) by (auto simp: readers_ok_def reader_ok_def)
      have step: "group_run src c c1 [(AssignedPartitions c ! i, m)]" and run: "group_run src c c' ms"
        using r Inr IH unfolding l(2) by (intro group_run_Cons [OF p(2,1) ok(1) p(3,5) ok(2)]; simp)+
      have "list_all (commit_within c c') ?now" using commit_calls_within [OF step] IH by auto
      moreover have "list_all (commit_within c c') cs1" using commit_within_later [OF step] IH by (auto simp: list_all_iff)
      ultimately show ?thesis using run IH p(5) l(3) by simp
    qed
  qed
qed simp


section \<open>Registration\<close>

lemma RegisterBroker_effect:
  assumes "rgAddr req \<noteq> []"
  shows "snd (RegisterBroker d c req) = Inr ()" "rgAddr req \<in> set (cBrokers (fst (RegisterBroker d c req)))"
    "rgAddr req \<notin> set (cBrokers c) \<Longrightarrow> map_get (cBrokerIDs (fst (RegisterBroker d c req))) (rgAddr req) = Some (rgId req)
       \<and> map_get (cBrokerAddrs (fst (RegisterBroker d c req))) (rgId req) = Some (rgAddr req)"
  using assms by (auto simp: RegisterBroker_def Let_def go_map)

lemma RegisterBroker_idem:
  "fst (RegisterBroker d (fst (RegisterBroker d c req)) req) = fst (RegisterBroker d c req)"
  by (simp add: RegisterBroker_def Let_def)

lemma register_peers_effect:
  assumes "\<And>a. dial a" "rgAddr req \<noteq> []"
  shows "register_peers dial up d req peers coords reg =
    ((\<lambda>q. if q \<in> set peers \<and> up q then fst (RegisterBroker d (coords q) req) else coords q), reg \<or> (\<exists>q \<in> set peers. up q))"
proof (induction peers arbitrary: coords reg)
  case (Cons p peers)
  obtain c where "RegisterBroker d (coords p) req = (c, Inr ())"
    using RegisterBroker_effect(1) [OF assms(2), of d "coords p"] by (metis prod.collapse)
  then show ?case using Cons.IH assms(1) RegisterBroker_idem [of d "coords p" req] by (auto simp: fun_eq_iff)
qed simp

section \<open>Peer lists\<close>

fun join_comma :: "string list \<Rightarrow> string" where
  "join_comma [] = []" | "join_comma [w] = w" | "join_comma (w # ws) = w @ CHR '','' # join_comma ws"

definition show_server :: "raft_server \<Rightarrow> string" where
  "show_server s = rsID s @ ''='' @ rsAddress s"

definition server_ok :: "raft_server \<Rightarrow> bool" where
  "server_ok s \<longleftrightarrow> CHR '','' \<notin> set (rsID s) \<and> CHR ''='' \<notin> set (rsID s) \<and> CHR '','' \<notin> set (rsAddress s)"

lemma split_comma_ne [simp]: "split_comma s \<noteq> []"
  by (cases s) (auto split: list.splits)

lemma split_comma_word: "CHR '','' \<notin> set w \<Longrightarrow> split_comma w = [w]"
  by (induction w) auto

lemma split_comma_append: "CHR '','' \<notin> set w \<Longrightarrow> split_comma (w @ CHR '','' # s) = w # split_comma s"
  by (induction w) auto

lemma split_join_comma: "ws \<noteq> [] \<Longrightarrow> \<forall>w \<in> set ws. CHR '','' \<notin> set w \<Longrightarrow> split_comma (join_comma ws) = ws"
  by (induction ws rule: join_comma.induct) (auto simp: split_comma_word split_comma_append)

lemma parse_show_server:
  assumes "server_ok s"
  shows "parse_peer (show_server s) = Inr s"
proof -
  have "CHR ''='' \<notin> set (rsID s)" using assms by (simp add: server_ok_def)
  then have "takeWhile (\<lambda>ch. ch \<noteq> CHR ''='') (show_server s) = rsID s" "dropWhile (\<lambda>ch. ch \<noteq> CHR ''='') (show_server s) = ''='' @ rsAddress s"
    by (auto simp: show_server_def takeWhile_append dropWhile_append)
  then show ?thesis by (simp add: parse_peer_def splitN2_def)
qed

text \<open>The brokers that the metadata names serve the partitions of the topic.\<close>

definition brokers_serve :: "(string \<Rightarrow> fetch_request \<Rightarrow> nat \<Rightarrow> message option) \<Rightarrow> (int \<Rightarrow> partition) \<Rightarrow> string \<Rightarrow> partition_info list \<Rightarrow> bool" where
  "brokers_serve net src topic infos \<longleftrightarrow> (\<forall>pi \<in> set infos. serving (src (piPartition pi))
     \<and> (\<forall>req k. feTopic req = topic \<longrightarrow> fePartition req = piPartition pi \<longrightarrow>
          net (piBrokerAddr pi) req k = broker_stream (src (piPartition pi)) req k))"

text \<open>The broker and the coordinators that a successful start leaves.\<close>

lemma broker_main_result:
  assumes "coordAddr \<noteq> ''''" "\<And>a. dial a" "peer \<in> set (coordinator_peers coordAddr)" "up peer" "dataDir = ''''"
    and "registerAddr = (if advertise = '''' then ''localhost'' @ addr else advertise)" "is_int32 i"
  shows "broker_main dial up coordDial listing addr dataDir advertise coordAddr i isrTimeout isrTick coords =
      Inr (\<lambda>q. if q \<in> set (coordinator_peers coordAddr) \<and> up q then fst (RegisterBroker coordDial (coords q) \<lparr>rgAddr = registerAddr, rgId = i\<rparr>) else coords q,
        SetSelfAddr (fst (ConnectCoordinator dial (SetCoordinatorPeers (SetISRTimeout (New i) isrTimeout isrTick)
          (coordinator_peers coordAddr)) (hd (coordinator_peers coordAddr)))) registerAddr)"
proof -
  let ?req = "\<lparr>rgAddr = registerAddr, rgId = i\<rparr>"
  have ne: "rgAddr ?req \<noteq> []" using assms(6) by simp
  have "register_peers dial up coordDial ?req (coordinator_peers coordAddr) coords False =
      (\<lambda>q. if q \<in> set (coordinator_peers coordAddr) \<and> up q then fst (RegisterBroker coordDial (coords q) ?req) else coords q, True)"
    using register_peers_effect [where dial = dial, OF assms(2) ne] assms(3,4) by auto
  moreover have "int32 i = i" using assms(7) by (rule int32_id)
  moreover have "coordinator_peers coordAddr \<noteq> []" using assms(3) by auto
  ultimately show ?thesis using assms(1,2,5,6) by (simp add: broker_main_def ConnectCoordinator_def Let_def)
qed

section \<open>Properties\<close>

text \<open>
  A member of a consumer group prints the committed messages of each of its partitions exactly once
  and in order, from the beginning of the partition, as long as the membership of the group is stable:
  whatever streams break and however the round robin over the partitions goes, the messages printed for a
  partition are a prefix of its committed log; no commit is ahead of what was printed; and when the
  member is stopped by a signal with auto-commit on, its last commit is, for every partition, exactly
  the number of messages printed.
\<close>

lemma group_consume_exactly_once:
  assumes "join \<lparr>jgGroupId = groupID, jgMemberId = memberID, jgTopic = topic\<rparr> = Inr assigned" "assigned \<noteq> []" "distinct assigned" "getMeta topic = Inr parts"
    and "gomap_ok (map (\<lambda>pi. (piPartition pi, piBrokerAddr pi)) parts)" "set assigned \<subseteq> piPartition ` set parts" "\<And>a. dial a"
    and "brokers_serve net src topic parts" "int (length evs) < 2 ^ 63"
  shows "\<exists>c' ms cs st. runConsumeGroup net dial join getMeta now0 brokerAddr topic groupID memberID commitEvery evs as = Inr (c', ms, cs, st)
    \<and> fst ` set ms \<subseteq> set assigned
    \<and> (\<forall>i \<in> set assigned. of_partition i ms = take (length (of_partition i ms)) (committed (src i)))
    \<and> (\<forall>req \<in> set cs. map fst (coOffsets req) = assigned
         \<and> (\<forall>j < length assigned. snd (coOffsets req ! j) \<le> int (length (of_partition (assigned ! j) ms))))
    \<and> (st = Stopped \<longrightarrow> 0 < commitEvery \<longrightarrow>
         cs \<noteq> [] \<and> coOffsets (last cs) = map (\<lambda>i. (i, int (length (of_partition i ms)))) assigned)"
proof -
  obtain c0 where c0: "consumer_New dial brokerAddr topic 0 0 = Inr c0" "cnNextIdx c0 = 0"
    using assms(7) by (simp add: consumer_New_def)
  have "\<exists>pi \<in> set parts. piPartition pi = i \<and> dial (piBrokerAddr pi)" if "i \<in> set assigned" for i
    using assms(6,7) that by auto
  note join = JoinGroup_readers [where dial = dial and join = join and getMeta = getMeta and c = c0 and now = now0 and g = groupID and m = memberID, OF assms(1) assms(4,5) this]
  then obtain c1 where c1: "consumer_JoinGroup dial join getMeta now0 c0 groupID memberID topic = (c1, Inr ())"
    "cnReaders c1 = map (\<lambda>i. new_reader (the (map_get (partitionBroker parts) i)) topic i) assigned"
    "\<forall>i \<in> set assigned. \<lparr>piPartition = i, piBrokerAddr = the (map_get (partitionBroker parts) i)\<rparr> \<in> set parts"
    "cnCoordClient c1 \<noteq> None" "cnNextIdx c1 = 0" "member_request c1 = \<lparr>jgGroupId = groupID, jgMemberId = memberID, jgTopic = topic\<rparr>"
    using c0(2) by (auto simp: member_request_def)
  have ap: "AssignedPartitions c1 = assigned" by (simp add: AssignedPartitions_def c1(2) new_reader_def comp_def)
  have "serves net (broker_stream (src i)) (new_reader (the (map_get (partitionBroker parts) i)) topic i) \<and> serving (src i)" if "i \<in> set assigned" for i
    using assms(8) c1(3) [rule_format, OF that] by (auto simp: serves_def new_reader_def brokers_serve_def)
  then have ok: "readers_ok net src c1"
    using assms(2,3) c1(5) ap by (auto simp: readers_ok_def c1(2)) (simp_all add: new_reader_def reader_ok_def)
  have stable: "stable join c1" by (simp add: stable_def c1(6) assms(1) ap)
  obtain c' ms cs st where l: "group_loop net dial join getMeta commitEvery evs as c1 0 = (c', ms, cs, st)" by (metis prod_cases4)
  have "cnNextIdx c1 + int (length evs) < 2 ^ 63" using c1(5) assms(9) by simp
  note ex = group_loop_exact [OF ok stable this l]
  have run: "AssignedPartitions c' = assigned" "length (cnReaders c') = length assigned" "fst ` set ms \<subseteq> set assigned"
    using ex ap group_run_length [of src c1 c' ms] c1(2) by (auto simp: group_run_def)
  have part: "of_partition (assigned ! j) ms = take (length (of_partition (assigned ! j) ms)) (committed (src (assigned ! j)))"
    and nxt: "rdNextOffset (cnReaders c' ! j) = int (length (of_partition (assigned ! j) ms))" if "j < length assigned" for j
    using ex that ap by (auto simp: group_run_def group_exact_def Let_def c1(2) new_reader_def)
  have "\<forall>i \<in> set assigned. of_partition i ms = take (length (of_partition i ms)) (committed (src i))"
    using part by (metis in_set_conv_nth)
  moreover have "\<forall>req \<in> set cs. map fst (coOffsets req) = assigned
      \<and> (\<forall>j < length assigned. snd (coOffsets req ! j) \<le> int (length (of_partition (assigned ! j) ms)))"
    using ex nxt ap c1(2) by (auto simp: list_all_iff commit_within_def)
  moreover have "coOffsets (commit_request c') = map (\<lambda>i. (i, int (length (of_partition i ms)))) assigned"
  proof (rule nth_equalityI)
    fix j assume "j < length (coOffsets (commit_request c'))"
    then have j: "j < length assigned" using run(2) by (simp add: commit_request_def)
    moreover have "rdPartition (cnReaders c' ! j) = assigned ! j" using j run by (metis AssignedPartitions_def nth_map)
    ultimately show "coOffsets (commit_request c') ! j = map (\<lambda>i. (i, int (length (of_partition i ms)))) assigned ! j"
      using nxt run(2) by (simp add: commit_request_def)
  qed (use run(2) in \<open>simp add: commit_request_def\<close>)
  ultimately show ?thesis using ex l c0(1) c1(1,4) run(3) by (auto simp: runConsumeGroup_def)
qed

lemma group_consume_exactly_once_witness:
  "\<exists>c' ms cs st. runConsumeGroup (\<lambda>_. broker_stream one_msg) (\<lambda>_. True) (\<lambda>_. Inr [1, 0]) (\<lambda>_. Inr two_parts) 0 ''a:1'' ''t'' ''g'' ''m'' 1
      [(1, False), (2, False), (3, True)] [AnsOk, AnsOk, AnsOk, AnsErr True EndOfStream] = Inr (c', ms, cs, st)
    \<and> (\<forall>i \<in> set [1, 0]. of_partition i ms = take (length (of_partition i ms)) (committed one_msg))"
  using group_consume_exactly_once [where join = "\<lambda>_. Inr [1, 0]" and assigned = "[1, 0]" and getMeta = "\<lambda>_. Inr two_parts" and topic = "''t''"
      and parts = two_parts and dial = "\<lambda>_. True" and src = "\<lambda>_. one_msg" and net = "\<lambda>_. broker_stream one_msg"
      and evs = "[(1, False), (2, False), (3, True)]" and as = "[AnsOk, AnsOk, AnsOk, AnsErr True EndOfStream]" and ?now0.0 = 0
      and brokerAddr = "''a:1''" and groupID = "''g''" and memberID = "''m''" and commitEvery = 1] demo_serving
  by (simp add: two_parts_def gomap_ok_def brokers_serve_def) blast

text \<open>
  A broker that starts registers with every coordinator that can be reached, not only with the current
  Raft leader: \<open>main\<close> succeeds as soon as one peer answers, and afterwards every reachable peer lists the
  advertised address among its brokers and, when it did not know it, under the broker's id; peers that
  cannot be reached are left alone.
\<close>

lemma broker_registers_everywhere:
  assumes "coordAddr \<noteq> ''''" "\<And>a. dial a" "peer \<in> set (coordinator_peers coordAddr)" "up peer" "dataDir = ''''"
    and "registerAddr = (if advertise = '''' then ''localhost'' @ addr else advertise)" "is_int32 i"
  shows "\<exists>coords' b. broker_main dial up coordDial listing addr dataDir advertise coordAddr i isrTimeout isrTick coords = Inr (coords', b)
    \<and> bSelfAddr b = registerAddr \<and> bCoordPeers b = coordinator_peers coordAddr \<and> bId b = i
    \<and> registerAddr \<in> set (cBrokers (coords' peer))
    \<and> (registerAddr \<notin> set (cBrokers (coords peer)) \<longrightarrow>
        map_get (cBrokerIDs (coords' peer)) registerAddr = Some i \<and> map_get (cBrokerAddrs (coords' peer)) i = Some registerAddr)
    \<and> (\<forall>q. \<not> up q \<longrightarrow> coords' q = coords q)"
proof -
  let ?req = "\<lparr>rgAddr = registerAddr, rgId = i\<rparr>"
  have ne: "rgAddr ?req \<noteq> []" using assms(6) by simp
  show ?thesis unfolding broker_main_result [where dial = dial and up = up, OF assms]
    using RegisterBroker_effect(2,3) [OF ne, where d = coordDial and c = "coords peer"] assms(2-4)
    by (simp add: SetSelfAddr_def ConnectCoordinator_def SetCoordinatorPeers_def SetISRTimeout_def New_def)
qed

lemma broker_registers_everywhere_witness:
  "\<exists>coords' b. broker_main (\<lambda>_. True) (\<lambda>p. p = ''c2'') (\<lambda>_. True) (Inl IOError) '':9092'' '''' '''' ''c1, c2'' 3 10 1 (\<lambda>_. coordinator_New) = Inr (coords', b)
    \<and> ''localhost:9092'' \<in> set (cBrokers (coords' ''c2'')) \<and> coords' ''c1'' = coordinator_New"
proof -
  have h: "''c2'' \<in> set (coordinator_peers ''c1, c2'')" by code_simp
  from broker_registers_everywhere [where dial = "\<lambda>_. True" and up = "\<lambda>p. p = ''c2''" and peer = "''c2''" and coordAddr = "''c1, c2''"
      and dataDir = "''''" and advertise = "''''" and addr = "'':9092''" and i = 3 and coordDial = "\<lambda>_. True" and listing = "Inl IOError"
      and isrTimeout = 10 and isrTick = 1 and coords = "\<lambda>_. coordinator_New" and registerAddr = "''localhost:9092''", OF _ _ h]
  show ?thesis by (auto simp: is_int32_def)
qed

text \<open>
  Registering a broker by hand hides it: the command line sends no id, so the coordinator files the
  address under id 0, and when the broker itself registers later with its own id the request is ignored
  because the address is known.  Its heartbeats are then recorded under an id that the coordinator does
  not connect with the address, and the broker counts as dead while it is sending heartbeats.
\<close>

lemma cli_registration_hides_broker:
  assumes "a \<noteq> ''''" "coordAddr \<noteq> ''''" "dial coordAddr" "a \<notin> set (cBrokers c)" "map_get (cLastSeen c) 0 = None" "\<not> notLeader c" "k \<noteq> 0"
    and "c1 = fst (runRegisterBroker dial d coordAddr a c)" "c2 = fst (RegisterBroker d c1 \<lparr>rgAddr = a, rgId = k\<rparr>)"
    and "c3 = fst (Heartbeat now c2 \<lparr>hbBrokerId = k, hbBrokerAddr = a, hbPartitionLeos = leos\<rparr>)"
  shows "snd (RegisterBroker d c1 \<lparr>rgAddr = a, rgId = k\<rparr>) = Inr () \<and> map_get (cLastSeen c3) k = Some now
    \<and> map_get (cBrokerIDs c3) a = Some 0 \<and> \<not> brokerAlive now c3 a"
proof -
  let ?req = "\<lparr>rgAddr = a, rgId = 0\<rparr>"
  have c1: "c1 = fst (RegisterBroker d c ?req)" using assms(1-3,8) by (simp add: runRegisterBroker_def)
  have known: "a \<in> set (cBrokers c1)" "map_get (cBrokerIDs c1) a = Some 0"
    using RegisterBroker_effect(2,3) [where req = ?req and d = d and c = c] assms(1,4) by (simp_all add: c1)
  have frame: "cLastSeen c1 = cLastSeen c" "cRaft c1 = cRaft c" by (simp_all add: c1 RegisterBroker_def Let_def)
  have reg: "RegisterBroker d c1 \<lparr>rgAddr = a, rgId = k\<rparr> = (c1, Inr ())" using assms(1) known by (simp add: RegisterBroker_def)
  have "cBrokerIDs c3 = cBrokerIDs c1" "cLastSeen c3 = map_put k now (cLastSeen c)"
    using assms(6,9,10) frame by (simp_all add: reg Heartbeat_def Let_def notLeader_def)
  moreover have "map_put k now m \<noteq> []" for m :: "(int, int) gomap" by (cases m) auto
  ultimately show ?thesis using reg known(2) assms(5,7) by (simp add: brokerAlive_def go_map)
qed

lemma cli_registration_hides_broker_witness:
  "\<not> brokerAlive 5 (fst (Heartbeat 5 (fst (RegisterBroker (\<lambda>_. True) (fst (runRegisterBroker (\<lambda>_. True) (\<lambda>_. True) ''c'' ''a:1'' coordinator_New))
      \<lparr>rgAddr = ''a:1'', rgId = 1\<rparr>)) \<lparr>hbBrokerId = 1, hbBrokerAddr = ''a:1'', hbPartitionLeos = []\<rparr>)) ''a:1''"
  using cli_registration_hides_broker [OF _ _ _ _ _ _ _ refl refl refl, of "''a:1''" "''c''" "\<lambda>_. True" coordinator_New 1]
  by (simp add: coordinator_New_def notLeader_def)

text \<open>
  The peer list of a coordinator parses back to the servers it was written from: joining
  \<open>id=addr\<close> pairs with commas and giving them to \<open>-peers\<close> makes \<open>main\<close> bootstrap with itself and exactly these
  servers, in order, when no id holds a comma or an equals sign and no address a comma.
\<close>

lemma bootstrap_servers_roundtrip:
  assumes "servers \<noteq> []" "list_all server_ok servers"
  shows "bootstrap_servers raftID raftBind (join_comma (map show_server servers)) = Inr (\<lparr>rsID = raftID, rsAddress = raftBind\<rparr> # servers)"
proof -
  have "collect parse_peer (map show_server servers) = Inr servers"
    using assms(2) by (induction servers) (simp_all add: parse_show_server)
  moreover have "split_comma (join_comma (map show_server servers)) = map show_server servers"
    using assms by (intro split_join_comma) (auto simp: list_all_iff show_server_def server_ok_def)
  moreover have "join_comma (map show_server servers) \<noteq> []" using assms(1) by (cases servers; cases "tl servers") (auto simp: show_server_def)
  ultimately show ?thesis by (simp add: bootstrap_servers_def)
qed

lemma bootstrap_servers_roundtrip_witness:
  "bootstrap_servers ''n1'' ''h:1'' (join_comma (map show_server [\<lparr>rsID = ''n2'', rsAddress = ''h:2''\<rparr>, \<lparr>rsID = ''n3'', rsAddress = ''h=3''\<rparr>]))
    = Inr [\<lparr>rsID = ''n1'', rsAddress = ''h:1''\<rparr>, \<lparr>rsID = ''n2'', rsAddress = ''h:2''\<rparr>, \<lparr>rsID = ''n3'', rsAddress = ''h=3''\<rparr>]"
  by (rule bootstrap_servers_roundtrip) (simp_all add: server_ok_def)

end
