(* ===== verification/Command_Line.thy ===== *)
theory Command_Line
  imports Commands
begin

text \<open>
  The command line of src/cmd/cli/main.go: the dispatch of \<^verbatim>\<open>main\<close>, the flags that each command declares, how Go's
  \<^verbatim>\<open>flag\<close> package parses them, and what a command prints.  The commands themselves are in \<open>Commands\<close>.
\<close>

section \<open>Numbers and booleans\<close>

text \<open>\<^verbatim>\<open>strconv.ParseInt(s, 0, 64)\<close>: a sign, a base prefix, digits with underscores between them.\<close>

definition lower_byte :: "char \<Rightarrow> char" where
  "lower_byte c = (let n = of_char c :: nat in char_of (if n mod 64 < 32 then n + 32 else n))"

definition uint_digit :: "char \<Rightarrow> nat option" where
  "uint_digit c = (if is_digit c then digit_val c
     else let l = of_char (lower_byte c) :: nat in if 97 \<le> l \<and> l \<le> 122 then Some (l - 97 + 10) else None)"

fun uint_loop :: "nat \<Rightarrow> nat \<Rightarrow> bytes \<Rightarrow> nat option" where
  "uint_loop base n [] = Some n"
| "uint_loop base n (c # cs) = (if c = CHR ''_'' then uint_loop base n cs
     else case uint_digit c of None \<Rightarrow> None | Some d \<Rightarrow> if base \<le> d then None else uint_loop base (n * base + d) cs)"

definition base_prefix :: "bytes \<Rightarrow> nat \<times> bytes" where
  "base_prefix s = (case s of
      [] \<Rightarrow> (10, s)
    | z # rest \<Rightarrow> if z \<noteq> CHR ''0'' then (10, s)
        else case rest of
          c # d # ds \<Rightarrow> (if lower_byte c = CHR ''b'' then (2, d # ds) else if lower_byte c = CHR ''o'' then (8, d # ds)
             else if lower_byte c = CHR ''x'' then (16, d # ds) else (8, rest))
        | _ \<Rightarrow> (8, rest))"

text \<open>The scan remembers the last byte as \<^verbatim>\<open>underscoreOK\<close> does: a digit, an underscore, or neither.\<close>

fun underscore_scan :: "bool \<Rightarrow> char \<Rightarrow> bytes \<Rightarrow> bool" where
  "underscore_scan hex i [] = (i \<noteq> CHR ''_'')"
| "underscore_scan hex i (c # cs) =
     (let l = of_char (lower_byte c) :: nat
      in if is_digit c \<or> (hex \<and> 97 \<le> l \<and> l \<le> 102) then underscore_scan hex (CHR ''0'') cs
         else if c = CHR ''_'' then i = CHR ''0'' \<and> underscore_scan hex (CHR ''_'') cs
         else i \<noteq> CHR ''_'' \<and> underscore_scan hex (CHR ''!'') cs)"

definition underscoreOK :: "bytes \<Rightarrow> bool" where
  "underscoreOK s = (case s of
      z # c # cs \<Rightarrow> if z = CHR ''0'' \<and> List.member [CHR ''b'', CHR ''o'', CHR ''x''] (lower_byte c)
         then underscore_scan (lower_byte c = CHR ''x'') (CHR ''0'') cs else underscore_scan False (CHR ''^'') s
    | _ \<Rightarrow> underscore_scan False (CHR ''^'') s)"

definition ParseUint :: "bytes \<Rightarrow> nat option" where
  "ParseUint s = (if s = [] then None else case base_prefix s of (base, ds) \<Rightarrow>
     (case uint_loop base 0 ds of None \<Rightarrow> None
      | Some n \<Rightarrow> if List.member ds (CHR ''_'') \<and> \<not> underscoreOK s then None else Some n))"

text \<open>A value outside the range of \<^verbatim>\<open>int64\<close> is an error, as is one that already overflows in \<^verbatim>\<open>ParseUint\<close>.\<close>

definition ParseInt :: "bytes \<Rightarrow> int option" where
  "ParseInt s = (case s of
      [] \<Rightarrow> None
    | c # cs \<Rightarrow> (case ParseUint (if c = CHR ''+'' \<or> c = CHR ''-'' then cs else s) of
        None \<Rightarrow> None
      | Some n \<Rightarrow> (let v = (if c = CHR ''-'' then - int n else int n) in if is_int64 v then Some v else None)))"

definition ParseBool :: "bytes \<Rightarrow> bool option" where
  "ParseBool s = (if List.member [''1'', ''t'', ''T'', ''true'', ''TRUE'', ''True''] s then Some True
     else if List.member [''0'', ''f'', ''F'', ''false'', ''FALSE'', ''False''] s then Some False else None)"

section \<open>Flags\<close>

text \<open>A flag set: the declared flags with their current values, at first the defaults.\<close>

datatype flag_value = StrFlag string | IntFlag int | BoolFlag bool

type_synonym flag_set = "(string, flag_value) gomap"

fun set_flag :: "flag_value \<Rightarrow> bytes \<Rightarrow> flag_value option" where
  "set_flag (StrFlag _) v = Some (StrFlag v)"
| "set_flag (IntFlag _) v = map_option IntFlag (ParseInt v)"
| "set_flag (BoolFlag _) v = map_option BoolFlag (ParseBool v)"

text \<open>\<open>Parsed\<close> has the remaining arguments, \<open>Exit\<close> the exit code of \<^verbatim>\<open>flag.ExitOnError\<close>.\<close>

datatype parse_end = Parsed flag_set "string list" | Exit int

definition split_flag :: "string \<Rightarrow> string \<times> string option" where
  "split_flag s = (hd s # takeWhile (\<lambda>c. c \<noteq> CHR ''='') (tl s),
     case dropWhile (\<lambda>c. c \<noteq> CHR ''='') (tl s) of [] \<Rightarrow> None | _ # v \<Rightarrow> Some v)"

fun parse_flags :: "flag_set \<Rightarrow> string list \<Rightarrow> parse_end" where
  "parse_flags fs [] = Parsed fs []"
| "parse_flags fs (s # args) =
     (if length s < 2 \<or> hd s \<noteq> CHR ''-'' then Parsed fs (s # args)
      else if s = ''--'' then Parsed fs args
      else let name = (if s ! 1 = CHR ''-'' then drop 2 s else drop 1 s)
        in if name = [] \<or> hd name = CHR ''-'' \<or> hd name = CHR ''='' then Exit 2
           else case split_flag name of (n, val) \<Rightarrow>
             (case map_get fs n of
                None \<Rightarrow> Exit (if n = ''help'' \<or> n = ''h'' then 0 else 2)
              | Some (BoolFlag b) \<Rightarrow>
                 (case set_flag (BoolFlag b) (case val of None \<Rightarrow> ''true'' | Some v \<Rightarrow> v) of
                    None \<Rightarrow> Exit 2 | Some f \<Rightarrow> parse_flags (map_put n f fs) args)
              | Some f0 \<Rightarrow>
                 (case val of
                    Some v \<Rightarrow> (case set_flag f0 v of None \<Rightarrow> Exit 2 | Some f \<Rightarrow> parse_flags (map_put n f fs) args)
                  | None \<Rightarrow> (case args of [] \<Rightarrow> Exit 2
                      | v # rest \<Rightarrow> (case set_flag f0 v of None \<Rightarrow> Exit 2 | Some f \<Rightarrow> parse_flags (map_put n f fs) rest)))))"

definition flag_str :: "flag_set \<Rightarrow> string \<Rightarrow> string" where
  "flag_str fs n = (case map_get fs n of Some (StrFlag s) \<Rightarrow> s | _ \<Rightarrow> '''')"

definition flag_int :: "flag_set \<Rightarrow> string \<Rightarrow> int" where
  "flag_int fs n = (case map_get fs n of Some (IntFlag i) \<Rightarrow> i | _ \<Rightarrow> 0)"

definition flag_bool :: "flag_set \<Rightarrow> string \<Rightarrow> bool" where
  "flag_bool fs n = (case map_get fs n of Some (BoolFlag b) \<Rightarrow> b | _ \<Rightarrow> False)"

definition create_topic_flags :: flag_set where
  "create_topic_flags = [(''broker'', StrFlag ''localhost:9092''), (''coordinator'', StrFlag ''''),
     (''topic'', StrFlag ''''), (''partitions'', IntFlag 1)]"

definition register_broker_flags :: flag_set where
  "register_broker_flags = [(''coordinator'', StrFlag ''localhost:9093''), (''broker'', StrFlag '''')]"

definition produce_flags :: flag_set where
  "produce_flags = [(''broker'', StrFlag ''localhost:9092''), (''topic'', StrFlag ''''), (''partition'', IntFlag 0),
     (''key'', StrFlag ''''), (''value'', StrFlag ''''), (''route'', BoolFlag False)]"

definition consume_flags :: flag_set where
  "consume_flags = [(''broker'', StrFlag ''localhost:9092''), (''topic'', StrFlag ''''), (''partition'', IntFlag 0),
     (''offset'', IntFlag 0), (''group'', StrFlag ''''), (''member'', StrFlag ''''), (''commit-every'', IntFlag 0)]"

section \<open>Output\<close>

abbreviation newline :: char where
  "newline \<equiv> CHR 0x0A"

text \<open>\<^verbatim>\<open>utf8.RuneCountInString\<close>: a byte that starts no valid sequence counts as one rune.\<close>

function (sequential) rune_count :: "bytes \<Rightarrow> nat" where
  "rune_count [] = 0"
| "rune_count (c # r) = Suc (rune_count (drop (rune_len (c # r) - 1) r))"
  by pat_completeness auto
termination
  by (relation "measure length") auto

text \<open>The verbs \<^verbatim>\<open>%-6d\<close> and \<^verbatim>\<open>%-16s\<close>: padded on the right to a number of runes.\<close>

definition pad_right :: "nat \<Rightarrow> bytes \<Rightarrow> bytes" where
  "pad_right w s = s @ replicate (w - rune_count s) (CHR '' '')"

definition printMsg :: "message \<Rightarrow> bytes" where
  "printMsg msg = (let key = (if msgKey msg = [] then ''<no key>'' else msgKey msg)
     in ''offset='' @ pad_right 6 (int_dec (msgOffset msg)) @ '' key='' @ pad_right 16 key @ '' value='' @ msgValue msg @ [newline])"

section \<open>The commands\<close>

text \<open>
  What the program reaches: \<open>envQuote\<close> is the verb \<^verbatim>\<open>%q\<close>, which depends on Unicode tables; the rest are the arguments
  of the commands.
\<close>

record cli_env =
  envDial :: "string \<Rightarrow> bool"
  envQuote :: "string \<Rightarrow> string"
  envBrokerCreate :: "string \<Rightarrow> create_topic_request \<Rightarrow> unit result"
  envCoordCreate :: "string \<Rightarrow> create_topic_request \<Rightarrow> unit result"
  envCoordDial :: "string \<Rightarrow> bool"
  envMetadata :: "string \<Rightarrow> string \<Rightarrow> partition_info list result"
  envProduce :: "string \<Rightarrow> produce_request \<Rightarrow> int result"
  envNet :: "string \<Rightarrow> fetch_request \<Rightarrow> nat \<Rightarrow> message option"
  envJoin :: "join_group_request \<Rightarrow> int list result"
  envGetMeta :: "string \<Rightarrow> partition_info list result"
  envNow :: int
  envEvents :: "(int \<times> bool) list"
  envAnswers :: "answer list"

text \<open>What was printed on the standard output, and the exit code, \<open>None\<close> while the program still runs.\<close>

type_synonym cli_end = "bytes \<times> int option"

definition exit_code :: "go_error \<Rightarrow> int" where
  "exit_code e = (if e = GoPanic then 2 else 1)"

definition with_flags :: "flag_set \<Rightarrow> string list \<Rightarrow> (flag_set \<Rightarrow> cli_end) \<Rightarrow> cli_end" where
  "with_flags fs args run = (case parse_flags fs args of Exit n \<Rightarrow> ([], Some n) | Parsed fs' _ \<Rightarrow> run fs')"

definition createTopic_cmd :: "cli_env \<Rightarrow> flag_set \<Rightarrow> cli_end" where
  "createTopic_cmd env fs =
     (case runCreateTopic (envDial env) (envBrokerCreate env) (envCoordCreate env) (flag_str fs ''broker'') (flag_str fs ''coordinator'')
          (flag_str fs ''topic'') (flag_int fs ''partitions'') of
        Inl e \<Rightarrow> ([], Some (exit_code e))
      | Inr _ \<Rightarrow> (''created topic '' @ envQuote env (flag_str fs ''topic'') @ '' with '' @ int_dec (flag_int fs ''partitions'') @
          '' partition(s)'' @ [newline], Some 0))"

definition registerBroker_cmd :: "cli_env \<Rightarrow> coordinator \<Rightarrow> flag_set \<Rightarrow> coordinator \<times> cli_end" where
  "registerBroker_cmd env c fs =
     (case runRegisterBroker (envDial env) (envCoordDial env) (flag_str fs ''coordinator'') (flag_str fs ''broker'') c of
        (c', Inl e) \<Rightarrow> (c', [], Some (exit_code e))
      | (c', Inr _) \<Rightarrow> (c', ''registered broker '' @ envQuote env (flag_str fs ''broker'') @ '' with coordinator '' @
          envQuote env (flag_str fs ''coordinator'') @ [newline], Some 0))"

definition produce_cmd :: "cli_env \<Rightarrow> flag_set \<Rightarrow> cli_end" where
  "produce_cmd env fs =
     (case runProduce (envMetadata env) (envDial env) (envProduce env) (flag_str fs ''broker'') (flag_str fs ''topic'')
          (flag_int fs ''partition'') (flag_str fs ''key'') (flag_str fs ''value'') (flag_bool fs ''route'') of
        Inl e \<Rightarrow> ([], Some (exit_code e))
      | Inr (part, offset) \<Rightarrow> (''produced to '' @ flag_str fs ''topic'' @ ''/'' @ int_dec part @ '' at offset '' @ int_dec offset @ [newline], Some 0))"

fun loop_output :: "loop_end \<Rightarrow> cli_end" where
  "loop_output Polling = ([], None)"
| "loop_output Stopped = ([newline] @ ''stopped.'' @ [newline], Some 0)"
| "loop_output (Fatal e) = ([], Some (exit_code e))"

definition consume_banner :: "cli_env \<Rightarrow> flag_set \<Rightarrow> bytes" where
  "consume_banner env fs =
     (if flag_str fs ''group'' \<noteq> '''' then ''joined group '' @ envQuote env (flag_str fs ''group'') @ '' as '' @ envQuote env (flag_str fs ''member'') @
        '', consuming '' @ flag_str fs ''topic''
      else ''consuming '' @ flag_str fs ''topic'' @ ''/'' @ int_dec (flag_int fs ''partition'') @ '' from offset '' @ int_dec (flag_int fs ''offset''))
     @ '' (ctrl-c to stop)'' @ [newline, newline]"

definition consume_cmd :: "cli_env \<Rightarrow> flag_set \<Rightarrow> cli_end" where
  "consume_cmd env fs =
     (case runConsume (envNet env) (envDial env) (envJoin env) (envGetMeta env) (envNow env) (flag_str fs ''broker'') (flag_str fs ''topic'')
          (flag_int fs ''partition'') (flag_int fs ''offset'') (flag_str fs ''group'') (flag_str fs ''member'') (flag_int fs ''commit-every'')
          (envEvents env) (envAnswers env) of
        Inl e \<Rightarrow> ([], Some (exit_code e))
      | Inr (ms, st) \<Rightarrow> (consume_banner env fs @ concat (map printMsg ms) @ fst (loop_output st), snd (loop_output st)))"

text \<open>\<open>args\<close> is \<^verbatim>\<open>os.Args[1:]\<close>; \<open>c\<close> is the coordinator that \<open>register-broker\<close> talks to.\<close>

definition cli_main :: "cli_env \<Rightarrow> coordinator \<Rightarrow> string list \<Rightarrow> coordinator \<times> cli_end" where
  "cli_main env c args = (case args of
      [] \<Rightarrow> (c, [], Some 1)
    | cmd # rest \<Rightarrow>
        if cmd = ''create-topic'' then (c, with_flags create_topic_flags rest (createTopic_cmd env))
        else if cmd = ''register-broker'' then (case parse_flags register_broker_flags rest of
            Exit n \<Rightarrow> (c, [], Some n) | Parsed fs _ \<Rightarrow> registerBroker_cmd env c fs)
        else if cmd = ''produce'' then (c, with_flags produce_flags rest (produce_cmd env))
        else if cmd = ''consume'' then (c, with_flags consume_flags rest (consume_cmd env))
        else (c, [], Some 1))"


section \<open>Printing and parsing\<close>

text \<open>A flag as an argument \<^verbatim>\<open>-name=value\<close>.\<close>

fun flag_text :: "flag_value \<Rightarrow> string" where
  "flag_text (StrFlag s) = s"
| "flag_text (IntFlag i) = int_dec i"
| "flag_text (BoolFlag b) = (if b then ''true'' else ''false'')"

definition flag_arg :: "string \<times> flag_value \<Rightarrow> string" where
  "flag_arg f = ''-'' @ fst f @ ''='' @ flag_text (snd f)"

definition name_ok :: "string \<Rightarrow> bool" where
  "name_ok n \<longleftrightarrow> n \<noteq> [] \<and> hd n \<noteq> CHR ''-'' \<and> hd n \<noteq> CHR ''='' \<and> \<not> List.member (tl n) (CHR ''='')"

text \<open>A value that the declared flag can hold.\<close>

fun fits_flag :: "flag_value \<Rightarrow> flag_value \<Rightarrow> bool" where
  "fits_flag (StrFlag _) (StrFlag _) = True"
| "fits_flag (IntFlag _) (IntFlag i) = is_int64 i"
| "fits_flag (BoolFlag _) (BoolFlag _) = True"
| "fits_flag _ _ = False"

definition settings :: "flag_set \<Rightarrow> flag_set \<Rightarrow> bool" where
  "settings fs vs \<longleftrightarrow> distinct (map fst vs) \<and> list_all2 (\<lambda>f v. fst f = fst v \<and> name_ok (fst v) \<and> fits_flag (snd f) (snd v)) fs vs"

lemma uint_digit_dec: "is_digit c \<Longrightarrow> \<exists>d. uint_digit c = Some d \<and> d < 10 \<and> digit_val c = Some d \<and> c \<noteq> CHR ''_''"
  by (auto simp: uint_digit_def is_digit_def digit_val_def Let_def split: if_splits)

lemma uint_loop_dec:
  "list_all is_digit ds \<Longrightarrow> uint_loop 10 n ds = Some (foldl (\<lambda>n c. 10 * n + the (digit_val c)) n ds)"
proof (induction ds arbitrary: n)
  case (Cons c ds)
  then obtain d where "uint_digit c = Some d" "d < 10" "digit_val c = Some d" "c \<noteq> CHR ''_''" using uint_digit_dec by auto
  then show ?case using Cons by (simp add: mult.commute)
qed simp

lemma nat_dec_leading: "0 < n \<Longrightarrow> hd (nat_dec n) \<noteq> CHR ''0''"
proof (induction n rule: nat_dec.induct)
  case (1 n)
  show ?case
  proof (cases "n < 10")
    case True
    have "char_of (48 + n) \<noteq> CHR ''0''" using 1(2) True by (auto dest: arg_cong [where f = "of_char :: char \<Rightarrow> nat"])
    then show ?thesis using True by (subst nat_dec.simps) (simp add: digit_def)
  next
    case False
    then show ?thesis using 1 by (subst nat_dec.simps) simp
  qed
qed

lemma ParseUint_nat_dec: "ParseUint (nat_dec n) = Some n"
proof (cases "n = 0")
  case True
  then show ?thesis by (simp add: nat_dec.simps [of 0]) code_simp
next
  case False
  have d: "list_all is_digit (nat_dec n)" by (simp add: list_all_iff nat_dec_digits)
  then have "\<not> List.member (nat_dec n) (CHR ''_'')" using uint_digit_dec by (auto simp: list_all_iff)
  moreover have "base_prefix (nat_dec n) = (10, nat_dec n)"
    using nat_dec_leading [of n] False by (cases "nat_dec n") (simp_all add: base_prefix_def)
  ultimately show ?thesis using uint_loop_dec [OF d, of 0] by (simp add: ParseUint_def dec_val_def [symmetric])
qed

lemma ParseInt_int_dec:
  assumes "is_int64 i"
  shows "ParseInt (int_dec i) = Some i"
proof (cases "i < 0")
  case True
  then show ?thesis using assms by (simp add: int_dec_def ParseInt_def ParseUint_nat_dec)
next
  case False
  obtain c cs where n: "nat_dec (nat i) = c # cs" by (cases "nat_dec (nat i)") auto
  have "is_digit c" using nat_dec_digits [of c "nat i"] n by simp
  moreover have "\<not> is_digit (CHR ''-'')" "\<not> is_digit (CHR ''+'')" by code_simp+
  ultimately have "c \<noteq> CHR ''-''" "c \<noteq> CHR ''+''" by metis+
  then show ?thesis using assms False n ParseUint_nat_dec [of "nat i"] by (simp add: int_dec_def ParseInt_def)
qed

lemma set_flag_text: "fits_flag f v \<Longrightarrow> set_flag f (flag_text v) = Some v"
  by (induction f v rule: fits_flag.induct) (auto simp: ParseInt_int_dec ParseBool_def)

lemma split_flag_arg: "name_ok n \<Longrightarrow> split_flag (n @ ''='' @ t) = (n, Some t)"
proof -
  assume n: "name_ok n"
  then have "takeWhile (\<lambda>c. c \<noteq> CHR ''='') (tl n @ CHR ''='' # t) = tl n"
    "dropWhile (\<lambda>c. c \<noteq> CHR ''='') (tl n @ CHR ''='' # t) = CHR ''='' # t"
    by (subst takeWhile_append2 dropWhile_append2; auto simp: name_ok_def)+
  with n show ?thesis by (auto simp: name_ok_def split_flag_def)
qed

lemma parse_flags_arg:
  assumes "name_ok n" "map_get fs n = Some f" "fits_flag f v"
  shows "parse_flags fs (flag_arg (n, v) # args) = parse_flags (map_put n v fs) args"
proof -
  obtain c cs where n: "n = c # cs" using assms(1) by (cases n) (auto simp: name_ok_def)
  have "split_flag (n @ CHR ''='' # flag_text v) = (n, Some (flag_text v))" using split_flag_arg [OF assms(1)] by simp
  then show ?thesis
    using assms set_flag_text [OF assms(3)] by (cases f) (auto simp: flag_arg_def name_ok_def n split: option.splits)
qed

lemma put_middle: "n \<notin> fst ` set xs \<Longrightarrow> map_put n v (xs @ (n, f) # ys) = xs @ (n, v) # ys"
  by (induction xs) auto

lemma get_middle: "n \<notin> fst ` set xs \<Longrightarrow> map_get (xs @ (n, f) # ys) n = Some f"
  by (induction xs) auto

lemma parse_settings_from:
  assumes "settings fs vs" "fst ` set ds \<inter> fst ` set vs = {}"
  shows "parse_flags (ds @ fs) (map flag_arg vs) = Parsed (ds @ vs) []"
  using assms
proof (induction vs arbitrary: fs ds)
  case (Cons v vs)
  obtain n x where v: "v = (n, x)" by force
  obtain f fs' where fs: "fs = (n, f) # fs'" "name_ok n" "fits_flag f x" "settings fs' vs" "n \<notin> fst ` set vs"
    using Cons.prems(1) v by (auto simp: settings_def list_all2_Cons2)
  have "parse_flags (ds @ fs) (map flag_arg (v # vs)) = parse_flags ((ds @ [v]) @ fs') (map flag_arg vs)"
    using parse_flags_arg [OF fs(2) _ fs(3), of "ds @ fs"] get_middle [of n ds f fs'] put_middle [of n ds x f fs'] Cons.prems(2) v fs(1)
    by auto
  then show ?case using Cons.IH [OF fs(4), of "ds @ [v]"] Cons.prems(2) v fs(5) by auto
qed (simp add: settings_def)

lemma parse_settings: "settings fs vs \<Longrightarrow> parse_flags fs (map flag_arg vs) = Parsed vs []"
  using parse_settings_from [of fs vs "[]"] by simp


section \<open>Properties\<close>

text \<open>A message that is produced without routing: one request, with the bytes of the command line.\<close>

definition produce_request_of :: "flag_set \<Rightarrow> produce_request" where
  "produce_request_of vs = \<lparr>prTopic = flag_str vs ''topic'', prPartition = int32 (flag_int vs ''partition''),
     prKey = flag_str vs ''key'', prValue = flag_str vs ''value''\<rparr>"

lemma produce_cmd_direct:
  assumes "envDial env (flag_str vs ''broker'')" "flag_str vs ''topic'' \<noteq> ''''" "flag_str vs ''value'' \<noteq> ''''" "\<not> flag_bool vs ''route''"
  shows "produce_cmd env vs = (case envProduce env (flag_str vs ''broker'') (produce_request_of vs) of
      Inl e \<Rightarrow> ([], Some (exit_code e))
    | Inr offset \<Rightarrow> (''produced to '' @ flag_str vs ''topic'' @ ''/'' @ int_dec (flag_int vs ''partition'') @ '' at offset '' @ int_dec offset @ [newline], Some 0))"
  using assms
  by (auto simp: produce_cmd_def runProduce_def producer_New_def Send_def produce_request_of_def split: sum.splits)

text \<open>
  C37: A command line says what the command does: the flags of a command, written \<^verbatim>\<open>-name=value\<close> for any values of their kinds, are
  parsed back to exactly these values, with nothing left over, and \<open>main\<close> runs the command of that name on them; \<open>produce\<close>
  without \<open>-route\<close> then sends one request with the topic, the key and the value as they were given and
  reports its offset.
\<close>

theorem command_line_roundtrip:
  assumes "settings fs vs"
  shows "parse_flags fs (map flag_arg vs) = Parsed vs []
    \<and> (fs = create_topic_flags \<longrightarrow> cli_main env c (''create-topic'' # map flag_arg vs) = (c, createTopic_cmd env vs))
    \<and> (fs = register_broker_flags \<longrightarrow> cli_main env c (''register-broker'' # map flag_arg vs) = registerBroker_cmd env c vs)
    \<and> (fs = consume_flags \<longrightarrow> cli_main env c (''consume'' # map flag_arg vs) = (c, consume_cmd env vs))
    \<and> (fs = produce_flags \<longrightarrow> cli_main env c (''produce'' # map flag_arg vs) = (c, produce_cmd env vs)
        \<and> (envDial env (flag_str vs ''broker'') \<and> flag_str vs ''topic'' \<noteq> '''' \<and> flag_str vs ''value'' \<noteq> '''' \<and> \<not> flag_bool vs ''route'' \<longrightarrow>
            produce_cmd env vs = (case envProduce env (flag_str vs ''broker'') (produce_request_of vs) of
                Inl e \<Rightarrow> ([], Some (exit_code e))
              | Inr offset \<Rightarrow> (''produced to '' @ flag_str vs ''topic'' @ ''/'' @ int_dec (flag_int vs ''partition'') @ '' at offset '' @
                  int_dec offset @ [newline], Some 0))))"
proof -
  note p = parse_settings [OF assms]
  then show ?thesis
    by (intro conjI impI) (auto simp: cli_main_def with_flags_def produce_cmd_direct)
qed

definition demo_env :: cli_env where
  "demo_env = \<lparr>envDial = (\<lambda>_. True), envQuote = (\<lambda>s. s), envBrokerCreate = (\<lambda>_ _. Inr ()), envCoordCreate = (\<lambda>_ _. Inr ()),
     envCoordDial = (\<lambda>_. True), envMetadata = (\<lambda>_ _. Inr []), envProduce = (\<lambda>_ req. Inr (int (length (prValue req)))),
     envNet = (\<lambda>_ _ _. None), envJoin = (\<lambda>_. Inr []), envGetMeta = (\<lambda>_. Inr []), envNow = 0, envEvents = [], envAnswers = []\<rparr>"

definition demo_flags :: flag_set where
  "demo_flags = [(''broker'', StrFlag ''b:1''), (''topic'', StrFlag ''orders''), (''partition'', IntFlag 2),
     (''key'', StrFlag ''-k=1''), (''value'', StrFlag ''hello''), (''route'', BoolFlag False)]"

theorem command_line_roundtrip_witness:
  "cli_main demo_env coordinator_New (''produce'' # map flag_arg demo_flags) = (coordinator_New, ''produced to orders/2 at offset 5'' @ [newline], Some 0)
    \<and> map flag_arg demo_flags ! 3 = ''-key=-k=1''"
proof -
  have "settings produce_flags demo_flags" by code_simp
  note * = command_line_roundtrip [OF this, of demo_env coordinator_New]
  have "envDial demo_env (flag_str demo_flags ''broker'')" "flag_str demo_flags ''topic'' = ''orders''"
    "flag_str demo_flags ''value'' \<noteq> ''''" "\<not> flag_bool demo_flags ''route''" "flag_int demo_flags ''partition'' = 2"
    "envProduce demo_env (flag_str demo_flags ''broker'') (produce_request_of demo_flags) = Inr 5"
    "int_dec 2 = ''2''" "int_dec 5 = ''5''" "map flag_arg demo_flags ! 3 = ''-key=-k=1''" by code_simp+
  with * show ?thesis by simp
qed

text \<open>
  A line without a command, with an unknown command or with a flag the command does not declare
  ends the program before any call, with code 1 or 2.
\<close>

lemma command_line_rejects:
  "cli_main env c [] = (c, [], Some 1)"
  "\<not> List.member [''create-topic'', ''register-broker'', ''produce'', ''consume''] cmd \<Longrightarrow> cli_main env c (cmd # args) = (c, [], Some 1)"
  "name_ok n \<Longrightarrow> map_get fs n = None \<Longrightarrow> n \<noteq> ''help'' \<Longrightarrow> n \<noteq> ''h'' \<Longrightarrow> with_flags fs ((''-'' @ n @ ''='' @ v) # args) run = ([], Some 2)"
proof -
  show "with_flags fs ((''-'' @ n @ ''='' @ v) # args) run = ([], Some 2)"
    if "name_ok n" "map_get fs n = None" "n \<noteq> ''help''" "n \<noteq> ''h''"
    using that split_flag_arg [OF that(1), of v] by (cases n) (auto simp: with_flags_def name_ok_def)
qed (simp_all add: cli_main_def)

lemma command_line_rejects_witness:
  "cli_main env c [''produce'', ''-topics=t''] = (c, [], Some 2)"
proof -
  have "name_ok ''topics''" "map_get produce_flags ''topics'' = None" by code_simp+
  from command_line_rejects(3) [OF this, where v = "''t''" and args = "[]"] show ?thesis by (simp add: cli_main_def)
qed

end
