(* ===== verification/Coordinator_Runs.thy ===== *)
theory Coordinator_Runs
  imports Refinement Coordinator
begin

text \<open>
  Runs of a coordinator: any sequence of requests, heartbeats, failovers and changes of Raft
  leadership, with any outcome of every Raft entry.  The specification is the table of partition
  assignments alone, with the four ways in which it may change; the coordinator refines it, and what
  the table keeps the coordinator keeps.
\<close>

subsection \<open>The specification\<close>

type_synonym layout = "string \<times> int \<Rightarrow> partition_state option"

text \<open>An assignment that makes sense and that its JSON encoding keeps.\<close>

definition layout_ok :: "string \<times> int \<Rightarrow> partition_state \<Rightarrow> bool" where
  "layout_ok k ps \<longleftrightarrow> utf8_valid (fst k) \<and> is_int32 (snd k) \<and> utf8_valid (psPrimary ps) \<and> list_all utf8_valid (psBackups ps)
     \<and> is_int64 (psEpoch ps) \<and> psPrimary ps \<notin> set (psBackups ps) \<and> distinct (psBackups ps)"

definition promoted :: "string \<Rightarrow> partition_state \<Rightarrow> partition_state" where
  "promoted addr ps = ps\<lparr>psPrimary := addr, psBackups := remaining_backups ps addr, psEpoch := int64 (psEpoch ps + 1)\<rparr>"

inductive layout_change :: "layout \<Rightarrow> layout \<Rightarrow> bool" where
  promote: "L k = Some ps \<Longrightarrow> utf8_valid addr \<Longrightarrow> layout_change L (L(k \<mapsto> promoted addr ps))"
| isr: "L k = Some ps \<Longrightarrow> layout_change L (L(k \<mapsto> ps\<lparr>psISR := ids\<rparr>))"
| appear: "L k = None \<Longrightarrow> layout_ok k ps \<Longrightarrow> layout_change L (L(k \<mapsto> ps))"

inductive layout_step :: "layout \<Rightarrow> layout \<Rightarrow> bool" where
  change: "layout_change L M \<Longrightarrow> layout_step L M"
| assign: "layout_ok k ps \<Longrightarrow> layout_step L (L(k \<mapsto> ps))"

definition layout_wf :: "layout \<Rightarrow> bool" where
  "layout_wf L \<longleftrightarrow> (\<forall>k ps. L k = Some ps \<longrightarrow> layout_ok k ps)"

definition layout_of :: "fsm \<Rightarrow> layout" where
  "layout_of f = map_get (fsmState f)"

subsection \<open>Operations of a run\<close>

datatype coord_op =
    OpRegister register_request
  | OpCreateTopic int create_topic_request
  | OpUpdateLeader int update_leader_request
  | OpAlterIsr alter_isr_request
  | OpHeartbeat int heartbeat_request
  | OpJoin join_group_request
  | OpCommit commit_offsets_request
  | OpFailOver int int
  | OpTick int bool
  | OpLeadership bool

fun coord_step :: "(string \<Rightarrow> bool) \<Rightarrow> (bytes \<Rightarrow> raft_outcome) \<Rightarrow> coordinator \<Rightarrow> coord_op \<Rightarrow> coordinator" where
  "coord_step dial raft c (OpRegister req) = fst (RegisterBroker dial c req)"
| "coord_step dial raft c (OpCreateTopic now req) = fst (coordinator_CreateTopic raft now c req)"
| "coord_step dial raft c (OpUpdateLeader now req) = fst (UpdatePartitionLeader raft now c req)"
| "coord_step dial raft c (OpAlterIsr req) = fst (AlterIsr raft c req)"
| "coord_step dial raft c (OpHeartbeat now req) = fst (Heartbeat now c req)"
| "coord_step dial raft c (OpJoin req) = fst (JoinGroup c req)"
| "coord_step dial raft c (OpCommit req) = CommitOffsets c req"
| "coord_step dial raft c (OpFailOver now i) = fst (failOverBrokerPartitions raft now c i)"
| "coord_step dial raft c (OpTick now wasLeader) = fst (snd (runFailoverLoop_tick raft now wasLeader c))"
| "coord_step dial raft c (OpLeadership b) = c\<lparr>cRaft := map_option (\<lambda>n. n\<lparr>rnIsLeader := b\<rparr>) (cRaft c)\<rparr>"

text \<open>Strings of a request are valid UTF-8 and its numbers fit their fields, as on the wire.\<close>

fun coord_op_ok :: "coord_op \<Rightarrow> bool" where
  "coord_op_ok (OpRegister req) = utf8_valid (rgAddr req)"
| "coord_op_ok (OpCreateTopic now req) = (utf8_valid (ctTopic req) \<and> is_int32 (ctPartitions req))"
| "coord_op_ok (OpUpdateLeader now req) = (utf8_valid (ulTopic req) \<and> utf8_valid (ulBrokerAddr req) \<and> is_int32 (ulPartition req))"
| "coord_op_ok (OpAlterIsr req) = (utf8_valid (aiTopic req) \<and> is_int32 (aiPartition req) \<and> is_int64 (aiEpoch req) \<and> list_all is_int32 (aiIsrIds req))"
| "coord_op_ok _ = True"

definition coord_inv :: "coordinator \<Rightarrow> bool" where
  "coord_inv c \<longleftrightarrow> distinct (cBrokers c) \<and> list_all utf8_valid (cBrokers c)
     \<and> gomap_ok (fsmState (fsm_of c)) \<and> list_all (\<lambda>(k, ps). layout_ok k ps) (fsmState (fsm_of c))"

fun creates :: "coord_op \<Rightarrow> bool" where
  "creates (OpCreateTopic now req) = True"
| "creates _ = False"

section \<open>The specification\<close>

lemma remaining_backups_distinct:
  assumes "psPrimary ps \<notin> set (psBackups ps)" "distinct (psBackups ps)"
  shows "addr \<notin> set (remaining_backups ps addr)" "distinct (remaining_backups ps addr)"
  using assms by (auto simp: remaining_backups_def)

lemma layout_ok_promoted:
  assumes "layout_ok k ps" "utf8_valid addr"
  shows "layout_ok k (promoted addr ps)"
proof -
  have "list_all utf8_valid (remaining_backups ps addr)"
    using assms by (auto simp: list_all_iff remaining_backups_def layout_ok_def)
  then show ?thesis
    using assms remaining_backups_distinct [of ps addr] by (simp add: promoted_def layout_ok_def)
qed

lemma layout_wf_put: "layout_wf L \<Longrightarrow> layout_ok k ps \<Longrightarrow> layout_wf (L(k \<mapsto> ps))"
  unfolding layout_wf_def by (metis fun_upd_apply option.inject)

lemma layout_wf_get: "layout_wf L \<Longrightarrow> L k = Some ps \<Longrightarrow> layout_ok k ps"
  unfolding layout_wf_def by blast

lemma layout_ok_isr: "layout_ok k (ps\<lparr>psISR := ids\<rparr>) = layout_ok k ps"
  by (simp add: layout_ok_def)

lemma layout_change_wf: "layout_change L M \<Longrightarrow> layout_wf L \<Longrightarrow> layout_wf M"
  by (induction rule: layout_change.induct)
    (auto intro!: layout_wf_put layout_ok_promoted dest: layout_wf_get simp: layout_ok_isr)

lemma layout_step_wf: "layout_step L M \<Longrightarrow> layout_wf L \<Longrightarrow> layout_wf M"
  by (induction rule: layout_step.induct) (auto intro: layout_change_wf layout_wf_put)

lemma layout_wf_steps: "layout_step\<^sup>*\<^sup>* L M \<Longrightarrow> layout_wf L \<Longrightarrow> layout_wf M"
  by (induction rule: rtranclp_induct) (auto intro: layout_step_wf)

text \<open>What changes of leader and ISR do to one partition.\<close>

definition replicas_of :: "partition_state \<Rightarrow> string set" where
  "replicas_of ps = insert (psPrimary ps) (set (psBackups ps))"

lemma replicas_of_promoted: "replicas_of ps \<subseteq> replicas_of (promoted addr ps)"
  by (auto simp: replicas_of_def promoted_def remaining_backups_def)

lemma int64_int64_add: "int64 (int64 x + y) = int64 (x + y)"
proof -
  have "((x + 2 ^ 63) mod 2 ^ 64 - 2 ^ 63 + y + 2 ^ 63) mod 2 ^ 64 = ((x + 2 ^ 63) mod 2 ^ 64 + y) mod (2 ^ 64 :: int)" by simp
  also have "\<dots> = (x + 2 ^ 63 + y) mod 2 ^ 64" by (rule mod_add_left_eq)
  finally show ?thesis by (simp add: int64_def algebra_simps)
qed

lemma layout_changes_partition:
  assumes "layout_change\<^sup>*\<^sup>* L M" "L k = Some ps" "is_int64 (psEpoch ps)"
  shows "\<exists>ps' n. M k = Some ps' \<and> replicas_of ps \<subseteq> replicas_of ps' \<and> psEpoch ps' = int64 (psEpoch ps + int n)"
  using assms(1)
proof (induction rule: rtranclp_induct)
  case base
  then show ?case using assms(2,3) by (intro exI [of _ ps] exI [of _ 0]) (simp add: go_int)
next
  case (step M N)
  then obtain ps' n where p: "M k = Some ps'" "replicas_of ps \<subseteq> replicas_of ps'" "psEpoch ps' = int64 (psEpoch ps + int n)" by blast
  from step(2) show ?case
  proof (cases rule: layout_change.cases)
    case (promote j ps1 addr)
    show ?thesis
    proof (cases "j = k")
      case True
      then have "N k = Some (promoted addr ps')" using promote p(1) by simp
      moreover have "psEpoch (promoted addr ps') = int64 (psEpoch ps + int (n + 1))"
        using p(3) int64_int64_add [of "psEpoch ps + int n" 1] by (simp add: promoted_def algebra_simps)
      ultimately show ?thesis using p(2) replicas_of_promoted [of ps' addr] by blast
    qed (use promote p in auto)
  next
    case (isr j ps1 ids)
    then show ?thesis
    proof (cases "j = k")
      case True
      then have "N k = Some (ps'\<lparr>psISR := ids\<rparr>)" using isr p(1) by simp
      then show ?thesis using p(2,3) by (intro exI [of _ "ps'\<lparr>psISR := ids\<rparr>"] exI [of _ n]) (simp add: replicas_of_def)
    qed (use isr p in auto)
  next
    case (appear j ps1)
    then show ?thesis using p by (cases "j = k") auto
  qed
qed


section \<open>The coordinator\<close>

lemma coord_inv_layout: "coord_inv c \<Longrightarrow> layout_wf (layout_of (fsm_of c))"
  unfolding coord_inv_def layout_wf_def layout_of_def using list_all_get by fastforce

lemma list_all_of_layout: "gomap_ok m \<Longrightarrow> layout_wf (map_get m) \<Longrightarrow> list_all (\<lambda>(k, ps). layout_ok k ps) m"
  by (auto simp: list_all_iff layout_wf_def map_get_in_set)

text \<open>
  A coordinator whose assignments moved along the specification and whose brokers are the same, or
  new ones with a valid address.
\<close>

definition moved :: "(layout \<Rightarrow> layout \<Rightarrow> bool) \<Rightarrow> coordinator \<Rightarrow> coordinator \<Rightarrow> bool" where
  "moved R c c' \<longleftrightarrow> R\<^sup>*\<^sup>* (layout_of (fsm_of c)) (layout_of (fsm_of c'))
     \<and> (gomap_ok (fsmState (fsm_of c)) \<longrightarrow> gomap_ok (fsmState (fsm_of c')))
     \<and> cBrokers c' = cBrokers c \<and> (cRaft c' = None \<longleftrightarrow> cRaft c = None)"

lemma moved_refl: "fsm_of c' = fsm_of c \<Longrightarrow> cBrokers c' = cBrokers c \<Longrightarrow> (cRaft c' = None \<longleftrightarrow> cRaft c = None) \<Longrightarrow> moved R c c'"
  by (simp add: moved_def)

lemma moved_trans: "moved R a b \<Longrightarrow> moved R b c \<Longrightarrow> moved R a c"
  by (auto simp: moved_def intro: rtranclp_trans)

lemma moved_mono:
  assumes "\<And>L M. R L M \<Longrightarrow> S L M" "moved R a b"
  shows "moved S a b"
  using assms rtranclp_mono [of R S] by (auto simp: moved_def le_fun_def)

lemma moved_change: "moved layout_change a b \<Longrightarrow> moved layout_step a b"
  by (rule moved_mono) (rule change)

lemma coord_inv_moved:
  assumes "coord_inv c" "moved layout_step c c'"
  shows "coord_inv c'"
proof -
  have "layout_wf (layout_of (fsm_of c'))"
    using assms layout_wf_steps coord_inv_layout by (auto simp: moved_def)
  then show ?thesis using assms list_all_of_layout [of "fsmState (fsm_of c')"] by (auto simp: coord_inv_def moved_def layout_of_def)
qed

lemma layout_of_apply:
  "layout_of (FSM_applyCommand f cmd) = (\<lambda>k. FSM_Get (FSM_applyCommand f cmd) (fst k) (snd k))"
  by (rule ext) (simp add: layout_of_def FSM_Get_def)

text \<open>One Raft entry, whatever becomes of it.\<close>

lemma raft_Apply_moved:
  assumes "command_ok cmd" "R\<^sup>*\<^sup>* (layout_of (fsm_of c)) (layout_of (FSM_applyCommand (fsm_of c) cmd))"
  shows "moved R c (fst (raft_Apply raft c cmd))" "cTopics (fst (raft_Apply raft c cmd)) = cTopics c"
proof -
  have "moved R c (fst (raft_Apply raft c cmd)) \<and> cTopics (fst (raft_Apply raft c cmd)) = cTopics c"
  proof (cases "cRaft c")
    case None
    then show ?thesis by (simp add: raft_Apply_def moved_def)
  next
    case (Some n)
    then show ?thesis
      using assms FSM_apply_ok [of "rnFSM n" cmd]
      by (auto simp: raft_Apply_def Node_Apply_cases [OF assms(1)] moved_def fsm_of_def split: raft_outcome.splits)
  qed
  then show "moved R c (fst (raft_Apply raft c cmd))" "cTopics (fst (raft_Apply raft c cmd)) = cTopics c" by simp_all
qed

lemma layout_put_cmd:
  "cmdType cmd = CmdAssign \<Longrightarrow> layout_of (FSM_applyCommand f cmd) = (layout_of f)((cmdTopic cmd, cmdPartition cmd) \<mapsto>
     \<lparr>psPrimary = cmdPrimary cmd, psBackups = cmdBackups cmd, psEpoch = cmdEpoch cmd, psISR = []\<rparr>)"
  "cmdType cmd = CmdUpdateLeader \<Longrightarrow> layout_of (FSM_applyCommand f cmd) = (layout_of f)((cmdTopic cmd, cmdPartition cmd) \<mapsto>
     (state_at f (cmdTopic cmd, cmdPartition cmd))\<lparr>psPrimary := cmdPrimary cmd, psBackups := cmdBackups cmd, psEpoch := cmdEpoch cmd\<rparr>)"
  "cmdType cmd = CmdUpdateISR \<Longrightarrow> layout_of (FSM_applyCommand f cmd) =
     (if psEpoch (state_at f (cmdTopic cmd, cmdPartition cmd)) \<le> cmdEpoch cmd
      then (layout_of f)((cmdTopic cmd, cmdPartition cmd) \<mapsto> (state_at f (cmdTopic cmd, cmdPartition cmd))\<lparr>psISR := cmdISR cmd\<rparr>)
      else layout_of f)"
  by (auto simp: fun_eq_iff layout_of_def FSM_applyCommand_def Let_def go_map CmdAssign_def CmdUpdateLeader_def CmdUpdateISR_def)

lemma state_at_layout: "state_at f k = (case layout_of f k of None \<Rightarrow> zero_state | Some ps \<Rightarrow> ps)"
  by (simp add: state_at_def layout_of_def)

lemma layout_ok_zero: "utf8_valid (fst k) \<Longrightarrow> is_int32 (snd k) \<Longrightarrow> layout_ok k (zero_state\<lparr>psISR := ids\<rparr>)"
  by (simp add: layout_ok_def zero_state_def)

text \<open>The command of a change of leader.\<close>

lemma leader_command_moves:
  assumes "coord_inv c" "utf8_valid (ulTopic req)" "utf8_valid (ulBrokerAddr req)" "is_int32 (ulPartition req)"
    and "new_layout (fsm_of c) req = (e, bs)"
  shows "command_ok (leader_command req e bs)"
    and "layout_change\<^sup>*\<^sup>* (layout_of (fsm_of c)) (layout_of (FSM_applyCommand (fsm_of c) (leader_command req e bs)))"
proof -
  let ?f = "fsm_of c" and ?k = "(ulTopic req, ulPartition req)" and ?a = "ulBrokerAddr req"
  have get: "FSM_Get ?f (ulTopic req) (ulPartition req) = layout_of ?f ?k" by (simp add: FSM_Get_def layout_of_def)
  note put = layout_put_cmd(2) [of "leader_command req e bs" ?f]
  have "command_ok (leader_command req e bs) \<and>
    layout_change (layout_of ?f) (layout_of (FSM_applyCommand ?f (leader_command req e bs)))"
  proof (cases "layout_of ?f ?k")
    case None
    then have eb: "e = 1" "bs = []" using assms(5) get by (simp_all add: new_layout_def)
    then have "layout_change (layout_of ?f) ((layout_of ?f)(?k \<mapsto> zero_state\<lparr>psPrimary := ?a, psBackups := [], psEpoch := 1\<rparr>))"
      using None assms(2-4) by (intro appear) (simp_all add: layout_ok_def zero_state_def is_int64_def)
    then show ?thesis
      using put None eb assms(2-4) by (simp add: state_at_layout leader_command_def command_ok_def CmdUpdateLeader_def is_int64_def)
  next
    case (Some ps)
    then have eb: "e = int64 (psEpoch ps + 1)" "bs = remaining_backups ps ?a" using assms(5) get by (simp_all add: new_layout_def)
    have ok: "layout_ok ?k ps" using coord_inv_layout [OF assms(1)] Some layout_wf_get by blast
    have "list_all utf8_valid bs" using ok layout_ok_promoted [OF ok assms(3)] eb by (simp add: layout_ok_def promoted_def)
    moreover have "layout_change (layout_of ?f) ((layout_of ?f)(?k \<mapsto> promoted ?a ps))"
      using Some assms(3) by (rule promote)
    ultimately show ?thesis
      using put Some eb assms(2-4) by (simp add: state_at_layout leader_command_def command_ok_def CmdUpdateLeader_def promoted_def)
  qed
  then show "command_ok (leader_command req e bs)"
    "layout_change\<^sup>*\<^sup>* (layout_of ?f) (layout_of (FSM_applyCommand ?f (leader_command req e bs)))" by auto
qed


subsection \<open>One operation\<close>

lemma UpdatePartitionLeader_moved:
  assumes "coord_inv c" "utf8_valid (ulTopic req)" "utf8_valid (ulBrokerAddr req)" "is_int32 (ulPartition req)"
  shows "moved layout_change c (fst (UpdatePartitionLeader raft now c req))"
proof -
  obtain e bs where l: "new_layout (fsm_of c) req = (e, bs)" by force
  obtain c1 r where a: "raft_Apply raft c (leader_command req e bs) = (c1, r)" by force
  note mv = raft_Apply_moved(1) [OF leader_command_moves [OF assms l], of raft, unfolded a fst_conv]
  have ts: "moved layout_change c (c1\<lparr>cTopics := ts\<rparr>)" "moved layout_change c (c\<lparr>cTopics := ts\<rparr>)" for ts
    using mv by (simp_all add: moved_def fsm_of_def)
  show ?thesis
  proof (cases "cRaft c")
    case None
    then show ?thesis using ts
      by (auto simp: UpdatePartitionLeader_def Let_def moved_refl split: option.splits)
  next
    case (Some n)
    then show ?thesis using ts mv l a
      by (cases r) (auto simp: UpdatePartitionLeader_def Let_def moved_refl split: option.splits)
  qed
qed

lemma AlterIsr_moved:
  assumes "coord_inv c" "coord_op_ok (OpAlterIsr req)"
  shows "moved layout_change c (fst (AlterIsr raft c req))"
proof -
  let ?cmd = "isr_command req" and ?f = "fsm_of c" and ?k = "(aiTopic req, aiPartition req)"
  have ok: "command_ok ?cmd" using assms(2) by (simp add: isr_command_def command_ok_def CmdUpdateISR_def)
  have "layout_change\<^sup>*\<^sup>* (layout_of ?f) (layout_of (FSM_applyCommand ?f ?cmd))"
  proof (cases "layout_of ?f ?k")
    case None
    have "layout_change (layout_of ?f) ((layout_of ?f)(?k \<mapsto> zero_state\<lparr>psISR := aiIsrIds req\<rparr>))"
      using None assms(2) by (intro appear layout_ok_zero) simp_all
    then show ?thesis using layout_put_cmd(3) [of ?cmd ?f] None by (simp add: isr_command_def state_at_layout r_into_rtranclp)
  next
    case (Some ps)
    then have "layout_change (layout_of ?f) ((layout_of ?f)(?k \<mapsto> ps\<lparr>psISR := aiIsrIds req\<rparr>))" by (rule isr)
    then show ?thesis using layout_put_cmd(3) [of ?cmd ?f] Some by (simp add: isr_command_def state_at_layout r_into_rtranclp)
  qed
  note mv = raft_Apply_moved(1) [OF ok this, of raft]
  obtain c1 r where "raft_Apply raft c ?cmd = (c1, r)" by force
  then show ?thesis using mv by (cases r) (auto simp: AlterIsr_def moved_refl)
qed

lemma failover_parts_moved:
  assumes "coord_inv c" "utf8_valid t" "list_all (\<lambda>(i, ps). layout_ok (t, i) ps) rest"
  shows "moved layout_change c (fst (failover_parts raft now dead t c rest))"
  using assms(1,3)
proof (induction rest arbitrary: c)
  case (Cons e rest)
  obtain i ps where e: "e = (i, ps)" by force
  show ?case
  proof (cases "psPrimary ps = dead \<and> pickNewLeader now c t i (psBackups ps) \<noteq> None")
    case True
    then obtain a where a: "pickNewLeader now c t i (psBackups ps) = Some a" "psPrimary ps = dead" by auto
    let ?req = "\<lparr>ulTopic = t, ulPartition = i, ulBrokerAddr = a\<rparr>"
    let ?c = "fst (UpdatePartitionLeader raft now c ?req)"
    have "utf8_valid a" "is_int32 i"
      using pickNewLeader_in [OF a(1)] Cons.prems(2) e by (auto simp: layout_ok_def list_all_iff)
    then have mv: "moved layout_change c ?c" using Cons.prems(1) assms(2) by (intro UpdatePartitionLeader_moved) simp_all
    have "coord_inv ?c" using coord_inv_moved [OF Cons.prems(1) moved_change [OF mv]] .
    from Cons.IH [OF this] Cons.prems(2) have "moved layout_change ?c (fst (failover_parts raft now dead t ?c rest))" by simp
    then show ?thesis using moved_trans [OF mv] a e by (simp add: split_beta Let_def)
  next
    case False
    then show ?thesis using Cons.IH [OF Cons.prems(1)] Cons.prems(2) e by (auto split: option.splits)
  qed
qed (simp add: moved_refl)

lemma GetTopic_layout:
  assumes "coord_inv c"
  shows "list_all (\<lambda>(i, ps). layout_ok (t, i) ps) (fst (GetTopic (fsm_of c) t))"
proof -
  have g: "gomap_ok (fsmState (fsm_of c))" using assms by (simp add: coord_inv_def)
  have "layout_ok (t, i) ps" if "(i, ps) \<in> set (fst (GetTopic (fsm_of c) t))" for i ps
  proof -
    have "FSM_Get (fsm_of c) t i = Some ps"
      using that GetTopic_get [OF g, of t i] GetTopic_ok [of "fsm_of c" t] by (simp add: map_get_in_set [symmetric])
    then show ?thesis using layout_wf_get [OF coord_inv_layout [OF assms]] by (simp add: FSM_Get_def layout_of_def)
  qed
  then show ?thesis by (auto simp: list_all_iff)
qed

lemma failover_topics_moved:
  assumes "coord_inv c" "list_all utf8_valid ts"
  shows "moved layout_change c (fst (failover_topics raft now dead c ts))"
  using assms
proof (induction ts arbitrary: c)
  case (Cons t ts)
  let ?by = "GetTopic (fsm_of c) t"
  let ?c = "fst (if \<not> snd ?by then (c, []) else failover_parts raft now dead t c (fst ?by))"
  have mv: "moved layout_change c ?c"
    using failover_parts_moved [OF Cons.prems(1) _ GetTopic_layout [OF Cons.prems(1)], of t] Cons.prems(2) by (simp add: moved_refl)
  have "coord_inv ?c" using coord_inv_moved [OF Cons.prems(1) moved_change [OF mv]] .
  from Cons.IH [OF this] Cons.prems(2) have "moved layout_change ?c (fst (failover_topics raft now dead ?c ts))" by simp
  then show ?case using moved_trans [OF mv] by (simp add: split_beta Let_def)
qed (simp add: moved_refl)

lemma AllTopics_utf8:
  assumes "coord_inv c"
  shows "list_all utf8_valid (AllTopics (fsm_of c))"
proof -
  have "utf8_valid t" if "FSM_Get (fsm_of c) t i = Some ps" for t i ps
    using layout_wf_get [OF coord_inv_layout [OF assms], of "(t, i)" ps] that by (simp add: FSM_Get_def layout_of_def layout_ok_def)
  then show ?thesis by (auto simp: list_all_iff AllTopics_iff)
qed

lemma failOver_moved:
  assumes "coord_inv c"
  shows "moved layout_change c (fst (failOverBrokerPartitions raft now c i))"
  using failover_topics_moved [OF assms AllTopics_utf8 [OF assms]]
  by (auto simp: failOverBrokerPartitions_def moved_refl split: option.splits)

lemma failOvers_moved:
  assumes "coord_inv c"
  shows "moved layout_change c (fst (fold (\<lambda>i (c, calls). let (c', calls') = failOverBrokerPartitions raft now c i
      in (c', calls @ calls')) is (c, calls)))"
  using assms
proof (induction "is" arbitrary: c calls)
  case (Cons i "is")
  obtain c1 calls1 where c1: "failOverBrokerPartitions raft now c i = (c1, calls1)" by force
  have mv: "moved layout_change c c1" using failOver_moved [OF Cons.prems, of raft now i] c1 by simp
  have "coord_inv c1" using coord_inv_moved [OF Cons.prems moved_change [OF mv]] .
  from Cons.IH [OF this, of "calls @ calls1"] show ?case using moved_trans [OF mv] c1 by simp
qed (simp add: moved_refl)

lemma tick_moved:
  assumes "coord_inv c"
  shows "moved layout_change c (fst (snd (runFailoverLoop_tick raft now wasLeader c)))"
  using failOvers_moved [OF assms] unfolding runFailoverLoop_tick_def
  by (auto simp: moved_refl fsm_of_def split_beta Let_def)


lemma apply_assignments_moved:
  assumes "utf8_valid t"
    and "list_all (\<lambda>a. layout_ok (t, paPartition a) \<lparr>psPrimary = paPrimary a, psBackups = paBackups a, psEpoch = 1, psISR = []\<rparr>) as"
  shows "moved layout_step c (fst (apply_assignments raft c t as))"
  using assms(2)
proof (induction as arbitrary: c)
  case (Cons a as)
  let ?cmd = "assign_command t a" and ?ps = "\<lparr>psPrimary = paPrimary a, psBackups = paBackups a, psEpoch = 1, psISR = []\<rparr>"
  have ok: "layout_ok (t, paPartition a) ?ps" using Cons.prems by simp
  then have "command_ok ?cmd" by (simp add: layout_ok_def command_ok_def assign_command_def CmdAssign_def)
  moreover have "layout_step\<^sup>*\<^sup>* (layout_of (fsm_of c)) (layout_of (FSM_applyCommand (fsm_of c) ?cmd))"
    using assign [OF ok, of "layout_of (fsm_of c)"] layout_put_cmd(1) [of ?cmd "fsm_of c"]
    by (simp add: assign_command_def r_into_rtranclp)
  ultimately have mv: "moved layout_step c (fst (raft_Apply raft c ?cmd))" by (rule raft_Apply_moved)
  obtain c1 r where c1: "raft_Apply raft c ?cmd = (c1, r)" by force
  have "moved layout_step c1 (fst (apply_assignments raft c1 t as))" using Cons by simp
  then show ?case using mv moved_trans c1 by (cases r) auto
qed (simp add: moved_refl)

lemma CreateTopic_moved:
  assumes "coord_inv c" "coord_op_ok (OpCreateTopic now req)"
  shows "moved layout_step c (fst (coordinator_CreateTopic raft now c req))"
proof (cases "cBrokers c = [] \<or> ctPartitions req \<le> 0")
  case True
  then show ?thesis by (auto simp: coordinator_CreateTopic_def moved_refl)
next
  case False
  let ?as = "make_assignments (cBrokers c) (ctPartitions req)"
  let ?L = "length (cBrokers c)"
  have b: "distinct (cBrokers c)" "list_all utf8_valid (cBrokers c)" using assms(1) by (simp_all add: coord_inv_def)
  note eq = make_assignments_props(1,2) [of "cBrokers c" "ctPartitions req"]
  have "list_all (\<lambda>a. layout_ok (ctTopic req, paPartition a)
      \<lparr>psPrimary = paPrimary a, psBackups = paBackups a, psEpoch = 1, psISR = []\<rparr>) ?as"
    using eq b False assms(2) by (auto simp: list_all_iff layout_ok_def is_int64_def)
  then have mv: "moved layout_step c0 (fst (apply_assignments raft c0 (ctTopic req) ?as))" for c0
    using assms(2) by (intro apply_assignments_moved) auto
  have ts: "moved layout_step c (c\<lparr>cTopics := x\<rparr>)" for x by (simp add: moved_refl fsm_of_def)
  obtain ps where ps: "ps = map (\<lambda>a. \<lparr>piPartition = paPartition a, piBrokerAddr = paPrimary a\<rparr>) ?as" by blast
  let ?c1 = "c\<lparr>cTopics := map_put (ctTopic req) ps (cTopics c)\<rparr>"
  have "moved layout_step c (fst (apply_assignments raft ?c1 (ctTopic req) ?as))" using moved_trans [OF ts mv] .
  then show ?thesis using False ts [of "map_put (ctTopic req) ps (cTopics c)"]
    by (auto simp: coordinator_CreateTopic_def Let_def ps [symmetric] moved_refl split: prod.splits sum.splits)
qed

section \<open>Runs\<close>

definition coord_does :: "(string \<Rightarrow> bool) \<Rightarrow> coordinator \<Rightarrow> coordinator \<Rightarrow> bool" where
  "coord_does dial c c' \<longleftrightarrow> (\<exists>op raft. coord_op_ok op \<and> c' = coord_step dial raft c op)"

lemma coord_step_moved:
  assumes "coord_inv c" "coord_op_ok op" "\<nexists>req. op = OpRegister req"
  shows "moved layout_step c (coord_step dial raft c op)"
    and "\<not> creates op \<Longrightarrow> moved layout_change c (coord_step dial raft c op)"
proof -
  have "moved layout_step c (coord_step dial raft c op) \<and> (\<not> creates op \<longrightarrow> moved layout_change c (coord_step dial raft c op))"
  proof (cases op)
    case (OpCreateTopic now req)
    then show ?thesis using CreateTopic_moved [OF assms(1)] assms(2) by simp
  next
    case (OpUpdateLeader now req)
    then show ?thesis using UpdatePartitionLeader_moved [OF assms(1)] assms(2) by (simp add: moved_change)
  next
    case (OpAlterIsr req)
    then show ?thesis using AlterIsr_moved [OF assms(1)] assms(2) by (simp add: moved_change)
  next
    case (OpFailOver now i)
    then show ?thesis using failOver_moved [OF assms(1)] by (simp add: moved_change)
  next
    case (OpTick now w)
    then show ?thesis using tick_moved [OF assms(1)] by (simp add: moved_change)
  next
    case (OpLeadership b)
    then show ?thesis by (cases "cRaft c") (auto intro!: moved_refl simp: fsm_of_def)
  qed (use assms(3) in \<open>auto intro!: moved_refl
      simp: Heartbeat_def JoinGroup_def CommitOffsets_def fsm_of_def Let_def split: option.splits sum.splits\<close>)
  then show "moved layout_step c (coord_step dial raft c op)"
    "\<not> creates op \<Longrightarrow> moved layout_change c (coord_step dial raft c op)" by auto
qed

lemma RegisterBroker_frame:
  "fsm_of (fst (RegisterBroker dial c req)) = fsm_of c"
  "coord_inv c \<Longrightarrow> utf8_valid (rgAddr req) \<Longrightarrow> coord_inv (fst (RegisterBroker dial c req))"
  by (auto simp: RegisterBroker_def Let_def coord_inv_def fsm_of_def)

lemma coord_step_keeps:
  assumes "coord_inv c" "coord_op_ok op"
  shows "coord_inv (coord_step dial raft c op)"
    and "layout_step\<^sup>*\<^sup>* (layout_of (fsm_of c)) (layout_of (fsm_of (coord_step dial raft c op)))"
    and "\<not> creates op \<Longrightarrow> layout_change\<^sup>*\<^sup>* (layout_of (fsm_of c)) (layout_of (fsm_of (coord_step dial raft c op)))"
proof -
  have "coord_inv (coord_step dial raft c op)
    \<and> layout_step\<^sup>*\<^sup>* (layout_of (fsm_of c)) (layout_of (fsm_of (coord_step dial raft c op)))
    \<and> (\<not> creates op \<longrightarrow> layout_change\<^sup>*\<^sup>* (layout_of (fsm_of c)) (layout_of (fsm_of (coord_step dial raft c op))))"
  proof (cases "\<exists>req. op = OpRegister req")
    case True
    then show ?thesis using RegisterBroker_frame assms by auto
  next
    case False
    note mv = coord_step_moved [OF assms, of dial raft]
    show ?thesis using False mv coord_inv_moved [OF assms(1)] by (auto simp: moved_def)
  qed
  then show "coord_inv (coord_step dial raft c op)"
    "layout_step\<^sup>*\<^sup>* (layout_of (fsm_of c)) (layout_of (fsm_of (coord_step dial raft c op)))"
    "\<not> creates op \<Longrightarrow> layout_change\<^sup>*\<^sup>* (layout_of (fsm_of c)) (layout_of (fsm_of (coord_step dial raft c op)))" by auto
qed

interpretation coord_refines: refinement "coord_does dial" coord_inv layout_step "\<lambda>c. layout_of (fsm_of c)"
  for dial by unfold_locales (auto simp: coord_does_def coord_step_keeps)


fun coord_run :: "(string \<Rightarrow> bool) \<Rightarrow> coordinator \<Rightarrow> (coord_op \<times> (bytes \<Rightarrow> raft_outcome)) list \<Rightarrow> coordinator" where
  "coord_run dial c [] = c"
| "coord_run dial c ((op, raft) # ops) = coord_run dial (coord_step dial raft c op) ops"

lemma coord_run_does:
  "list_all (\<lambda>(op, raft). coord_op_ok op) ops \<Longrightarrow> (coord_does dial)\<^sup>*\<^sup>* c (coord_run dial c ops)"
proof (induction dial c ops rule: coord_run.induct)
  case (2 dial c op raft ops)
  then have "coord_does dial c (coord_step dial raft c op)" by (auto simp: coord_does_def)
  with 2 show ?case by (simp add: converse_rtranclp_into_rtranclp)
qed simp

lemma coord_run_changes:
  assumes "coord_inv c" "list_all (\<lambda>(op, raft). coord_op_ok op \<and> \<not> creates op) ops"
  shows "layout_change\<^sup>*\<^sup>* (layout_of (fsm_of c)) (layout_of (fsm_of (coord_run dial c ops)))"
  using assms
proof (induction dial c ops rule: coord_run.induct)
  case (2 dial c op raft ops)
  then show ?case using coord_step_keeps(1,3) [of c op dial raft] by (auto intro: rtranclp_trans)
qed simp

section \<open>Properties\<close>

text \<open>
  C14: Whatever requests, heartbeats, failovers and changes of Raft leadership a coordinator goes through,
  and whatever becomes of each Raft entry, its table of assignments changes only by the steps of the
  specification; the primary of a partition is never one of its own backups, no backup is listed
  twice, and no broker is registered twice.
\<close>

theorem coordinator_layout_invariant:
  assumes "coord_inv c" "list_all (\<lambda>(op, raft). coord_op_ok op) ops"
  shows "layout_step\<^sup>*\<^sup>* (layout_of (fsm_of c)) (layout_of (fsm_of (coord_run dial c ops)))
    \<and> distinct (cBrokers (coord_run dial c ops))
    \<and> (FSM_Get (fsm_of (coord_run dial c ops)) t i = Some ps \<longrightarrow>
         psPrimary ps \<notin> set (psBackups ps) \<and> distinct (psBackups ps))"
proof -
  have run: "coord_inv (coord_run dial c ops)" "layout_step\<^sup>*\<^sup>* (layout_of (fsm_of c)) (layout_of (fsm_of (coord_run dial c ops)))"
    using coord_refines.run [OF coord_run_does [OF assms(2)] assms(1)] by simp_all
  then show ?thesis using layout_wf_get [OF coord_inv_layout [OF run(1)], of "(t, i)" ps]
    by (auto simp: coord_inv_def FSM_Get_def layout_of_def layout_ok_def)
qed

definition demo_run :: "(coord_op \<times> (bytes \<Rightarrow> raft_outcome)) list" where
  "demo_run = [(OpUpdateLeader 20000000000 \<lparr>ulTopic = ''t'', ulPartition = 0, ulBrokerAddr = ''c:1''\<rparr>, \<lambda>_. CommittedLate ContextErr),
     (OpAlterIsr \<lparr>aiTopic = ''t'', aiPartition = 0, aiEpoch = 2, aiIsrIds = [1, 2]\<rparr>, \<lambda>_. Committed),
     (OpFailOver 20000000000 1, \<lambda>_. Refused ContextErr), (OpTick 90000000000 True, \<lambda>_. Committed)]"

lemma demo_coordinator_inv: "coord_inv demo_coordinator"
  by code_simp

lemma demo_run_ok: "list_all (\<lambda>(op, raft). coord_op_ok op) demo_run" "list_all (\<lambda>(op, raft). coord_op_ok op \<and> \<not> creates op) demo_run"
  by code_simp+

theorem coordinator_layout_invariant_witness:
  "distinct (cBrokers (coord_run (\<lambda>_. True) demo_coordinator demo_run)) \<and>
    (case FSM_Get (fsm_of (coord_run (\<lambda>_. True) demo_coordinator demo_run)) ''t'' 0 of
       None \<Rightarrow> False | Some ps \<Rightarrow> psPrimary ps \<notin> set (psBackups ps))"
proof -
  have "FSM_Get (fsm_of (coord_run (\<lambda>_. True) demo_coordinator demo_run)) ''t'' 0 \<noteq> None" by code_simp
  then show ?thesis
    using coordinator_layout_invariant [OF demo_coordinator_inv demo_run_ok(1), of "\<lambda>_. True" "''t''" 0] by auto
qed



text \<open>
  The epoch of a partition can fall back to 1: a coordinator that has become Raft leader after another
  one created the topic does not know the topic and creates it again, over an assignment in a later
  epoch, so that the brokers ignore the roles it then assigns.
\<close>

lemma recreated_topic_resets_epoch:
  "\<exists>c req. coord_inv c \<and> \<not> notLeader c \<and> map_option psEpoch (FSM_Get (fsm_of c) (ctTopic req) 0) = Some 2
    \<and> snd (snd (coordinator_CreateTopic (\<lambda>_. Committed) 0 c req)) = Inr ()
    \<and> map_option psEpoch (FSM_Get (fsm_of (fst (coordinator_CreateTopic (\<lambda>_. Committed) 0 c req))) (ctTopic req) 0) = Some 1"
proof -
  let ?c = "(coord_run (\<lambda>_. True) demo_coordinator [hd demo_run])\<lparr>cTopics := []\<rparr>"
  let ?req = "\<lparr>ctTopic = ''t'', ctPartitions = 2, ctReplicationFactor = 1\<rparr>"
  have "coord_inv ?c \<and> \<not> notLeader ?c \<and> map_option psEpoch (FSM_Get (fsm_of ?c) (ctTopic ?req) 0) = Some 2" by code_simp
  moreover have "snd (snd (coordinator_CreateTopic (\<lambda>_. Committed) 0 ?c ?req)) = Inr ()
    \<and> map_option psEpoch (FSM_Get (fsm_of (fst (coordinator_CreateTopic (\<lambda>_. Committed) 0 ?c ?req))) (ctTopic ?req) 0) = Some 1"
    by code_simp
  ultimately show ?thesis by blast
qed

end
