(* ===== verification/Failover.thy ===== *)
theory Failover
  imports Coordinator
begin

text \<open>
  The failover loop of src/internal/coordinator/coordinator.go as a whole: its ticks one after the other, and the
  functions that start and stop it.  The theory of the coordinator has one tick; here it is shown what a
  sequence of ticks achieves.
\<close>

subsection \<open>The loop\<close>

text \<open>A tick comes with the time and with what \<open>IsLeader\<close> answers then.\<close>

definition set_leads :: "bool \<Rightarrow> coordinator \<Rightarrow> coordinator" where
  "set_leads leads c = c\<lparr>cRaft := map_option (\<lambda>n. n\<lparr>rnIsLeader := leads\<rparr>) (cRaft c)\<rparr>"

fun runFailoverLoop :: "(bytes \<Rightarrow> raft_outcome) \<Rightarrow> (int \<times> bool) list \<Rightarrow> bool \<Rightarrow> coordinator \<Rightarrow>
    bool \<times> coordinator \<times> broker_call list" where
  "runFailoverLoop raft [] wasLeader c = (wasLeader, c, [])"
| "runFailoverLoop raft ((now, leads) # ticks) wasLeader c =
     (case runFailoverLoop_tick raft now wasLeader (set_leads leads c) of
        (w, c1, calls) \<Rightarrow> (case runFailoverLoop raft ticks w c1 of (w', c2, calls') \<Rightarrow> (w', c2, calls @ calls')))"

subsection \<open>Starting and stopping\<close>

text \<open>
  The running loops by number, each with its \<open>wasLeader\<close>, and the loop that \<open>failoverCancel\<close> would cancel.
\<close>

record failover_loops =
  flRunning :: "(nat \<times> bool) list"
  flCancel :: "nat option"
  flNext :: nat

definition StartFailoverLoop :: "coordinator \<Rightarrow> failover_loops \<Rightarrow> failover_loops" where
  "StartFailoverLoop c l =
     (if cRaft c = None then l
      else l\<lparr>flRunning := flRunning l @ [(flNext l, False)], flCancel := Some (flNext l), flNext := Suc (flNext l)\<rparr>)"

definition StopFailoverLoop :: "failover_loops \<Rightarrow> failover_loops" where
  "StopFailoverLoop l = l\<lparr>flCancel := None,
     flRunning := (case flCancel l of None \<Rightarrow> flRunning l | Some i \<Rightarrow> filter (\<lambda>(j, w). j \<noteq> i) (flRunning l))\<rparr>"

section \<open>The fold over dead brokers\<close>

text \<open>Every registered broker is filed under its own id, the other way round too, and ids are not shared.\<close>

definition registry_ok :: "coordinator \<Rightarrow> bool" where
  "registry_ok c \<longleftrightarrow> list_all (\<lambda>(a, i). map_get (cBrokerAddrs c) i = Some a) (cBrokerIDs c)
     \<and> list_all (\<lambda>(i, a). map_get (cBrokerIDs c) a = Some i) (cBrokerAddrs c)"

lemma registry_iff: "registry_ok c \<Longrightarrow> map_get (cBrokerIDs c) a = Some i \<longleftrightarrow> map_get (cBrokerAddrs c) i = Some a"
  unfolding registry_ok_def by (auto dest: list_all_get)

text \<open>The assignments are well-formed and their epochs can grow by \<open>k\<close>.\<close>

definition fsm_room :: "nat \<Rightarrow> coordinator \<Rightarrow> bool" where
  "fsm_room k c \<longleftrightarrow> gomap_ok (fsmState (fsm_of c)) \<and>
     list_all (\<lambda>((t, i), ps). assignment_ok t i ps \<and> psEpoch ps + int k < 2 ^ 63) (fsmState (fsm_of c))"

lemma fsm_room_iff:
  "fsm_room k c \<longleftrightarrow> gomap_ok (fsmState (fsm_of c)) \<and>
     (\<forall>t i ps. FSM_Get (fsm_of c) t i = Some ps \<longrightarrow> assignment_ok t i ps \<and> psEpoch ps + int k < 2 ^ 63)"
  by (auto simp: fsm_room_def FSM_Get_def list_all_iff map_get_in_set)

lemma failed_over_frame:
  "set (psPrimary (failed_over now c d t i ps) # psBackups (failed_over now c d t i ps)) = set (psPrimary ps # psBackups ps)"
  using pickNewLeader_in [of now c t i "psBackups ps"] remaining_backups_set [of _ ps]
  by (auto simp: failed_over_def split: option.splits)

lemma failed_over_ok:
  assumes "assignment_ok t i ps" "psEpoch ps + int (Suc k) < 2 ^ 63" "0 < k"
  shows "assignment_ok t i (failed_over now c d t i ps) \<and> psEpoch (failed_over now c d t i ps) + int k < 2 ^ 63"
  using assms pickNewLeader_in [of now c t i "psBackups ps"]
  by (auto simp: failed_over_def assignment_ok_def remaining_backups_def list_all_iff split: option.splits)

lemma failover_broker:
  assumes "\<not> notLeader c" "cRaft c \<noteq> None" "\<And>d. raft d = Committed" "fsm_room (Suc k) c" "0 < k"
    and "map_get (cBrokerAddrs c) i = Some dead" "failOverBrokerPartitions raft now c i = (c', calls)"
  shows "same_registry c c'" "fsm_room k c'" "FSM_Get (fsm_of c') t j = map_option (failed_over now c dead t j) (FSM_Get (fsm_of c) t j)"
proof -
  have run: "failover_topics raft now dead c (AllTopics (fsm_of c)) = (c', calls)"
    using assms(2,6,7) by (auto simp: failOverBrokerPartitions_def)
  have ok: "distinct (AllTopics (fsm_of c))" "gomap_ok (fsmState (fsm_of c))"
    using assms(4) by (simp_all add: fsm_room_iff AllTopics_def)
  have "assignment_ok u l ps" if "FSM_Get (fsm_of c) u l = Some ps" for u l ps using assms(4) that by (simp add: fsm_room_iff)
  note ex = failover_topics_exact [where raft = raft, OF assms(1-3) ok this run]
  have get: "FSM_Get (fsm_of c') u l = map_option (failed_over now c dead u l) (FSM_Get (fsm_of c) u l)" for u l
    using ex AllTopics_iff [of u "fsm_of c"] by (cases "FSM_Get (fsm_of c) u l") auto
  show "same_registry c c'" using ex by blast
  show "FSM_Get (fsm_of c') t j = map_option (failed_over now c dead t j) (FSM_Get (fsm_of c) t j)" by (rule get)
  show "fsm_room k c'" unfolding fsm_room_iff
    using ex get assms(4) failed_over_ok [OF _ _ assms(5)] by (auto simp: fsm_room_iff)
qed

text \<open>What the failover of broker \<open>i\<close> does to one assignment, and the failover of a list of brokers.\<close>

definition over :: "int \<Rightarrow> coordinator \<Rightarrow> string \<Rightarrow> int \<Rightarrow> int \<Rightarrow> partition_state \<Rightarrow> partition_state" where
  "over now c t j i ps = (case map_get (cBrokerAddrs c) i of None \<Rightarrow> ps | Some a \<Rightarrow> failed_over now c a t j ps)"

lemma over_registry: "same_registry c c' \<Longrightarrow> over now c' t j = over now c t j"
  using failed_over_registry [of c c' now] by (intro ext) (simp add: over_def same_registry_def split: option.split)

lemma fsm_room_less: "fsm_room (Suc k) c \<Longrightarrow> fsm_room k c"
  by (fastforce simp: fsm_room_iff)

lemma failover_fold:
  assumes "\<not> notLeader c" "cRaft c \<noteq> None" "\<And>d. raft d = Committed" "fsm_room (Suc (length ids)) c"
    and "fold (\<lambda>i (c, calls). let (c', calls') = failOverBrokerPartitions raft now c i in (c', calls @ calls')) ids (c, calls) = (c', calls')"
  shows "same_registry c c' \<and> FSM_Get (fsm_of c') t j = map_option (fold (over now c t j) ids) (FSM_Get (fsm_of c) t j)"
  using assms(1,2,4,5)
proof (induction ids arbitrary: c calls)
  case (Cons i ids)
  obtain c1 calls1 where c1: "failOverBrokerPartitions raft now c i = (c1, calls1)" by force
  have run: "fold (\<lambda>i (c, calls). let (c', calls') = failOverBrokerPartitions raft now c i in (c', calls @ calls')) ids (c1, calls @ calls1) = (c', calls')"
    using Cons.prems(4) c1 by simp
  have step: "same_registry c c1 \<and> fsm_room (Suc (length ids)) c1 \<and> FSM_Get (fsm_of c1) t j = map_option (over now c t j i) (FSM_Get (fsm_of c) t j)"
  proof (cases "map_get (cBrokerAddrs c) i")
    case None
    then have "c1 = c" using c1 by (simp add: failOverBrokerPartitions_def)
    then show ?thesis using None Cons.prems(3) fsm_room_less by (simp add: over_def [abs_def] option.map_ident)
  next
    case (Some a)
    then show ?thesis
      using failover_broker [where raft = raft, OF Cons.prems(1,2) assms(3) _ _ Some c1] Cons.prems(3) by (simp add: over_def [abs_def])
  qed
  then have "\<not> notLeader c1" "cRaft c1 \<noteq> None" using Cons.prems(1,2) by (auto simp: same_registry_def)
  from Cons.IH [OF this _ run] step have IH: "same_registry c1 c'"
    "FSM_Get (fsm_of c') t j = map_option (fold (over now c1 t j) ids) (FSM_Get (fsm_of c1) t j)" by auto
  show ?case
    using IH step over_registry [of c c1 now t j] same_registry_trans [of c c1 c'] by (auto simp: option.map_comp comp_def)
qed (simp add: option.map_id0 id_def [symmetric] option.map_id)

text \<open>
  The partition after the failover of a list of dead brokers: same replicas, a live primary stays, and
  a primary of the list is replaced unless no replica is live.
\<close>

definition replicas :: "partition_state \<Rightarrow> string set" where
  "replicas ps = set (psPrimary ps # psBackups ps)"

lemma over_same: "map_get (cBrokerAddrs c) k \<noteq> Some (psPrimary ps) \<Longrightarrow> over now c t j k ps = ps"
  by (auto simp: over_def failed_over_def split: option.splits)

lemma over_replicas: "replicas (fold (over now c t j) ids ps) = replicas ps"
proof (induction ids arbitrary: ps)
  case (Cons k ids)
  have "replicas (over now c t j k ps) = replicas ps"
    using failed_over_frame by (simp add: over_def replicas_def split: option.split)
  then show ?case using Cons.IH by simp
qed simp

definition all_dead :: "int \<Rightarrow> coordinator \<Rightarrow> int list \<Rightarrow> bool" where
  "all_dead now c ids \<longleftrightarrow> (\<forall>i \<in> set ids. \<forall>a. map_get (cBrokerAddrs c) i = Some a \<longrightarrow> \<not> live_backup now c a)"

lemma over_live:
  assumes "all_dead now c ids"
    and "live_backup now c (psPrimary ps)"
  shows "fold (over now c t j) ids ps = ps"
  using assms
proof (induction ids)
  case (Cons k ids)
  then have "over now c t j k ps = ps" by (intro over_same) (auto simp: all_dead_def)
  then show ?case using Cons by (simp add: all_dead_def)
qed simp

lemma over_dead:
  assumes "list_all (\<lambda>(k, leo). 0 \<le> leo) (cBrokerLEO c)" "map_get (cBrokerIDs c) '''' = None"
    and "all_dead now c ids"
    and "i \<in> set ids" "map_get (cBrokerAddrs c) i = Some (psPrimary ps)"
  shows "live_backup now c (psPrimary (fold (over now c t j) ids ps)) \<or> (\<forall>b \<in> replicas ps. \<not> live_backup now c b)"
  using assms(3-)
proof (induction ids arbitrary: ps)
  case (Cons k ids)
  show ?case
  proof (cases "map_get (cBrokerAddrs c) k = Some (psPrimary ps)")
    case True
    show ?thesis
    proof (cases "pickNewLeader now c t j (psBackups ps)")
      case None
      then show ?thesis
        using pickNewLeader_choice [OF assms(1,2), where now = now and topic = t and part = j and backups = "psBackups ps"]
          Cons.prems True by (auto simp: replicas_def all_dead_def)
    next
      case (Some a)
      then have "psPrimary (over now c t j k ps) = a" using True by (simp add: over_def failed_over_def)
      moreover have "live_backup now c a" using pickNewLeader_in [OF Some] by simp
      ultimately show ?thesis using over_live [of now c ids "over now c t j k ps" t j] Cons.prems(1) by (simp add: all_dead_def)
    qed
  next
    case False
    then show ?thesis using Cons.IH [of ps] over_same [OF False] Cons.prems False by (auto simp: all_dead_def)
  qed
qed simp

text \<open>The dead brokers of a tick are not live, and a registered broker that is not live is among them.\<close>

lemma dead_brokers_dead: "registry_ok c \<Longrightarrow> gomap_ok (cLastSeen c) \<Longrightarrow> all_dead now c (dead_brokers now c)"
  by (auto simp: all_dead_def dead_brokers_def live_backup_def registry_iff [symmetric] map_get_in_set [symmetric]
      split: option.splits)

lemma dead_brokers_complete:
  assumes "registry_ok c" "map_get (cBrokerIDs c) a = Some i" "\<not> live_backup now c a"
  shows "i \<in> set (dead_brokers now c)"
proof -
  have addr: "map_get (cBrokerAddrs c) i = Some a" using assms(1,2) by (simp add: registry_iff)
  then have "i \<in> set (go_keys (cBrokerAddrs c))" by (metis domI dom_map_of_conv_image_fst image_set)
  then show ?thesis
    using assms(2,3) by (force simp: dead_brokers_def live_backup_def split: option.splits dest: map_of_SomeD)
qed

text \<open>What a tick owes to every partition: led by a live broker, or by one not registered, or no replica is live.\<close>

definition leader_restored :: "int \<Rightarrow> coordinator \<Rightarrow> partition_state \<Rightarrow> partition_state \<Rightarrow> bool" where
  "leader_restored now c ps ps' \<longleftrightarrow> replicas ps' = replicas ps
     \<and> (live_backup now c (psPrimary ps) \<longrightarrow> ps' = ps)
     \<and> (map_get (cBrokerIDs c) (psPrimary ps) \<noteq> None \<longrightarrow>
          live_backup now c (psPrimary ps') \<or> (\<forall>b \<in> replicas ps. \<not> live_backup now c b))"

lemma tick_restores:
  assumes "\<not> notLeader c" "cRaft c \<noteq> None" "\<And>d. raft d = Committed" "cGrace c \<le> now - cLeaderSince c"
    and "fsm_room (Suc (length (dead_brokers now c))) c" "registry_ok c" "gomap_ok (cLastSeen c)"
    and "list_all (\<lambda>(k, leo). 0 \<le> leo) (cBrokerLEO c)" "map_get (cBrokerIDs c) '''' = None"
    and "FSM_Get (fsm_of c) t j = Some ps" "runFailoverLoop_tick raft now True c = (w, c', calls)"
  shows "w \<and> (\<exists>ps'. FSM_Get (fsm_of c') t j = Some ps' \<and> leader_restored now c ps ps')"
proof -
  let ?ids = "dead_brokers now c"
  obtain c1 calls1 where run: "fold (\<lambda>i (c, calls). let (c', calls') = failOverBrokerPartitions raft now c i in (c', calls @ calls')) ?ids (c, []) = (c1, calls1)"
    by force
  have c': "w" "c' = c1" using assms(1,2,4,11) run by (auto simp: runFailoverLoop_tick_def)
  have "FSM_Get (fsm_of c1) t j = Some (fold (over now c t j) ?ids ps)"
    using failover_fold [where raft = raft, OF assms(1-3,5) run, of t j] assms(10) by simp
  moreover have "leader_restored now c ps (fold (over now c t j) ?ids ps)"
    unfolding leader_restored_def
    using over_replicas over_live [OF dead_brokers_dead [OF assms(6,7)]] over_dead [OF assms(8,9) dead_brokers_dead [OF assms(6,7)]]
      dead_brokers_complete [OF assms(6)] registry_iff [OF assms(6)]
    by (metis not_None_eq)
  ultimately show ?thesis using c' by blast
qed

section \<open>The loop restores the leaders\<close>

lemma set_leads_same: "cRaft c \<noteq> None \<Longrightarrow> \<not> notLeader c \<Longrightarrow> set_leads True c = c"
  by (auto simp: set_leads_def notLeader_def)

text \<open>Inside the grace window after the first tick as leader, and while another node leads, no broker is called.\<close>

lemma loop_grace:
  assumes "cRaft c \<noteq> None" "\<not> notLeader c" "list_all (\<lambda>t. t - cLeaderSince c < cGrace c) mid"
  shows "runFailoverLoop raft (map (\<lambda>t. (t, True)) mid @ rest) True c = runFailoverLoop raft rest True c"
  using assms(3)
  by (induction mid) (simp_all add: set_leads_same assms runFailoverLoop_tick_def split: prod.split)

lemma tick_follower: "runFailoverLoop_tick raft now w (set_leads False c) = (False, set_leads False c, [])"
  by (auto simp: runFailoverLoop_tick_def set_leads_def notLeader_def split: option.split)

lemma set_leads_again [simp]: "set_leads b (set_leads b' c) = set_leads b c"
  by (simp add: set_leads_def option.map_comp comp_def)

lemma loop_follower:
  "runFailoverLoop raft (map (\<lambda>t. (t, False)) (t # mid)) w c = (False, set_leads False c, [])"
  by (induction mid arbitrary: t c w) (simp_all add: tick_follower)



section \<open>Starting and stopping the loop\<close>

lemma StopFailoverLoop_again: "StopFailoverLoop (StopFailoverLoop l) = StopFailoverLoop l"
  by (simp add: StopFailoverLoop_def)

text \<open>
  One loop is started and stopped cleanly.  A second start overwrites the cancel function of the first, whose
  loop keeps running after the stop.
\<close>

definition no_loops :: failover_loops where
  "no_loops = \<lparr>flRunning = [], flCancel = None, flNext = 0\<rparr>"

lemma StartFailoverLoop_stop:
  assumes "list_all (\<lambda>(j, w). j < flNext l) (flRunning l)"
  shows "flRunning (StopFailoverLoop (StartFailoverLoop c l)) = (if cRaft c = None then flRunning (StopFailoverLoop l) else flRunning l)"
  using assms by (auto simp: StartFailoverLoop_def StopFailoverLoop_def list_all_iff intro: filter_True)

lemma StartFailoverLoop_twice:
  assumes "cRaft c \<noteq> None"
  shows "flRunning (StopFailoverLoop (StartFailoverLoop c (StartFailoverLoop c no_loops))) = [(0, False)]"
  using assms by (simp add: StartFailoverLoop_def StopFailoverLoop_def no_loops_def)

text \<open>
  A broker that comes back at another address under its old id: the id is filed under the new address, so
  that the failover of the id leaves the partitions of the old address alone, and as long as the
  id is heard of, the old address counts as live.
\<close>

lemma reused_id_hides_old_address:
  assumes "rgAddr req \<noteq> ''''" "rgAddr req \<notin> set (cBrokers c)" "map_get (cBrokerIDs c) old = Some (rgId req)" "old \<in> set (cBrokers c)"
    and "psPrimary ps = old" "RegisterBroker dial c req = (c1, r)"
  shows "over now c1 t j (rgId req) ps = ps"
    and "map_get (cLastSeen c) (rgId req) = Some ts \<Longrightarrow> now - ts \<le> cDeadAfter c \<Longrightarrow> live_backup now c1 old"
proof -
  have "old \<noteq> rgAddr req" using assms(2,4) by blast
  then show "over now c1 t j (rgId req) ps = ps"
    and "map_get (cLastSeen c) (rgId req) = Some ts \<Longrightarrow> now - ts \<le> cDeadAfter c \<Longrightarrow> live_backup now c1 old"
    using assms by (auto simp: RegisterBroker_def Let_def over_def failed_over_def live_backup_def
        map_get_put split: if_splits option.splits)
qed

text \<open>
  The choice of the new leader does not look at the in-sync replicas that \<open>AlterIsr\<close> recorded: with the second broker
  alone in sync and live, the third, which only reported a longer log, is promoted.  The reported log ends are as
  old as the last heartbeats, so the longer log need not hold what the leader has committed since.
\<close>

definition demo_isr :: coordinator where
  "demo_isr = fst (AlterIsr (\<lambda>_. Committed) demo_coordinator \<lparr>aiTopic = ''t'', aiPartition = 0, aiEpoch = 1, aiIsrIds = [2]\<rparr>)"

lemma failover_ignores_isr:
  "live_backup 20000000000 demo_isr ''b:1'' \<and> map_get (cBrokerIDs demo_isr) ''b:1'' = Some 2
    \<and> map_option psISR (FSM_Get (fsm_of demo_isr) ''t'' 0) = Some [2]
    \<and> map_option psPrimary (FSM_Get (fsm_of (fst (failOverBrokerPartitions (\<lambda>_. Committed) 20000000000 demo_isr 1))) ''t'' 0) = Some ''c:1''
    \<and> map_get (cBrokerIDs demo_isr) ''c:1'' = Some 3"
  by code_simp

end
