(* ===== verification/Heartbeats.thy ===== *)
theory Heartbeats
  imports Failover
begin

text \<open>
  The heartbeat loop of a broker (src/internal/broker/broker.go, \<open>HeartbeatLoop\<close>) joined to the coordinators that
  receive the heartbeats (src/internal/coordinator/coordinator.go, \<open>Heartbeat\<close> and \<open>RegisterBroker\<close>).  The coordinators are a function
  from addresses; a tick comes with the time, the coordinators that can be reached and those that lead.
\<close>

type_synonym coordinators = "string \<Rightarrow> coordinator"
type_synonym tick = "int \<times> (string \<Rightarrow> bool) \<times> (string \<Rightarrow> bool)"

subsection \<open>One round\<close>

definition answers :: "int \<Rightarrow> (string \<Rightarrow> bool) \<Rightarrow> coordinators \<Rightarrow> string \<Rightarrow> heartbeat_request \<Rightarrow> bool" where
  "answers now up coords peer req \<longleftrightarrow> up peer \<and> snd (snd (Heartbeat now (coords peer) req)) = Inr ()"

definition deliver_call :: "(string \<Rightarrow> bool) \<Rightarrow> int \<Rightarrow> (string \<Rightarrow> bool) \<Rightarrow> coord_call \<Rightarrow> coordinators \<Rightarrow> coordinators" where
  "deliver_call coordDial now up call coords = (case call of
      CallHeartbeat p req \<Rightarrow> if up p then coords(p := fst (Heartbeat now (coords p) req)) else coords
    | CallRegisterBroker p addr i \<Rightarrow> if up p then coords(p := fst (RegisterBroker coordDial (coords p) \<lparr>rgAddr = addr, rgId = i\<rparr>)) else coords
    | _ \<Rightarrow> coords)"

fun heartbeat_tick :: "(string \<Rightarrow> bool) \<Rightarrow> (string \<Rightarrow> bool) \<Rightarrow> tick \<Rightarrow> broker \<times> coordinators \<Rightarrow> broker \<times> coordinators" where
  "heartbeat_tick dial coordDial (now, up, leads) (b, coords) =
     (let coords1 = (\<lambda>p. set_leads (leads p) (coords p));
          (b', calls) = sendHeartbeat dial (answers now up coords1) b
      in (b', fold (deliver_call coordDial now up) calls coords1))"

definition HeartbeatLoop_interval :: "int \<Rightarrow> int" where
  "HeartbeatLoop_interval interval = (if interval \<le> 0 then 2 * second else interval)"

definition HeartbeatLoop :: "(string \<Rightarrow> bool) \<Rightarrow> (string \<Rightarrow> bool) \<Rightarrow> tick list \<Rightarrow> broker \<times> coordinators \<Rightarrow> broker \<times> coordinators" where
  "HeartbeatLoop dial coordDial ticks w = fold (heartbeat_tick dial coordDial) ticks w"

text \<open>
  What the loop relies on and keeps: a coordinator that lists the broker files it under its id, and the
  one the broker is connected to lists it.
\<close>

definition heartbeat_ok :: "broker \<times> coordinators \<Rightarrow> bool" where
  "heartbeat_ok w = (case w of (b, coords) \<Rightarrow> bSelfAddr b \<noteq> ''''
     \<and> (\<forall>p. bSelfAddr b \<in> set (cBrokers (coords p)) \<longrightarrow> map_get (cBrokerIDs (coords p)) (bSelfAddr b) = Some (bId b))
     \<and> (\<forall>p. gomap_ok (cLastSeen (coords p)))
     \<and> (case bCoordClient b of None \<Rightarrow> False | Some c \<Rightarrow> bSelfAddr b \<in> set (cBrokers (coords c))))"

section \<open>Lemmas\<close>

lemma Heartbeat_effect:
  "snd (snd (Heartbeat now c req)) = Inr () \<longleftrightarrow> \<not> notLeader c"
  "notLeader c \<Longrightarrow> fst (Heartbeat now c req) = c"
  "\<not> notLeader c \<Longrightarrow> map_get (cLastSeen (fst (Heartbeat now c req))) (hbBrokerId req) = Some now"
  "cBrokers (fst (Heartbeat now c req)) = cBrokers c" "cBrokerIDs (fst (Heartbeat now c req)) = cBrokerIDs c"
  "cDeadAfter (fst (Heartbeat now c req)) = cDeadAfter c" "cRaft (fst (Heartbeat now c req)) = cRaft c"
  "gomap_ok (cLastSeen c) \<Longrightarrow> gomap_ok (cLastSeen (fst (Heartbeat now c req)))"
  by (simp_all add: Heartbeat_def Let_def go_map)

lemma RegisterBroker_keeps:
  "cLastSeen (fst (RegisterBroker d c req)) = cLastSeen c" "cDeadAfter (fst (RegisterBroker d c req)) = cDeadAfter c"
  "cRaft (fst (RegisterBroker d c req)) = cRaft c"
  by (simp_all add: RegisterBroker_def Let_def)

lemma set_leads_keeps [simp]:
  "cBrokers (set_leads l c) = cBrokers c" "cBrokerIDs (set_leads l c) = cBrokerIDs c" "cLastSeen (set_leads l c) = cLastSeen c"
  "cDeadAfter (set_leads l c) = cDeadAfter c"
  by (simp_all add: set_leads_def)

text \<open>Failed heartbeats leave no trace; the search ends at the first peer that answers.\<close>

lemma deliver_unanswered:
  "\<not> answers now up coords p req \<Longrightarrow> deliver_call d now up (CallHeartbeat p req) coords = coords"
  by (auto simp: answers_def deliver_call_def Heartbeat_effect fun_upd_idem)

lemma reconnect_effect:
  assumes "reconnect_loop dial (answers now up coords) req peers = (r, calls)"
  shows "r = find (\<lambda>p. dial p \<and> answers now up coords p req) peers
    \<and> fold (deliver_call d now up) calls coords = (case r of None \<Rightarrow> coords | Some p \<Rightarrow> coords(p := fst (Heartbeat now (coords p) req)))"
  using assms
proof (induction peers arbitrary: calls)
  case (Cons p peers)
  show ?case
  proof (cases "dial p \<and> answers now up coords p req")
    case True
    then show ?thesis using Cons.prems by (auto simp: answers_def deliver_call_def)
  next
    case False
    then show ?thesis using Cons deliver_unanswered by (auto split: if_splits prod.splits)
  qed
qed auto

text \<open>A tick: the broker and the coordinator that heard of it, if any did.\<close>

lemma heartbeat_tick_cases:
  assumes "bCoordClient b = Some c" "heartbeat_tick dial d (now, up, leads) (b, coords) = (b', coords')"
  defines "coords1 \<equiv> (\<lambda>p. set_leads (leads p) (coords p))"
  obtains
    (direct) "answers now up coords1 c (heartbeat_of b)" "b' = b" "coords' = coords1(c := fst (Heartbeat now (coords1 c) (heartbeat_of b)))"
  | (lost) "\<not> answers now up coords1 c (heartbeat_of b)" "\<not> (\<exists>p \<in> set (bCoordPeers b). dial p \<and> answers now up coords1 p (heartbeat_of b))"
      "b' = b" "coords' = coords1"
  | (found) p where "answers now up coords1 p (heartbeat_of b)" "b' = b\<lparr>bCoordConn := Some p, bCoordClient := Some p\<rparr>"
      "coords' = coords1(p := fst (RegisterBroker d (fst (Heartbeat now (coords1 p) (heartbeat_of b))) \<lparr>rgAddr = bSelfAddr b, rgId = bId b\<rparr>))"
proof (cases "answers now up coords1 c (heartbeat_of b)")
  case True
  then show thesis
    using direct assms by (auto simp: sendHeartbeat_def coordClientSafe_def Let_def deliver_call_def answers_def)
next
  case False
  obtain r calls where loop: "reconnect_loop dial (answers now up coords1) (heartbeat_of b) (bCoordPeers b) = (r, calls)" by force
  note eff = reconnect_effect [OF loop, of d]
  have step: "b' = fst (reconnectCoordinator dial (answers now up coords1) b)"
    "coords' = fold (deliver_call d now up) (snd (reconnectCoordinator dial (answers now up coords1) b)) coords1"
    using assms(1,2) False deliver_unanswered [OF False]
    by (auto simp: sendHeartbeat_def coordClientSafe_def Let_def coords1_def [symmetric] split: prod.splits)
  show thesis
  proof (cases r)
    case None
    then have "reconnectCoordinator dial (answers now up coords1) b = (b, calls)" using loop by (simp add: reconnectCoordinator_def)
    then show thesis
      using lost [OF False] eff step None find_None_iff [of "\<lambda>p. dial p \<and> answers now up coords1 p (heartbeat_of b)" "bCoordPeers b"] by auto
  next
    case (Some p)
    then have p: "answers now up coords1 p (heartbeat_of b)" using eff find_Some_iff [of "\<lambda>p. dial p \<and> answers now up coords1 p (heartbeat_of b)"] by auto
    have "reconnectCoordinator dial (answers now up coords1) b =
        (b\<lparr>bCoordConn := Some p, bCoordClient := Some p\<rparr>, calls @ [CallRegisterBroker p (bSelfAddr b) (bId b)])"
      using loop Some by (simp add: reconnectCoordinator_def)
    moreover have "fold (deliver_call d now up) calls coords1 = coords1(p := fst (Heartbeat now (coords1 p) (heartbeat_of b)))"
      using eff Some by simp
    moreover have "up p" using p by (simp add: answers_def)
    ultimately show thesis using found [OF p] step by (simp add: deliver_call_def)
  qed
qed

lemma RegisterBroker_known:
  assumes "a \<noteq> ''''" "a \<in> set (cBrokers c) \<longrightarrow> map_get (cBrokerIDs c) a = Some i"
  shows "a \<in> set (cBrokers (fst (RegisterBroker d c \<lparr>rgAddr = a, rgId = i\<rparr>)))"
    "map_get (cBrokerIDs (fst (RegisterBroker d c \<lparr>rgAddr = a, rgId = i\<rparr>))) a = Some i"
  using assms by (auto simp: RegisterBroker_def Let_def go_map)

lemma heartbeat_tick_ok:
  assumes "heartbeat_ok (b, coords)" "heartbeat_tick dial d (now, up, leads) (b, coords) = (b', coords')"
  shows "heartbeat_ok (b', coords') \<and> bSelfAddr b' = bSelfAddr b \<and> bId b' = bId b \<and> bCoordPeers b' = bCoordPeers b
    \<and> ((\<exists>p \<in> set (bCoordPeers b). dial p \<and> up p \<and> leads p) \<longrightarrow>
      (\<exists>p. bCoordClient b' = Some p \<and> up p \<and> \<not> notLeader (coords' p) \<and> map_get (cLastSeen (coords' p)) (bId b) = Some now))"
proof -
  let ?coords = "\<lambda>p. set_leads (leads p) (coords p)"
  let ?hb = "\<lambda>p. fst (Heartbeat now (?coords p) (heartbeat_of b))"
  obtain c where c: "bCoordClient b = Some c" using assms(1) by (auto simp: heartbeat_ok_def split: option.splits)
  have ok: "bSelfAddr b \<noteq> ''''" "bSelfAddr b \<in> set (cBrokers (coords c))"
    "\<And>p. bSelfAddr b \<in> set (cBrokers (coords p)) \<longrightarrow> map_get (cBrokerIDs (coords p)) (bSelfAddr b) = Some (bId b)"
    "\<And>p. gomap_ok (cLastSeen (coords p))" using assms(1) c by (auto simp: heartbeat_ok_def)
  have ans: "answers now up ?coords p (heartbeat_of b) \<longleftrightarrow> up p \<and> \<not> notLeader (?coords p)" for p
    by (simp add: answers_def Heartbeat_effect(1))
  have hb: "map_get (cLastSeen (?hb p)) (bId b) = Some now" "\<not> notLeader (?hb p)" if "\<not> notLeader (?coords p)" for p
    using that Heartbeat_effect(3) [OF that, of now "heartbeat_of b"] by (simp_all add: heartbeat_of_def notLeader_def Heartbeat_effect(7))
  have keep: "cBrokers (?hb p) = cBrokers (coords p)" "cBrokerIDs (?hb p) = cBrokerIDs (coords p)" "gomap_ok (cLastSeen (?hb p))" for p
    using ok(4) by (simp_all add: Heartbeat_effect)
  from c assms(2) show ?thesis
  proof (cases rule: heartbeat_tick_cases)
    case direct
    then show ?thesis using ok c ans [of c] hb [of c] keep by (simp add: heartbeat_ok_def)
  next
    case lost
    have "\<not> notLeader (?coords p)" if "leads p" for p using that by (auto simp: notLeader_def set_leads_def split: option.split)
    then show ?thesis using lost ok c ans by (auto simp: heartbeat_ok_def)
  next
    case (found p)
    let ?req = "\<lparr>rgAddr = bSelfAddr b, rgId = bId b\<rparr>"
    have known: "bSelfAddr b \<in> set (cBrokers (fst (RegisterBroker d (?hb p) ?req)))"
      "map_get (cBrokerIDs (fst (RegisterBroker d (?hb p) ?req))) (bSelfAddr b) = Some (bId b)"
      using RegisterBroker_known [OF ok(1), of "?hb p" "bId b" d] ok(3) [of p] keep by simp_all
    have "notLeader (fst (RegisterBroker d (?hb p) ?req)) = notLeader (?hb p)" by (simp add: notLeader_def RegisterBroker_keeps)
    then show ?thesis using found(1) ok ans [of p] hb [of p] keep known by (simp add: found(2,3) heartbeat_ok_def RegisterBroker_keeps)
  qed
qed

lemma HeartbeatLoop_ok:
  assumes "heartbeat_ok (b, coords)" "HeartbeatLoop dial d ticks (b, coords) = (b', coords')"
  shows "heartbeat_ok (b', coords') \<and> bSelfAddr b' = bSelfAddr b \<and> bId b' = bId b \<and> bCoordPeers b' = bCoordPeers b"
  using assms
proof (induction ticks arbitrary: b coords)
  case (Cons t ticks)
  obtain now up leads where t: "t = (now, up, leads)" by (cases t)
  obtain b1 coords1 where w: "heartbeat_tick dial d (now, up, leads) (b, coords) = (b1, coords1)" by (cases "heartbeat_tick dial d (now, up, leads) (b, coords)")
  have "HeartbeatLoop dial d ticks (b1, coords1) = (b', coords')" using Cons.prems(2) t w by (simp add: HeartbeatLoop_def)
  then show ?case using Cons.IH [of b1 coords1] heartbeat_tick_ok [OF Cons.prems(1) w] by simp
qed (simp add: HeartbeatLoop_def)

section \<open>Properties\<close>

text \<open>
  A broker that keeps sending heartbeats is never declared dead.  Whatever coordinators were down or led before, after a
  tick at which some reachable coordinator of its list leads, the broker is connected to a leading
  coordinator that has heard of it at that time, lists it as live and would not fail it over
  for the whole time \<open>deadAfter\<close> that follows.
\<close>

lemma heartbeats_keep_broker_live:
  assumes "heartbeat_ok (b, coords)" "HeartbeatLoop dial d (ticks @ [(now, up, leads)]) (b, coords) = (b', coords')"
    and "p0 \<in> set (bCoordPeers b)" "dial p0" "up p0" "leads p0"
  shows "\<exists>p. bCoordClient b' = Some p \<and> up p \<and> \<not> notLeader (coords' p)
    \<and> (\<forall>t. t - now \<le> cDeadAfter (coords' p) \<longrightarrow>
        live_backup t (coords' p) (bSelfAddr b) \<and> bId b \<notin> set (dead_brokers t (coords' p)))"
proof -
  obtain b1 coords1 where w: "HeartbeatLoop dial d ticks (b, coords) = (b1, coords1)" by (cases "HeartbeatLoop dial d ticks (b, coords)")
  note ok1 = HeartbeatLoop_ok [OF assms(1) w]
  have tick: "heartbeat_tick dial d (now, up, leads) (b1, coords1) = (b', coords')" using assms(2) w by (simp add: HeartbeatLoop_def)
  obtain p where p: "bCoordClient b' = Some p" "up p" "\<not> notLeader (coords' p)" "map_get (cLastSeen (coords' p)) (bId b) = Some now"
    using heartbeat_tick_ok [OF conjunct1 [OF ok1] tick] ok1 assms(3-6) by auto
  have known: "map_get (cBrokerIDs (coords' p)) (bSelfAddr b) = Some (bId b)" "gomap_ok (cLastSeen (coords' p))"
    using heartbeat_tick_ok [OF conjunct1 [OF ok1] tick] ok1 p(1) by (auto simp: heartbeat_ok_def)
  then show ?thesis
    using p by (intro exI [of _ p]) (auto simp: live_backup_def dead_brokers_def map_get_in_set [OF known(2), symmetric])
qed

definition demo_peers :: "broker \<times> coordinators" where
  "demo_peers = (demo_broker\<lparr>bSelfAddr := ''b:1'', bId := 2, bCoordClient := Some ''c1'', bCoordPeers := [''c1'', ''c2'']\<rparr>, \<lambda>_. demo_registered)"

lemma demo_peers_ok: "heartbeat_ok demo_peers"
proof -
  have "''b:1'' \<in> set (cBrokers demo_registered)" "map_get (cBrokerIDs demo_registered) ''b:1'' = Some 2" "gomap_ok (cLastSeen demo_registered)"
    by code_simp+
  then show ?thesis by (simp add: heartbeat_ok_def demo_peers_def)
qed

lemma heartbeats_keep_broker_live_witness:
  "\<exists>b' coords' p. HeartbeatLoop (\<lambda>_. True) (\<lambda>_. True) ([(1, \<lambda>_. False, \<lambda>_. False)] @ [(2, \<lambda>_. True, \<lambda>p. p = ''c2'')]) demo_peers = (b', coords')
    \<and> bCoordClient b' = Some p \<and> \<not> notLeader (coords' p) \<and> live_backup (2 + cDeadAfter (coords' p)) (coords' p) ''b:1''"
proof -
  obtain b' coords' where w: "HeartbeatLoop (\<lambda>_. True) (\<lambda>_. True) ([(1, \<lambda>_. False, \<lambda>_. False)] @ [(2, \<lambda>_. True, \<lambda>p. p = ''c2'')]) demo_peers = (b', coords')"
    by force
  have "''c2'' \<in> set (bCoordPeers (fst demo_peers))" "bSelfAddr (fst demo_peers) = ''b:1''" by (simp_all add: demo_peers_def)
  with heartbeats_keep_broker_live [of "fst demo_peers" "snd demo_peers" "\<lambda>_. True" "\<lambda>_. True" "[(1, \<lambda>_. False, \<lambda>_. False)]" 2 "\<lambda>_. True" "\<lambda>p. p = ''c2''" b' coords' "''c2''"]
  obtain p where p: "bCoordClient b' = Some p" "\<not> notLeader (coords' p)"
    "\<And>t. t - 2 \<le> cDeadAfter (coords' p) \<Longrightarrow> live_backup t (coords' p) ''b:1''" using demo_peers_ok w by auto
  then show ?thesis
    using w by (intro exI [of _ b'] exI [of _ coords'] exI [of _ p] conjI) auto
qed

text \<open>
  A heartbeat that succeeds does not register the broker.  A coordinator that restarted, or that was down when the
  broker registered, and that is the one the broker is connected to, hears of the broker with every tick and
  never lists it: it does not count as live there and gets no partitions.
\<close>

lemma heartbeat_never_registers:
  assumes "bCoordClient b = Some c" "map_get (cBrokerIDs (coords c)) (bSelfAddr b) = None"
    and "list_all (\<lambda>(now, up, leads). up c \<and> leads c) ticks" "HeartbeatLoop dial d ticks (b, coords) = (b', coords')"
  shows "b' = b \<and> cBrokers (coords' c) = cBrokers (coords c) \<and> \<not> live_backup t (coords' c) (bSelfAddr b)"
proof -
  have "b' = b \<and> cBrokers (coords' c) = cBrokers (coords c) \<and> cBrokerIDs (coords' c) = cBrokerIDs (coords c)"
    using assms(1,3,4)
  proof (induction ticks arbitrary: coords)
    case (Cons tk ticks)
    obtain now up leads where tk: "tk = (now, up, leads)" "up c" "leads c" using Cons.prems(2) by (cases tk) auto
    let ?coords = "\<lambda>p. set_leads (leads p) (coords p)"
    have "\<not> notLeader (?coords c)" using tk(3) by (auto simp: notLeader_def set_leads_def split: option.split)
    then have "answers now up ?coords c (heartbeat_of b)" using tk(2) by (simp add: answers_def Heartbeat_effect)
    moreover define coords2 where "coords2 = ?coords(c := fst (Heartbeat now (?coords c) (heartbeat_of b)))"
    ultimately have "heartbeat_tick dial d tk (b, coords) = (b, coords2)"
      using Cons.prems(1) tk(1,2) by (simp add: sendHeartbeat_def coordClientSafe_def Let_def deliver_call_def)
    moreover have "cBrokers (coords2 c) = cBrokers (coords c)" "cBrokerIDs (coords2 c) = cBrokerIDs (coords c)" by (simp_all add: coords2_def Heartbeat_effect)
    ultimately show ?case using Cons.IH [of "coords2"] Cons.prems by (simp add: HeartbeatLoop_def)
  qed (simp add: HeartbeatLoop_def)
  then show ?thesis using assms(2) by (simp add: live_backup_def)
qed

end
