(* ===== verification/Processes.thy ===== *)
theory Processes
  imports Commands Heartbeats
begin

text \<open>
  The processes from their start to the running servers: the construction of a Raft node
  (src/internal/raft/node.go), \<open>Serve\<close> of the coordinator and of the broker, and the two \<open>main\<close> functions
  (src/cmd/coordinator/main.go, src/cmd/broker/main.go).  Every call into the Raft library, the file system and the network is an
  argument that says whether it succeeds; what a failed start has opened by then is part of the result.
\<close>

subsection \<open>The Raft node\<close>

datatype raft_state = RaftFollower | RaftCandidate | RaftLeader | RaftShutdown

record raft_library =
  rlMkdirAll :: "string \<Rightarrow> unit result"
  rlNewBoltStore :: "string \<Rightarrow> unit result"
  rlNewFileSnapshotStore :: "string \<Rightarrow> unit result"
  rlNewTCPTransport :: "string \<Rightarrow> unit result"
  rlNewRaft :: "string \<Rightarrow> unit result"
  rlBootstrapCluster :: "raft_server list \<Rightarrow> unit result"
  rlState :: raft_state
  rlLeaderAddress :: string
  rlShutdown :: "unit result"

datatype opened = Directory string | BoltStore string | SnapshotStore string | TCPTransport string | RaftInstance string

record node =
  ndID :: string
  ndFSM :: fsm
  ndRaft :: raft_library
  ndLogged :: bool

definition open_or_fail :: "opened \<Rightarrow> unit result \<Rightarrow> opened list \<times> 'a result \<Rightarrow> opened list \<times> 'a result" where
  "open_or_fail what r rest = (case r of Inl e \<Rightarrow> ([], Inl e) | Inr _ \<Rightarrow> (what # fst rest, snd rest))"

definition NewNode :: "raft_library \<Rightarrow> string \<Rightarrow> string \<Rightarrow> string \<Rightarrow> bool \<Rightarrow> opened list \<times> node result" where
  "NewNode lib nid bindAddr dataDir rpcLogger =
     (let logDB = dataDir @ ''/raft-log.db''; stableDB = dataDir @ ''/raft-stable.db''
      in open_or_fail (Directory dataDir) (rlMkdirAll lib dataDir)
        (open_or_fail (BoltStore logDB) (rlNewBoltStore lib logDB)
        (open_or_fail (BoltStore stableDB) (rlNewBoltStore lib stableDB)
        (open_or_fail (SnapshotStore dataDir) (rlNewFileSnapshotStore lib dataDir)
        (open_or_fail (TCPTransport bindAddr) (rlNewTCPTransport lib bindAddr)
        (open_or_fail (RaftInstance nid) (rlNewRaft lib nid)
          ([], Inr \<lparr>ndID = nid, ndFSM = newFSM, ndRaft = lib, ndLogged = rpcLogger\<rparr>)))))))"

definition Bootstrap :: "node \<Rightarrow> raft_server list \<Rightarrow> unit result" where
  "Bootstrap n servers = rlBootstrapCluster (ndRaft n) servers"

definition IsLeader :: "node \<Rightarrow> bool" where
  "IsLeader n \<longleftrightarrow> rlState (ndRaft n) = RaftLeader"

definition LeaderAddr :: "node \<Rightarrow> string" where
  "LeaderAddr n = rlLeaderAddress (ndRaft n)"

definition Shutdown :: "node \<Rightarrow> unit result" where
  "Shutdown n = rlShutdown (ndRaft n)"

text \<open>The node as the coordinator uses it.\<close>

definition coordinator_node :: "node \<Rightarrow> raft_node" where
  "coordinator_node n = \<lparr>rnFSM = ndFSM n, rnIsLeader = IsLeader n\<rparr>"

subsection \<open>Servers\<close>

datatype server_option = UnaryLogging | StreamLogging
datatype service = BrokerService | CoordinatorService | CoordinatorProxy

record grpc_server =
  gsOptions :: "server_option list"
  gsServices :: "service list"

definition server_options :: "bool \<Rightarrow> server_option list" where
  "server_options rpcLogger = (if rpcLogger then [UnaryLogging, StreamLogging] else [])"

text \<open>\<open>Serve\<close> up to the call that blocks; \<open>listen\<close> says whether the address can be bound.\<close>

definition coordinator_Serve :: "(string \<Rightarrow> unit result) \<Rightarrow> string \<Rightarrow> bool \<Rightarrow> coordinator \<Rightarrow> failover_loops \<Rightarrow>
    failover_loops \<times> grpc_server result" where
  "coordinator_Serve listen addr rpcLogger c loops =
     (case listen addr of
        Inl e \<Rightarrow> (loops, Inl e)
      | Inr _ \<Rightarrow> (StartFailoverLoop c loops, Inr \<lparr>gsOptions = server_options rpcLogger, gsServices = [CoordinatorService]\<rparr>))"

definition broker_Serve :: "(string \<Rightarrow> unit result) \<Rightarrow> string \<Rightarrow> bool \<Rightarrow> broker \<Rightarrow> broker \<times> grpc_server result" where
  "broker_Serve listen addr rpcLogger b =
     (let b1 = Serve_addr b addr
      in case listen addr of
           Inl e \<Rightarrow> (b1, Inl e)
         | Inr _ \<Rightarrow> (b1, Inr \<lparr>gsOptions = server_options rpcLogger,
             gsServices = BrokerService # (if coordClientSafe b1 \<noteq> None then [CoordinatorProxy] else [])\<rparr>))"

subsection \<open>The mains\<close>

record coordinator_process =
  cpOpened :: "opened list"
  cpServers :: "raft_server list"
  cpCoordinator :: coordinator
  cpLoops :: failover_loops
  cpServer :: grpc_server

text \<open>The result of \<open>Bootstrap\<close> is dropped: a node with state keeps its configuration.\<close>

definition coordinator_main :: "raft_library \<Rightarrow> (string \<Rightarrow> unit result) \<Rightarrow> (string \<Rightarrow> unit result) \<Rightarrow> string \<Rightarrow> string \<Rightarrow> string \<Rightarrow> string \<Rightarrow> string \<Rightarrow>
    bool \<Rightarrow> int \<Rightarrow> int \<Rightarrow> int \<Rightarrow> coordinator_process result" where
  "coordinator_main lib openLog listen addr raftID raftBind dataDir peers rpcLog tick deadAfter grace =
     (case (if rpcLog then openLog (''rpc-coordinator-'' @ raftID @ ''.log'') else Inr ()) of
        Inl e \<Rightarrow> Inl e
      | Inr _ \<Rightarrow> (case NewNode lib raftID raftBind dataDir rpcLog of
          (os, Inl e) \<Rightarrow> Inl e
        | (os, Inr node) \<Rightarrow> (case bootstrap_servers raftID raftBind peers of
            Inl e \<Rightarrow> Inl e
          | Inr servers \<Rightarrow>
             (let c = SetFailoverTimings (NewWithRaft (coordinator_node node)) tick deadAfter grace
              in case coordinator_Serve listen addr rpcLog c no_loops of
                   (loops, Inl e) \<Rightarrow> Inl e
                 | (loops, Inr srv) \<Rightarrow>
                    Inr \<lparr>cpOpened = os, cpServers = (if Bootstrap node servers = Inr () then servers else []), cpCoordinator = c,
                         cpLoops = loops, cpServer = srv\<rparr>))))"

text \<open>The log file is named after the id; the last component tells whether the heartbeat loop was started.\<close>

definition broker_process :: "(int \<Rightarrow> unit result) \<Rightarrow> (string \<Rightarrow> unit result) \<Rightarrow> (string \<Rightarrow> bool) \<Rightarrow> (string \<Rightarrow> bool) \<Rightarrow> (string \<Rightarrow> bool) \<Rightarrow>
    topic_entry list option result \<Rightarrow> string \<Rightarrow> string \<Rightarrow> string \<Rightarrow> string \<Rightarrow> int \<Rightarrow> int \<Rightarrow> int \<Rightarrow> bool \<Rightarrow> coordinators \<Rightarrow>
    (coordinators \<times> broker \<times> grpc_server \<times> bool) result" where
  "broker_process openLog listen dial up coordDial listing addr dataDir advertise coordAddr i isrTimeout isrTick rpcLog coords =
     (case (if rpcLog then openLog i else Inr ()) of
        Inl e \<Rightarrow> Inl e
      | Inr _ \<Rightarrow> (case broker_main dial up coordDial listing addr dataDir advertise coordAddr i isrTimeout isrTick coords of
          Inl e \<Rightarrow> Inl e
        | Inr (coords', b) \<Rightarrow> (case broker_Serve listen addr rpcLog b of
            (b', Inl e) \<Rightarrow> Inl e
          | (b', Inr srv) \<Rightarrow> Inr (coords', b', srv, coordAddr \<noteq> ''''))))"

section \<open>Lemmas\<close>

text \<open>A node is made exactly when every call of the library succeeds; a failure leaves open what was opened before it.\<close>

definition library_ok :: "raft_library \<Rightarrow> string \<Rightarrow> string \<Rightarrow> string \<Rightarrow> bool" where
  "library_ok lib nid bindAddr dataDir \<longleftrightarrow> list_all (\<lambda>r. r = Inr ()) [rlMkdirAll lib dataDir, rlNewBoltStore lib (dataDir @ ''/raft-log.db''),
     rlNewBoltStore lib (dataDir @ ''/raft-stable.db''), rlNewFileSnapshotStore lib dataDir, rlNewTCPTransport lib bindAddr, rlNewRaft lib nid]"

lemma open_or_fail_simps [simp]:
  "open_or_fail what (Inl e) rest = ([], Inl e)" "open_or_fail what (Inr u) rest = (what # fst rest, snd rest)"
  by (simp_all add: open_or_fail_def)

lemma open_or_fail_Inr:
  "snd (open_or_fail what r rest) = Inr n \<longleftrightarrow> r = Inr () \<and> snd rest = Inr n"
  by (cases r) simp_all

lemma NewNode_succeeds:
  "snd (NewNode lib nid bindAddr dataDir logger) = Inr n \<longleftrightarrow>
     library_ok lib nid bindAddr dataDir \<and> n = \<lparr>ndID = nid, ndFSM = newFSM, ndRaft = lib, ndLogged = logger\<rparr>"
  unfolding NewNode_def Let_def open_or_fail_Inr library_ok_def by auto

lemma NewNode_leaves_stores_open:
  assumes "rlMkdirAll lib dataDir = Inr ()" "\<And>f. rlNewBoltStore lib f = Inr ()" "rlNewFileSnapshotStore lib dataDir = Inr ()"
    and "rlNewTCPTransport lib bindAddr = Inl e"
  shows "NewNode lib nid bindAddr dataDir logger =
    ([Directory dataDir, BoltStore (dataDir @ ''/raft-log.db''), BoltStore (dataDir @ ''/raft-stable.db''), SnapshotStore dataDir], Inl e)"
  using assms by (simp add: NewNode_def Let_def)

section \<open>Properties\<close>

text \<open>
  A coordinator process comes up exactly when the library made its node, the log file could be opened and the address
  bound; given the other servers of its group as the list \<open>-peers\<close>, it bootstraps with itself and
  exactly these servers in their order, starts with an empty state machine and no brokers, topics or
  groups, runs one failover loop, and uses the timings of its flags.
\<close>

lemma coordinator_process_ready:
  assumes "servers \<noteq> []" "list_all server_ok servers" "rlBootstrapCluster lib (\<lparr>rsID = raftID, rsAddress = raftBind\<rparr> # servers) = Inr ()"
  shows "case coordinator_main lib openLog listen addr raftID raftBind dataDir (join_comma (map show_server servers)) rpcLog tick deadAfter grace of
      Inl e \<Rightarrow> \<not> library_ok lib raftID raftBind dataDir \<or> listen addr \<noteq> Inr ()
        \<or> rpcLog \<and> openLog (''rpc-coordinator-'' @ raftID @ ''.log'') \<noteq> Inr ()
    | Inr cp \<Rightarrow> library_ok lib raftID raftBind dataDir \<and> listen addr = Inr ()
        \<and> cpServers cp = \<lparr>rsID = raftID, rsAddress = raftBind\<rparr> # servers
        \<and> fsmState (fsm_of (cpCoordinator cp)) = [] \<and> cBrokers (cpCoordinator cp) = [] \<and> cTopics (cpCoordinator cp) = [] \<and> cGroups (cpCoordinator cp) = []
        \<and> length (flRunning (cpLoops cp)) = 1 \<and> flRunning (StopFailoverLoop (cpLoops cp)) = []
        \<and> cTick (cpCoordinator cp) = tick \<and> cDeadAfter (cpCoordinator cp) = deadAfter \<and> cGrace (cpCoordinator cp) = grace"
proof -
  let ?n = "\<lparr>ndID = raftID, ndFSM = newFSM, ndRaft = lib, ndLogged = rpcLog\<rparr>"
  let ?file = "''rpc-coordinator-'' @ raftID @ ''.log''"
  note servers = bootstrap_servers_roundtrip [OF assms(1,2), of raftID raftBind]
  obtain os r where node: "NewNode lib raftID raftBind dataDir rpcLog = (os, r)" by force
  have r: "r = Inr n \<longleftrightarrow> library_ok lib raftID raftBind dataDir \<and> n = ?n" for n
    using NewNode_succeeds [of lib raftID raftBind dataDir rpcLog n] node by simp
  consider (log) e where "rpcLog" "openLog ?file = Inl e"
    | (node) "\<not> library_ok lib raftID raftBind dataDir" "rpcLog \<longrightarrow> openLog ?file = Inr ()"
    | (listen) e where "library_ok lib raftID raftBind dataDir" "rpcLog \<longrightarrow> openLog ?file = Inr ()" "listen addr = Inl e"
    | (ready) "library_ok lib raftID raftBind dataDir" "rpcLog \<longrightarrow> openLog ?file = Inr ()" "listen addr = Inr ()"
    by (cases "openLog ?file"; cases "listen addr") auto
  then show ?thesis
  proof cases
    case log
    then show ?thesis by (simp add: coordinator_main_def)
  next
    case node
    then obtain e where "r = Inl e" using r by (cases r) auto
    then show ?thesis using node \<open>NewNode _ _ _ _ _ = _\<close> by (cases rpcLog) (simp_all add: coordinator_main_def)
  next
    case listen
    then have "r = Inr ?n" using r by blast
    then show ?thesis using listen node servers by (cases rpcLog) (simp_all add: coordinator_main_def coordinator_Serve_def Let_def)
  next
    case ready
    then have "r = Inr ?n" using r by blast
    then show ?thesis
      using ready node servers assms(3)
      by (cases rpcLog) (simp_all add: coordinator_main_def coordinator_Serve_def Let_def Bootstrap_def StartFailoverLoop_def StopFailoverLoop_def no_loops_def
          SetFailoverTimings_def NewWithRaft_def coordinator_New_def coordinator_node_def fsm_of_def newFSM_def)
  qed
qed

definition demo_library :: raft_library where
  "demo_library = \<lparr>rlMkdirAll = \<lambda>_. Inr (), rlNewBoltStore = \<lambda>_. Inr (), rlNewFileSnapshotStore = \<lambda>_. Inr (), rlNewTCPTransport = \<lambda>_. Inr (),
     rlNewRaft = \<lambda>_. Inr (), rlBootstrapCluster = \<lambda>_. Inr (), rlState = RaftFollower, rlLeaderAddress = '''', rlShutdown = Inr ()\<rparr>"

lemma coordinator_process_ready_witness:
  "\<exists>cp. coordinator_main demo_library (\<lambda>_. Inr ()) (\<lambda>_. Inr ()) '':9093'' ''n1'' ''h:1'' ''d'' (join_comma (map show_server [\<lparr>rsID = ''n2'', rsAddress = ''h:2''\<rparr>]))
      True 2 10 3 = Inr cp \<and> cpServers cp = [\<lparr>rsID = ''n1'', rsAddress = ''h:1''\<rparr>, \<lparr>rsID = ''n2'', rsAddress = ''h:2''\<rparr>] \<and> cDeadAfter (cpCoordinator cp) = 10"
proof -
  have "library_ok demo_library ''n1'' ''h:1'' ''d''" by (simp add: library_ok_def demo_library_def)
  moreover have "rlBootstrapCluster demo_library [\<lparr>rsID = ''n1'', rsAddress = ''h:1''\<rparr>, \<lparr>rsID = ''n2'', rsAddress = ''h:2''\<rparr>] = Inr ()"
    by (simp add: demo_library_def)
  ultimately show ?thesis
    using coordinator_process_ready [of "[\<lparr>rsID = ''n2'', rsAddress = ''h:2''\<rparr>]" demo_library "''n1''" "''h:1''",
        where openLog = "\<lambda>_. Inr ()" and listen = "\<lambda>_. Inr ()" and addr = "'':9093''" and dataDir = "''d''" and rpcLog = True and tick = 2 and deadAfter = 10 and grace = 3]
    by (auto simp: server_ok_def split: sum.splits)
qed



end
