(* ===== verification/Cluster.thy ===== *)
theory Cluster
  imports Coordinator
begin

text \<open>
  Coordinator and brokers together: the calls that a handler of the coordinator makes
  (src/internal/coordinator/coordinator.go) carried out, in order, by the handlers of the brokers they
  are addressed to (src/internal/broker/broker.go).  The cluster maps an address to its broker.
\<close>

subsection \<open>Carrying out calls\<close>

fun call_addr :: "broker_call \<Rightarrow> string" where
  "call_addr (CallInitPartitions addr req) = addr"
| "call_addr (CallAssignRole addr req) = addr"

fun serve_call :: "(string \<Rightarrow> int \<Rightarrow> bytes result) \<Rightarrow> (string \<Rightarrow> bool) \<Rightarrow> broker_call \<Rightarrow> broker \<Rightarrow> broker" where
  "serve_call disk dial (CallInitPartitions addr req) b = fst (InitPartitions disk b req)"
| "serve_call disk dial (CallAssignRole addr req) b = fst (AssignRole dial b req)"

definition exec_calls :: "(string \<Rightarrow> int \<Rightarrow> bytes result) \<Rightarrow> (string \<Rightarrow> bool) \<Rightarrow> broker_call list \<Rightarrow>
    (string \<Rightarrow> broker) \<Rightarrow> string \<Rightarrow> broker" where
  "exec_calls disk dial calls cl = fold (\<lambda>call cl. cl(call_addr call := serve_call disk dial call (cl (call_addr call)))) calls cl"

text \<open>A broker sees only the calls addressed to it.\<close>

lemma exec_calls_at:
  "exec_calls disk dial calls cl a = fold (serve_call disk dial) (filter (\<lambda>call. call_addr call = a) calls) (cl a)"
  unfolding exec_calls_def by (induction calls arbitrary: cl) simp_all

section \<open>Opening partitions\<close>

lemma init_loop_memory:
  "bDataDir b = '''' \<Longrightarrow> snd (init_loop disk b t pids) = Inr () \<and> bDataDir (fst (init_loop disk b t pids)) = ''''"
proof (induction disk b t pids rule: init_loop.induct)
  case (2 disk b t pid pids)
  have o: "open_partition disk b t pid = Inr (newPartition t pid (Mem MemLog_new) (bIsrTimeout b) (bIsrTick b))"
    using "2.prems" by (simp add: open_partition_def open_log_def)
  show ?case
  proof (cases "map_get (the (map_get (bTopics b) t)) pid")
    case None
    then show ?thesis using "2.IH"(2) [OF refl _ o] "2.prems" o by (simp add: Let_def)
  next
    case (Some p)
    then show ?thesis using "2.IH"(1) [OF refl] "2.prems" by (simp add: Let_def)
  qed
qed simp

lemma InitPartitions_memory:
  assumes "bDataDir b = ''''" "ipTopic req \<noteq> ''''"
  shows "InitPartitions disk b req = (fst (InitPartitions disk b req), Inr ())" "bDataDir (fst (InitPartitions disk b req)) = ''''"
proof -
  have "snd (InitPartitions disk b req) = Inr () \<and> bDataDir (fst (InitPartitions disk b req)) = ''''"
    using assms init_loop_memory by (simp add: InitPartitions_def Let_def)
  then show "InitPartitions disk b req = (fst (InitPartitions disk b req), Inr ())" "bDataDir (fst (InitPartitions disk b req)) = ''''"
    by (simp_all add: prod_eq_iff)
qed

text \<open>A partition as a broker opens it: leading in epoch 0, to be told its role.\<close>

definition opened :: "partition result \<Rightarrow> bool" where
  "opened r = (case r of Inr p \<Rightarrow> pLeaderEpoch p = 0 | Inl e \<Rightarrow> False)"

lemma opened_memory: "bDataDir b = '''' \<Longrightarrow> opened (open_partition disk b t i)"
  by (simp add: open_partition_def open_log_def opened_def newPartition_def Let_def)

text \<open>
  After a list of \<open>InitPartitions\<close> calls for one topic, a broker without the topic has exactly the
  partitions that were asked for.
\<close>

lemma init_calls_exec:
  assumes "bDataDir b = ''''" "list_all (\<lambda>call. \<exists>a pids. call = CallInitPartitions a \<lparr>ipTopic = t, ipPartitions = pids\<rparr>) calls" "t \<noteq> ''''"
    and "opened (getPartition b t i) \<or> (\<nexists>p. getPartition b t i = Inr p)"
  shows "bDataDir (fold (serve_call disk dial) calls b) = ''''
    \<and> (opened (getPartition b t i) \<or> (\<exists>a pids. CallInitPartitions a \<lparr>ipTopic = t, ipPartitions = pids\<rparr> \<in> set calls \<and> i \<in> set pids)
        \<longrightarrow> opened (getPartition (fold (serve_call disk dial) calls b) t i))"
  using assms(1,2,4)
proof (induction calls arbitrary: b)
  case (Cons call calls)
  obtain a pids where call: "call = CallInitPartitions a \<lparr>ipTopic = t, ipPartitions = pids\<rparr>" using Cons.prems(2) by auto
  let ?req = "\<lparr>ipTopic = t, ipPartitions = pids\<rparr>"
  let ?b = "fst (InitPartitions disk b ?req)"
  have ne: "ipTopic ?req \<noteq> ''''" using assms(3) by simp
  note im = InitPartitions_memory [OF Cons.prems(1) ne, of disk]
  have get: "getPartition ?b t i = (if i \<in> set pids \<and> (\<nexists>p. getPartition b t i = Inr p)
      then open_partition disk b t i else getPartition b t i)"
    using InitPartitions_exact [OF im(1)] by simp
  have "opened (getPartition ?b t i) \<or> (\<nexists>p. getPartition ?b t i = Inr p)"
    using get Cons.prems(3) opened_memory [OF Cons.prems(1)] by auto
  from Cons.IH [OF im(2) _ this] Cons.prems(2)
  have IH: "bDataDir (fold (serve_call disk dial) calls ?b) = ''''"
    "opened (getPartition ?b t i) \<or> (\<exists>a pids. CallInitPartitions a \<lparr>ipTopic = t, ipPartitions = pids\<rparr> \<in> set calls \<and> i \<in> set pids)
      \<longrightarrow> opened (getPartition (fold (serve_call disk dial) calls ?b) t i)" by auto
  have "opened (getPartition ?b t i)" if "opened (getPartition b t i) \<or> i \<in> set pids"
    using that get Cons.prems(3) opened_memory [OF Cons.prems(1), of disk t i] by (auto simp: opened_def split: sum.splits)
  then show ?case using IH call by auto
qed simp

section \<open>Assigning roles\<close>

fun role_target :: "broker_call \<Rightarrow> string \<times> string \<times> int" where
  "role_target (CallAssignRole addr req) = (addr, arTopic req, arPartition req)"
| "role_target (CallInitPartitions addr req) = (addr, ipTopic req, 0)"

definition role_change_of :: "assign_role_request \<Rightarrow> role_change" where
  "role_change_of req = (if arRole req = LEADER then ToLeader (arEpoch req) (arIsrIds req) else ToFollower (arLeaderId req) (arEpoch req))"

lemma AssignRole_exec:
  assumes "\<And>a. dial a" "arRole req = LEADER \<or> arRole req = FOLLOWER"
  shows "getPartition (fst (AssignRole dial b req)) t i =
    (if (t, i) = (arTopic req, arPartition req) then map_sum id (\<lambda>p. change_role p (role_change_of req)) (getPartition b t i)
     else getPartition b t i)"
proof (cases "getPartition b (arTopic req) (arPartition req)")
  case (Inl e)
  then show ?thesis by (auto simp: AssignRole_def)
next
  case (Inr p)
  obtain b1 where c: "ConnectToPeer dial b (arLeaderId req) (arLeaderAddr req) = (b1, Inr ())"
    using assms(1) that by (cases "map_get (bPeerClients b) (arLeaderId req)") (auto simp: ConnectToPeer_def)
  have b1: "getPartition b1 t i = getPartition b t i" for t i using getPartition_ConnectToPeer [OF c] by (rule getPartition_topics)
  then show ?thesis
    using assms(2) Inr c getPartition_set [OF Inr] getPartition_set [of b1 "arTopic req" "arPartition req" p]
    by (auto simp: AssignRole_def role_change_of_def)
qed

lemma role_calls_exec:
  assumes "\<And>a. dial a" "list_all (\<lambda>call. \<exists>req. call = CallAssignRole a req \<and> (arRole req = LEADER \<or> arRole req = FOLLOWER)) calls"
    and "distinct (map role_target calls)"
  shows "getPartition (fold (serve_call disk dial) calls b) t i =
    (case find (\<lambda>call. role_target call = (a, t, i)) calls of
       Some (CallAssignRole _ req) \<Rightarrow> map_sum id (\<lambda>p. change_role p (role_change_of req)) (getPartition b t i)
     | _ \<Rightarrow> getPartition b t i)"
  using assms(2,3)
proof (induction calls arbitrary: b)
  case (Cons call calls)
  obtain req where call: "call = CallAssignRole a req" "arRole req = LEADER \<or> arRole req = FOLLOWER" using Cons.prems(1) by auto
  note ar = AssignRole_exec [where dial = dial, OF assms(1) call(2), of b t i]
  have IH: "getPartition (fold (serve_call disk dial) (call # calls) b) t i =
    (case find (\<lambda>call. role_target call = (a, t, i)) calls of
       Some (CallAssignRole _ req') \<Rightarrow> map_sum id (\<lambda>p. change_role p (role_change_of req')) (getPartition (fst (AssignRole dial b req)) t i)
     | _ \<Rightarrow> getPartition (fst (AssignRole dial b req)) t i)"
    using Cons.IH [of "fst (AssignRole dial b req)"] Cons.prems call(1) by simp
  show ?case
  proof (cases "(t, i) = (arTopic req, arPartition req)")
    case True
    have "find (\<lambda>call. role_target call = (a, t, i)) calls = None"
      using Cons.prems(2) True call(1) by (force simp: find_None_iff)
    then show ?thesis unfolding IH using True ar call(1) by simp
  next
    case False
    then show ?thesis unfolding IH ar using call(1) by auto
  qed
qed simp


lemma role_calls_member:
  assumes "\<And>a. dial a" "list_all (\<lambda>call. \<exists>req. call = CallAssignRole a req \<and> (arRole req = LEADER \<or> arRole req = FOLLOWER)) calls"
    and "distinct (map role_target calls)" "CallAssignRole a req \<in> set calls"
  shows "getPartition (fold (serve_call disk dial) calls b) (arTopic req) (arPartition req) =
    map_sum id (\<lambda>p. change_role p (role_change_of req)) (getPartition b (arTopic req) (arPartition req))"
proof -
  let ?P = "\<lambda>call. role_target call = (a, arTopic req, arPartition req)"
  have "find ?P calls = Some (CallAssignRole a req)"
    using assms(3,4) by (induction calls) (auto simp: rev_image_eqI)
  then show ?thesis using role_calls_exec [where dial = dial, OF assms(1-3)] by simp
qed

section \<open>The calls of CreateTopic\<close>

lemma group_add_member:
  assumes "(a, i) \<in> set xs \<or> (\<exists>pids. map_get m a = Some pids \<and> i \<in> set pids)"
  shows "\<exists>pids. map_get (fold (\<lambda>(a, i). group_add a i) xs m) a = Some pids \<and> i \<in> set pids"
  using assms
proof (induction xs arbitrary: m)
  case (Cons x xs)
  obtain b j where x: "x = (b, j)" by force
  have "(a, i) \<in> set xs \<or> (\<exists>pids. map_get (group_add b j m) a = Some pids \<and> i \<in> set pids)"
    using Cons.prems x by (auto simp: group_add_def go_map split: option.splits)
  from Cons.IH [OF this] show ?case using x by simp
qed simp

lemma init_calls_form:
  "list_all (\<lambda>call. \<exists>a pids. call = CallInitPartitions a \<lparr>ipTopic = t, ipPartitions = pids\<rparr>) (init_calls c t m)"
  by (auto simp: init_calls_def list_all_iff split: option.splits)

lemma init_calls_member:
  assumes "map_get m a = Some pids" "brokerClient c a = Some a"
  shows "CallInitPartitions a \<lparr>ipTopic = t, ipPartitions = pids\<rparr> \<in> set (init_calls c t m)"
  using map_of_SomeD [OF assms(1)] assms(2) by (force simp: init_calls_def)

lemma initPartitions_member:
  assumes "p \<in> set parts" "brokerClient c (piBrokerAddr p) = Some (piBrokerAddr p)"
  shows "\<exists>pids. CallInitPartitions (piBrokerAddr p) \<lparr>ipTopic = t, ipPartitions = pids\<rparr> \<in> set (initPartitions c t parts)
    \<and> piPartition p \<in> set pids"
proof -
  have "fold (\<lambda>p m. group_add (piBrokerAddr p) (piPartition p) m) parts m =
      fold (\<lambda>(a, i). group_add a i) (map (\<lambda>p. (piBrokerAddr p, piPartition p)) parts) m" for m
    by (simp add: fold_map comp_def)
  then show ?thesis
    using group_add_member [of "piBrokerAddr p" "piPartition p" "map (\<lambda>p. (piBrokerAddr p, piPartition p)) parts" "[]"]
      assms(1) init_calls_member [OF _ assms(2)] by (force simp: initPartitions_def)
qed

lemma initBackupPartitions_member:
  assumes "s \<in> set as" "a \<in> set (paBackups s)" "brokerClient c a = Some a"
  shows "\<exists>pids. CallInitPartitions a \<lparr>ipTopic = t, ipPartitions = pids\<rparr> \<in> set (initBackupPartitions c t as)
    \<and> paPartition s \<in> set pids"
proof -
  let ?xs = "concat (map (\<lambda>s. map (\<lambda>b. (b, paPartition s)) (paBackups s)) as)"
  have "fold (\<lambda>a m. fold (\<lambda>backup m. group_add backup (paPartition a) m) (paBackups a) m) as m =
      fold (\<lambda>(a, i). group_add a i) ?xs m" for m
    by (induction as arbitrary: m) (simp_all add: fold_map comp_def)
  moreover have "(a, paPartition s) \<in> set ?xs" using assms(1,2) by auto
  ultimately show ?thesis
    using group_add_member [of a "paPartition s" ?xs "[]"] init_calls_member [OF _ assms(3)] by (force simp: initBackupPartitions_def)
qed

text \<open>Every broker is known by its address and number, reachable and alive.\<close>

definition deployable :: "int \<Rightarrow> (string \<Rightarrow> int) \<Rightarrow> coordinator \<Rightarrow> bool" where
  "deployable now ids c \<longleftrightarrow> list_all (\<lambda>a. brokerClient c a = Some a \<and> map_get (cBrokerIDs c) a = Some (ids a) \<and> brokerAlive now c a) (cBrokers c)"

definition leader_request :: "coordinator \<Rightarrow> string \<Rightarrow> int \<Rightarrow> partition_assignment \<Rightarrow> assign_role_request" where
  "leader_request c t e s = \<lparr>arTopic = t, arPartition = paPartition s, arRole = LEADER, arLeaderId = 0, arLeaderAddr = '''', arEpoch = e,
     arIsrIds = List.map_filter (\<lambda>addr. map_get (cBrokerIDs c) addr) (paBackups s)\<rparr>"

definition follower_request :: "(string \<Rightarrow> int) \<Rightarrow> string \<Rightarrow> int \<Rightarrow> partition_assignment \<Rightarrow> assign_role_request" where
  "follower_request ids t e s = \<lparr>arTopic = t, arPartition = paPartition s, arRole = FOLLOWER, arLeaderId = ids (paPrimary s),
     arLeaderAddr = paPrimary s, arEpoch = e, arIsrIds = []\<rparr>"

lemma deployable_at:
  "deployable now ids c \<Longrightarrow> a \<in> set (cBrokers c) \<Longrightarrow>
    brokerClient c a = Some a \<and> map_get (cBrokerIDs c) a = Some (ids a) \<and> brokerAlive now c a"
  by (simp add: deployable_def list_all_iff)

lemma assignLeaderRoles_at:
  assumes "deployable now ids c" "list_all (\<lambda>s. paPrimary s \<in> set (cBrokers c)) as"
  shows "filter (\<lambda>call. call_addr call = a) (assignLeaderRoles c t as e) =
    map (\<lambda>s. CallAssignRole a (leader_request c t e s)) (filter (\<lambda>s. paPrimary s = a) as)"
  using assms(2) deployable_at [OF assms(1)]
  by (induction as) (auto simp: assignLeaderRoles_def leader_calls_def leader_request_def)

lemma filter_concat_singles:
  "distinct bs \<Longrightarrow> filter (\<lambda>call. call_addr call = a) (map (\<lambda>b. CallAssignRole b req) bs) = (if a \<in> set bs then [CallAssignRole a req] else [])"
  by (induction bs) auto

lemma concat_map_singles: "(\<And>x. x \<in> set xs \<Longrightarrow> f x = [g x]) \<Longrightarrow> concat (map f xs) = map g xs"
  by (induction xs) auto

lemma assignFollowerRoles_at:
  assumes "deployable now ids c"
    and "list_all (\<lambda>s. paPrimary s \<in> set (cBrokers c) \<and> set (paBackups s) \<subseteq> set (cBrokers c) \<and> distinct (paBackups s)) as"
  shows "filter (\<lambda>call. call_addr call = a) (assignFollowerRoles now c t as e) =
    map (\<lambda>s. CallAssignRole a (follower_request ids t e s)) (filter (\<lambda>s. a \<in> set (paBackups s)) as)"
  using assms(2)
proof (induction as)
  case (Cons s as)
  note at = deployable_at [OF assms(1)]
  have "follower_calls now c t e s = map (\<lambda>b. CallAssignRole b (follower_request ids t e s)) (paBackups s)"
    unfolding follower_calls_def using at [of "paPrimary s"] at Cons.prems
    by (auto simp: follower_request_def subset_iff intro!: concat_map_singles)
  then show ?case using Cons filter_concat_singles [of "paBackups s" a "follower_request ids t e s"]
    by (simp add: assignFollowerRoles_def)
qed (simp add: assignFollowerRoles_def)


text \<open>
  What a broker of the list is told: the partitions of the topic to open, then for each of them
  one role.
\<close>

lemma roles_at:
  assumes "deployable now ids c" "\<And>a. dial a" "distinct (map paPartition as)"
    and "list_all (\<lambda>s. paPrimary s \<in> set (cBrokers c) \<and> paBackups s = filter (\<lambda>b. b \<noteq> paPrimary s) (cBrokers c)) as"
    and "distinct (cBrokers c)" "s \<in> set as" "a \<in> set (cBrokers c)"
  shows "getPartition (fold (serve_call disk dial) (filter (\<lambda>call. call_addr call = a)
        (assignLeaderRoles c t as e @ assignFollowerRoles now c t as e)) b) t (paPartition s) =
    map_sum id (\<lambda>p. if a = paPrimary s then BecomeLeader p e (arIsrIds (leader_request c t e s)) else BecomeFollower p (ids (paPrimary s)) e)
      (getPartition b t (paPartition s))"
proof -
  let ?L = "filter (\<lambda>s. paPrimary s = a) as" and ?F = "filter (\<lambda>s. a \<in> set (paBackups s)) as"
  let ?calls = "map (\<lambda>s. CallAssignRole a (leader_request c t e s)) ?L @ map (\<lambda>s. CallAssignRole a (follower_request ids t e s)) ?F"
  let ?req = "if a = paPrimary s then leader_request c t e s else follower_request ids t e s"
  have as: "list_all (\<lambda>s. paPrimary s \<in> set (cBrokers c) \<and> set (paBackups s) \<subseteq> set (cBrokers c) \<and> distinct (paBackups s)) as"
    "list_all (\<lambda>s. paPrimary s \<in> set (cBrokers c)) as"
    using assms(4,5) by (auto simp: list_all_iff)
  have eq: "filter (\<lambda>call. call_addr call = a) (assignLeaderRoles c t as e @ assignFollowerRoles now c t as e) = ?calls"
    using assignLeaderRoles_at [OF assms(1) as(2)] assignFollowerRoles_at [OF assms(1) as(1)] by simp
  have "inj_on paPartition (set as)" using assms(3) by (simp add: distinct_map)
  moreover have "paPrimary x \<noteq> a" if "x \<in> set ?F" for x using that assms(4) by (auto simp: list_all_iff)
  ultimately have "distinct (map paPartition (?L @ ?F))"
    using assms(3) by (auto simp: distinct_map inj_on_def)
  moreover have "map role_target ?calls = map (\<lambda>i. (a, t, i)) (map paPartition (?L @ ?F))"
    by (simp add: leader_request_def follower_request_def comp_def)
  ultimately have d: "distinct (map role_target ?calls)" by (simp only: distinct_map inj_on_def) auto
  have mem: "CallAssignRole a ?req \<in> set ?calls"
    using assms(4,6,7) by (auto simp: list_all_iff)
  have form: "list_all (\<lambda>call. \<exists>req. call = CallAssignRole a req \<and> (arRole req = LEADER \<or> arRole req = FOLLOWER)) ?calls"
    by (auto simp: list_all_iff leader_request_def follower_request_def)
  have tp: "arTopic ?req = t" "arPartition ?req = paPartition s" by (simp_all add: leader_request_def follower_request_def)
  have ch: "change_role p (role_change_of ?req) = (if a = paPrimary s then BecomeLeader p e (arIsrIds (leader_request c t e s))
      else BecomeFollower p (ids (paPrimary s)) e)" for p
    by (simp add: role_change_of_def leader_request_def follower_request_def)
  from role_calls_member [where dial = dial and disk = disk and b = b, OF assms(2) form d mem] show ?thesis
    unfolding eq tp ch .
qed


lemma deployable_frame: "deployable now ids (c\<lparr>cTopics := x, cRaft := y\<rparr>) = deployable now ids c"
proof -
  have "brokerAlive now (c\<lparr>cTopics := x, cRaft := y\<rparr>) a = brokerAlive now c a" for a
    by (simp add: brokerAlive_def split: option.split)
  then show ?thesis by (simp add: deployable_def brokerClient_def)
qed

lemma CreateTopic_calls:
  assumes "ctTopic req \<noteq> ''''" "utf8_valid (ctTopic req)" "0 < ctPartitions req" "is_int32 (ctPartitions req)"
    and "cRaft c = Some n" "rnIsLeader n" "map_get (cTopics c) (ctTopic req) = None"
    and "cBrokers c \<noteq> []" "distinct (cBrokers c)" "list_all utf8_valid (cBrokers c)" "\<And>d. raft d = Committed"
  defines "as \<equiv> make_assignments (cBrokers c) (ctPartitions req)"
  obtains c' where "coordinator_CreateTopic raft now c req = (c', initPartitions c' (ctTopic req)
        (map (\<lambda>a. \<lparr>piPartition = paPartition a, piBrokerAddr = paPrimary a\<rparr>) as) @ initBackupPartitions c' (ctTopic req) as
        @ assignLeaderRoles c' (ctTopic req) as 1 @ assignFollowerRoles now c' (ctTopic req) as 1, Inr ())"
    and "\<And>ids. deployable now ids c' = deployable now ids c" "cBrokers c' = cBrokers c"
proof -
  note props = make_assignments_props [OF assms(8-10,4) less_imp_le [OF assms(3)]]
  let ?parts = "map (\<lambda>a. \<lparr>piPartition = paPartition a, piBrokerAddr = paPrimary a\<rparr>) as"
  let ?c1 = "c\<lparr>cTopics := map_put (ctTopic req) ?parts (cTopics c)\<rparr>"
  have "distinct (map paPartition as)" unfolding as_def props(3) by (simp add: distinct_map)
  from apply_assignments_committed [where raft = raft and c = ?c1 and n = n, OF _ assms(11) assms(2) props(2) [folded as_def] this]
  obtain f where f: "apply_assignments raft ?c1 (ctTopic req) as = (?c1\<lparr>cRaft := Some (n\<lparr>rnFSM := f\<rparr>)\<rparr>, Inr ())"
    using assms(5) by auto
  show ?thesis
    using assms(1,3,5-8) f
    by (intro that [of "?c1\<lparr>cRaft := Some (n\<lparr>rnFSM := f\<rparr>)\<rparr>"])
      (simp_all add: coordinator_CreateTopic_def Let_def notLeader_def as_def deployable_frame)
qed

text \<open>The calls for opening partitions reach every broker of the list, for each of the partitions.\<close>

lemma init_calls_open:
  assumes "s \<in> set as" "paPartition s = i" "a = paPrimary s \<or> a \<in> set (paBackups s)" "brokerClient c a = Some a" "t \<noteq> ''''"
    and "bDataDir b = ''''" "\<nexists>p. getPartition b t i = Inr p"
    and "parts = map (\<lambda>s. \<lparr>piPartition = paPartition s, piBrokerAddr = paPrimary s\<rparr>) as"
  shows "opened (getPartition (fold (serve_call disk dial)
    (filter (\<lambda>call. call_addr call = a) (initPartitions c t parts @ initBackupPartitions c t as)) b) t i)"
proof -
  let ?I = "filter (\<lambda>call. call_addr call = a) (initPartitions c t parts @ initBackupPartitions c t as)"
  have "\<exists>pids. CallInitPartitions a \<lparr>ipTopic = t, ipPartitions = pids\<rparr> \<in> set ?I \<and> i \<in> set pids"
    using assms(3)
  proof
    assume "a = paPrimary s"
    then have "\<lparr>piPartition = i, piBrokerAddr = a\<rparr> \<in> set parts" using assms(1,2,8) by force
    from initPartitions_member [OF this, of c t] assms(4) show ?thesis by fastforce
  next
    assume "a \<in> set (paBackups s)"
    from initBackupPartitions_member [OF assms(1) this assms(4), of t] assms(2) show ?thesis by fastforce
  qed
  moreover have "list_all (\<lambda>call. \<exists>a pids. call = CallInitPartitions a \<lparr>ipTopic = t, ipPartitions = pids\<rparr>) ?I"
    using init_calls_form by (auto simp: list_all_iff initPartitions_def initBackupPartitions_def)
  ultimately show ?thesis using init_calls_exec [OF assms(6) _ assms(5), of ?I i disk dial] assms(7) by blast
qed

section \<open>Properties\<close>



definition demo_create :: create_topic_request where
  "demo_create = \<lparr>ctTopic = ''t'', ctPartitions = 2, ctReplicationFactor = 1\<rparr>"

definition demo_calls :: "broker_call list" where
  "demo_calls = fst (snd (coordinator_CreateTopic (\<lambda>_. Committed) 0 demo_registered demo_create))"



section \<open>The calls of a change of leader\<close>

text \<open>Every broker is known by its address and number and has a client; it need not be alive.\<close>

definition known :: "(string \<Rightarrow> int) \<Rightarrow> coordinator \<Rightarrow> string list \<Rightarrow> bool" where
  "known ids c as \<longleftrightarrow> list_all (\<lambda>a. brokerClient c a = Some a \<and> map_get (cBrokerIDs c) a = Some (ids a)) as"

lemma known_at: "known ids c as \<Longrightarrow> a \<in> set as \<Longrightarrow> brokerClient c a = Some a \<and> map_get (cBrokerIDs c) a = Some (ids a)"
  by (simp add: known_def list_all_iff)

lemma leader_change_calls_at:
  assumes "known ids c (paPrimary s # paBackups s)" "distinct (paBackups s)"
  shows "filter (\<lambda>call. call_addr call = a) (assignLeaderRoles c t [s] e @ assignFollowerRoles now c t [s] e) =
    (if a = paPrimary s then [CallAssignRole a (leader_request c t e s)] else [])
    @ (if a \<in> set (paBackups s) \<and> brokerAlive now c a then [CallAssignRole a (follower_request ids t e s)] else [])"
proof -
  note at = known_at [OF assms(1)]
  have "concat (map (\<lambda>b. if \<not> brokerAlive now c b then [] else (case brokerClient c b of None \<Rightarrow> []
        | Some cl \<Rightarrow> [CallAssignRole cl (follower_request ids t e s)])) bs) =
      map (\<lambda>b. CallAssignRole b (follower_request ids t e s)) (filter (brokerAlive now c) bs)" if "set bs \<subseteq> set (paBackups s)" for bs
    using that at by (induction bs) auto
  from this [of "paBackups s"] have "follower_calls now c t e s = map (\<lambda>b. CallAssignRole b (follower_request ids t e s)) (filter (brokerAlive now c) (paBackups s))"
    using at [of "paPrimary s"] unfolding follower_calls_def follower_request_def by simp
  then show ?thesis
    using at [of "paPrimary s"] filter_concat_singles [of "filter (brokerAlive now c) (paBackups s)" a "follower_request ids t e s"] assms(2)
    by (simp add: assignLeaderRoles_def assignFollowerRoles_def leader_calls_def leader_request_def)
qed

lemma UpdatePartitionLeader_calls:
  assumes "\<not> notLeader c" "cRaft c \<noteq> None" "FSM_Get (fsm_of c) t i = Some ps" "assignment_ok t i ps"
    and "addr \<noteq> ''''" "utf8_valid addr" "\<And>d. raft d = Committed" "map_get (cTopics c) t = Some parts" "0 \<le> i" "i < int (length parts)"
  defines "s \<equiv> \<lparr>paPartition = i, paPrimary = addr, paBackups = remaining_backups ps addr\<rparr>"
  obtains c' where "UpdatePartitionLeader raft now c \<lparr>ulTopic = t, ulPartition = i, ulBrokerAddr = addr\<rparr> =
      (c', assignLeaderRoles c' t [s] (psEpoch ps + 1) @ assignFollowerRoles now c' t [s] (psEpoch ps + 1), Inr ())"
    "\<And>a. brokerAlive now c' a = brokerAlive now c a" "\<And>ids as. known ids c' as = known ids c as"
proof -
  let ?req = "\<lparr>ulTopic = t, ulPartition = i, ulBrokerAddr = addr\<rparr>"
  let ?cmd = "leader_command ?req (psEpoch ps + 1) (remaining_backups ps addr)"
  obtain n where n: "cRaft c = Some n" using assms(2) by blast
  have "int64 (psEpoch ps + 1) = psEpoch ps + 1"
    using assms(4) by (intro int64_id) (simp add: assignment_ok_def is_int64_def)
  then have lay: "new_layout (fsm_of c) ?req = (psEpoch ps + 1, remaining_backups ps addr)"
    using assms(3) by (simp add: new_layout_def)
  have ap: "raft_Apply raft c ?cmd = (c\<lparr>cRaft := Some (n\<lparr>rnFSM := FSM_applyCommand (rnFSM n) ?cmd\<rparr>)\<rparr>, Inr ())"
    using n assms(7) leader_command_ok [OF assms(4,6)] by (intro raft_Apply_committed) auto
  let ?c' = "c\<lparr>cRaft := Some (n\<lparr>rnFSM := FSM_applyCommand (rnFSM n) ?cmd\<rparr>),
      cTopics := map_put t (parts[nat i := (parts ! nat i)\<lparr>piBrokerAddr := addr\<rparr>]) (cTopics c)\<rparr>"
  show ?thesis
  proof (rule that [of ?c'])
    show "UpdatePartitionLeader raft now c ?req =
        (?c', assignLeaderRoles ?c' t [s] (psEpoch ps + 1) @ assignFollowerRoles now ?c' t [s] (psEpoch ps + 1), Inr ())"
      using assms(1,4,5,8-10) n lay ap by (simp add: UpdatePartitionLeader_def assignment_ok_def Let_def s_def)
    show "brokerAlive now ?c' a = brokerAlive now c a" for a by (simp add: brokerAlive_def split: option.split)
    show "known ids ?c' as = known ids c as" for ids as by (simp add: known_def brokerClient_def)
  qed
qed

text \<open>
  C17: A change of leader is carried out by the brokers: when the coordinator promotes a backup in a new epoch
  and its calls are carried out, the promoted broker leads the partition in that epoch with the log it
  had, every other replica that is alive follows it with the log it had, and a dead one, which may be the
  old leader, still stands where it was; its epoch is then smaller than the new one.
\<close>

theorem leader_change_is_deployed:
  assumes "\<not> notLeader c" "cRaft c \<noteq> None" "FSM_Get (fsm_of c) t i = Some ps" "assignment_ok t i ps" "addr \<noteq> ''''" "utf8_valid addr"
    and "\<And>d. raft d = Committed" "map_get (cTopics c) t = Some parts" "0 \<le> i" "i < int (length parts)" "\<And>a. dial a"
    and "addr \<in> set (psBackups ps)" "psPrimary ps \<notin> set (psBackups ps)" "distinct (psBackups ps)" "known ids c (psPrimary ps # psBackups ps)"
    and "UpdatePartitionLeader raft now c \<lparr>ulTopic = t, ulPartition = i, ulBrokerAddr = addr\<rparr> = (c', calls, r)"
    and "a \<in> set (psPrimary ps # psBackups ps)" "getPartition (cl a) t i = Inr p" "pLeaderEpoch p \<le> psEpoch ps"
  shows "\<exists>p'. getPartition (exec_calls disk dial calls cl a) t i = Inr p' \<and> pLog p' = pLog p \<and> pHw p' = pHw p
    \<and> (if a = addr then pRole p' = Leader \<and> pLeaderEpoch p' = psEpoch ps + 1
       else if brokerAlive now c a then pRole p' = Follower \<and> pLeaderBroker p' = ids addr \<and> pLeaderEpoch p' = psEpoch ps + 1
       else p' = p \<and> pLeaderEpoch p' < psEpoch ps + 1)"
proof -
  let ?s = "\<lparr>paPartition = i, paPrimary = addr, paBackups = remaining_backups ps addr\<rparr>"
  have b: "distinct (remaining_backups ps addr)" "set (remaining_backups ps addr) = set (psPrimary ps # psBackups ps) - {addr}"
    using assms(12-14) by (auto simp: remaining_backups_def)
  obtain c1 where c1: "UpdatePartitionLeader raft now c \<lparr>ulTopic = t, ulPartition = i, ulBrokerAddr = addr\<rparr> =
      (c1, assignLeaderRoles c1 t [?s] (psEpoch ps + 1) @ assignFollowerRoles now c1 t [?s] (psEpoch ps + 1), Inr ())"
    "\<And>a. brokerAlive now c1 a = brokerAlive now c a" "\<And>ids as. known ids c1 as = known ids c as"
    by (rule UpdatePartitionLeader_calls [where raft = raft and now = now, OF assms(1-10)]) blast
  have "known ids c1 (paPrimary ?s # paBackups ?s)"
    unfolding c1(3) using assms(12,15) b(2) by (auto simp: known_def list_all_iff)
  from leader_change_calls_at [OF this, of a t "psEpoch ps + 1" now] b
  have "filter (\<lambda>call. call_addr call = a) calls =
      (if a = addr then [CallAssignRole a (leader_request c1 t (psEpoch ps + 1) ?s)]
       else if brokerAlive now c a then [CallAssignRole a (follower_request ids t (psEpoch ps + 1) ?s)] else [])"
    using c1(1,2) assms(16,17) by auto
  moreover have ar: "getPartition (fst (AssignRole dial (cl a) req)) t i = Inr (change_role p (role_change_of req))"
    if "arRole req = LEADER \<or> arRole req = FOLLOWER" "arTopic req = t" "arPartition req = i" for req
    using AssignRole_exec [where dial = dial, OF assms(11) that(1), of "cl a" t i] that(2,3) assms(18) by simp
  ultimately have "getPartition (exec_calls disk dial calls cl a) t i =
      Inr (if a = addr then BecomeLeader p (psEpoch ps + 1) (arIsrIds (leader_request c1 t (psEpoch ps + 1) ?s))
        else if brokerAlive now c a then BecomeFollower p (ids addr) (psEpoch ps + 1) else p)"
    using ar [of "leader_request c1 t (psEpoch ps + 1) ?s"] ar [of "follower_request ids t (psEpoch ps + 1) ?s"] assms(18)
    by (auto simp: exec_calls_at leader_request_def follower_request_def role_change_of_def)
  then show ?thesis using assms(19)
    by (auto simp: BecomeLeader_def BecomeFollower_def epoch_accepted_def commitLeader_def commitFollower_def stopBackground_def)
qed


definition demo_replica :: broker where
  "demo_replica = fst (InitPartitions (\<lambda>_ _. Inr []) (New 1) \<lparr>ipTopic = ''t'', ipPartitions = [0]\<rparr>)"

theorem leader_change_is_deployed_witness:
  "\<exists>p'. getPartition (exec_calls (\<lambda>_ _. Inr []) (\<lambda>_. True) (fst (snd (UpdatePartitionLeader (\<lambda>_. Committed) 20000000000 demo_coordinator
        \<lparr>ulTopic = ''t'', ulPartition = 0, ulBrokerAddr = ''b:1''\<rparr>))) (\<lambda>_. demo_replica) ''b:1'') ''t'' 0 = Inr p'
    \<and> pRole p' = Leader \<and> pLeaderEpoch p' = 1 + 1"
proof -
  let ?u = "UpdatePartitionLeader (\<lambda>_. Committed) 20000000000 demo_coordinator \<lparr>ulTopic = ''t'', ulPartition = 0, ulBrokerAddr = ''b:1''\<rparr>"
  let ?ps = "\<lparr>psPrimary = ''a:1'', psBackups = [''b:1'', ''c:1''], psEpoch = 1, psISR = []\<rparr>"
  have h: "\<not> notLeader demo_coordinator" "cRaft demo_coordinator \<noteq> None" "FSM_Get (fsm_of demo_coordinator) ''t'' 0 = Some ?ps"
    "assignment_ok ''t'' 0 ?ps" "utf8_valid ''b:1''"
    "map_get (cTopics demo_coordinator) ''t'' = Some [\<lparr>piPartition = 0, piBrokerAddr = ''a:1''\<rparr>, \<lparr>piPartition = 1, piBrokerAddr = ''b:1''\<rparr>]"
    "known (\<lambda>a. if a = ''a:1'' then 1 else if a = ''b:1'' then 2 else 3) demo_coordinator (psPrimary ?ps # psBackups ?ps)"
    by code_simp+
  obtain p where p: "getPartition demo_replica ''t'' 0 = Inr p" "pLeaderEpoch p \<le> psEpoch ?ps"
  proof -
    have "case getPartition demo_replica ''t'' 0 of Inl _ \<Rightarrow> False | Inr p \<Rightarrow> pLeaderEpoch p \<le> psEpoch ?ps" by code_simp
    then show thesis using that by (auto split: sum.splits)
  qed
  have u: "?u = (fst ?u, fst (snd ?u), snd (snd ?u))" by simp
  from leader_change_is_deployed [where raft = "\<lambda>_. Committed" and dial = "\<lambda>_. True" and cl = "\<lambda>_. demo_replica" and a = "''b:1''"
      and disk = "\<lambda>_ _. Inr []", OF h(1-4) _ h(5) _ h(6) _ _ _ _ _ _ h(7) u _ p]
  show ?thesis by auto
qed

end
