(* ===== verification/Telemetry.thy ===== *)
theory Telemetry
  imports Refinement Coordinator
begin

text \<open>
  RPC logging.  src/internal/telemetry/grpc.go: the interceptors a gRPC server calls around every
  handler.  src/internal/raft/telemetry.go: the transport that sits between the Raft library and its
  network to log incoming RPCs, as a step relation of the goroutines involved.
\<close>

subsection \<open>The gRPC interceptors\<close>

datatype grpc_request =
    ProduceRequest produce_request
  | FetchRequest fetch_request
  | FetchReplicaRequest fetch_replica_request
  | AssignRoleRequest assign_role_request
  | CreateTopicRequest create_topic_request
  | UpdatePartitionLeaderRequest update_leader_request
  | AlterIsrRequest alter_isr_request
  | OtherRequest

fun extractReqInfo :: "grpc_request \<Rightarrow> string \<times> int" where
  "extractReqInfo (ProduceRequest r) = (prTopic r, prPartition r)"
| "extractReqInfo (FetchRequest r) = (feTopic r, fePartition r)"
| "extractReqInfo (FetchReplicaRequest r) = (frTopic r, frPartition r)"
| "extractReqInfo (AssignRoleRequest r) = (arTopic r, arPartition r)"
| "extractReqInfo (CreateTopicRequest r) = (ctTopic r, 0)"
| "extractReqInfo (UpdatePartitionLeaderRequest r) = (ulTopic r, ulPartition r)"
| "extractReqInfo (AlterIsrRequest r) = (aiTopic r, aiPartition r)"
| "extractReqInfo OtherRequest = ('''', 0)"

datatype log_line =
    UnaryTopicLine string string int int "go_error option"
  | UnaryLine string int "go_error option"
  | StreamLine string int "go_error option"

definition err_of :: "'a result \<Rightarrow> go_error option" where
  "err_of r = (case r of Inl e \<Rightarrow> Some e | Inr _ \<Rightarrow> None)"

text \<open>
  The server's state is \<open>s\<close>, the lines logged so far are \<open>ls\<close>; \<open>logger\<close> says whether there is a logger.
  \<open>start\<close> and \<open>stop\<close> are the two readings of the clock.
\<close>

definition LoggingUnaryInterceptor :: "bool \<Rightarrow> int \<Rightarrow> int \<Rightarrow> string \<Rightarrow> (grpc_request \<Rightarrow> 's \<Rightarrow> 's \<times> 'r result) \<Rightarrow>
    grpc_request \<Rightarrow> 's \<Rightarrow> log_line list \<Rightarrow> ('s \<times> 'r result) \<times> log_line list" where
  "LoggingUnaryInterceptor logger start stop method handler req s ls =
     (if \<not> logger then (handler req s, ls)
      else let (s', resp) = handler req s; latency = stop - start; (topic, partition) = extractReqInfo req
           in ((s', resp), ls @ [if topic \<noteq> '''' then UnaryTopicLine method topic partition latency (err_of resp)
                                 else UnaryLine method latency (err_of resp)]))"

definition LoggingStreamInterceptor :: "bool \<Rightarrow> int \<Rightarrow> int \<Rightarrow> string \<Rightarrow> ('s \<Rightarrow> 's \<times> unit result) \<Rightarrow>
    's \<Rightarrow> log_line list \<Rightarrow> ('s \<times> unit result) \<times> log_line list" where
  "LoggingStreamInterceptor logger start stop method handler s ls =
     (if \<not> logger then (handler s, ls)
      else let (s', err) = handler s in ((s', err), ls @ [StreamLine method (stop - start) (err_of err)]))"

subsection \<open>The logging transport of Raft\<close>

datatype raft_command = AppendEntriesRequest bytes | RequestVoteRequest bytes | InstallSnapshotRequest bytes
  | TimeoutNowRequest bytes | OtherCommand bytes

fun getRaftCommandType :: "raft_command \<Rightarrow> string" where
  "getRaftCommandType (AppendEntriesRequest _) = ''AppendEntries''"
| "getRaftCommandType (RequestVoteRequest _) = ''RequestVote''"
| "getRaftCommandType (InstallSnapshotRequest _) = ''InstallSnapshot''"
| "getRaftCommandType (TimeoutNowRequest _) = ''TimeoutNow''"
| "getRaftCommandType (OtherCommand _) = ''Unknown''"

text \<open>A channel made by the base transport, or by \<open>interceptConsumer\<close>.\<close>

datatype resp_chan = BaseChan nat | HookedChan nat

record rpc =
  rpcCommand :: raft_command
  rpcRespChan :: resp_chan

record rpc_response =
  respBody :: bytes
  respError :: "go_error option"

text \<open>
  \<open>tpIncoming\<close> is what the base consumer will still give, \<open>tpHeld\<close> the RPC with which \<open>interceptConsumer\<close> waits
  to send on the unbuffered \<open>consumeChan\<close>, \<open>tpConsumed\<close> what Raft has received from there.  \<open>tpWaiting\<close> are the
  forwarding goroutines.  \<open>tpAnswers\<close> is what Raft has sent on the hooked channels, which have room for
  the one response an RPC gets; \<open>tpReplies\<close> what was sent on the base transport's channels.  An RPC stands
  beside the channel that its own replaced.
\<close>

record transport =
  tpIncoming :: "rpc list"
  tpHeld :: "(rpc \<times> resp_chan) option"
  tpConsumed :: "(rpc \<times> resp_chan) list"
  tpWaiting :: "(string \<times> resp_chan \<times> resp_chan) list"
  tpAnswers :: "(resp_chan, rpc_response) gomap"
  tpReplies :: "(resp_chan \<times> rpc_response) list"
  tpLog :: "(string \<times> go_error option) list"
  tpNext :: nat

definition NewServerLoggingTransport :: "rpc list \<Rightarrow> transport" where
  "NewServerLoggingTransport rpcs = \<lparr>tpIncoming = rpcs, tpHeld = None, tpConsumed = [], tpWaiting = [], tpAnswers = [],
     tpReplies = [], tpLog = [], tpNext = 0\<rparr>"

text \<open>
  \<open>intercept\<close> and \<open>deliver\<close> are the loop of \<open>interceptConsumer\<close> before and after the send, \<open>forward\<close> is the body of
  a forwarding goroutine, \<open>respond\<close> is Raft's answer to an RPC it has received.
\<close>

inductive transport_step :: "transport \<Rightarrow> transport \<Rightarrow> bool" where
  intercept: "tpIncoming t = rpc # rest \<Longrightarrow> tpHeld t = None \<Longrightarrow>
    transport_step t (t\<lparr>tpIncoming := rest, tpNext := Suc (tpNext t),
      tpHeld := Some (rpc\<lparr>rpcRespChan := HookedChan (tpNext t)\<rparr>, rpcRespChan rpc)\<rparr>)"
| deliver: "tpHeld t = Some (rpc, orig) \<Longrightarrow>
    transport_step t (t\<lparr>tpHeld := None, tpConsumed := tpConsumed t @ [(rpc, orig)],
      tpWaiting := tpWaiting t @ [(getRaftCommandType (rpcCommand rpc), rpcRespChan rpc, orig)]\<rparr>)"
| respond: "(rpc, orig) \<in> set (tpConsumed t) \<Longrightarrow> map_get (tpAnswers t) (rpcRespChan rpc) = None \<Longrightarrow>
    transport_step t (t\<lparr>tpAnswers := map_put (rpcRespChan rpc) resp (tpAnswers t)\<rparr>)"
| forward: "(cType, hooked, orig) \<in> set (tpWaiting t) \<Longrightarrow> map_get (tpAnswers t) hooked = Some resp \<Longrightarrow>
    transport_step t (t\<lparr>tpWaiting := remove1 (cType, hooked, orig) (tpWaiting t),
      tpLog := tpLog t @ [(cType, respError resp)], tpReplies := tpReplies t @ [(orig, resp)]\<rparr>)"

inductive_cases transport_stepE: "transport_step s t"

text \<open>The specification: no interceptor, Raft receives from the base transport and replies on its channels.\<close>

record direct =
  dtIncoming :: "rpc list"
  dtConsumed :: "rpc list"
  dtReplies :: "(resp_chan \<times> rpc_response) list"

inductive direct_step :: "direct \<Rightarrow> direct \<Rightarrow> bool" where
  receive: "dtIncoming d = rpc # rest \<Longrightarrow> direct_step d (d\<lparr>dtIncoming := rest, dtConsumed := dtConsumed d @ [rpc]\<rparr>)"
| reply: "rpc \<in> set (dtConsumed d) \<Longrightarrow> rpcRespChan rpc \<notin> fst ` set (dtReplies d) \<Longrightarrow>
    direct_step d (d\<lparr>dtReplies := dtReplies d @ [(rpcRespChan rpc, resp)]\<rparr>)"

definition unhook :: "rpc \<times> resp_chan \<Rightarrow> rpc" where
  "unhook = (\<lambda>(rpc, orig). rpc\<lparr>rpcRespChan := orig\<rparr>)"

definition tp_held :: "transport \<Rightarrow> (rpc \<times> resp_chan) list" where
  "tp_held t = (case tpHeld t of None \<Rightarrow> [] | Some x \<Rightarrow> [x])"

definition tp_abs :: "transport \<Rightarrow> direct" where
  "tp_abs t = \<lparr>dtIncoming = map unhook (tp_held t) @ tpIncoming t, dtConsumed = map unhook (tpConsumed t), dtReplies = tpReplies t\<rparr>"

lemma unhook_chan [simp]: "rpcRespChan (unhook x) = snd x"
  by (simp add: unhook_def split: prod.splits)

section \<open>Invariant\<close>

definition hooks_ok :: "transport \<Rightarrow> bool" where
  "hooks_ok t \<longleftrightarrow> (\<forall>x \<in> set (tpConsumed t @ tp_held t). \<exists>k < tpNext t. rpcRespChan (fst x) = HookedChan k)
     \<and> distinct (map (rpcRespChan \<circ> fst) (tpConsumed t @ tp_held t))"

definition origs :: "transport \<Rightarrow> resp_chan list" where
  "origs t = map snd (tpConsumed t) @ map snd (tp_held t) @ map rpcRespChan (tpIncoming t)"

definition forwarder :: "rpc \<times> resp_chan \<Rightarrow> string \<times> resp_chan \<times> resp_chan" where
  "forwarder = (\<lambda>(rpc, orig). (getRaftCommandType (rpcCommand rpc), rpcRespChan rpc, orig))"

text \<open>Every RPC Raft has received either has its goroutine waiting, or its reply has been sent.\<close>

definition tp_inv :: "transport \<Rightarrow> bool" where
  "tp_inv t \<longleftrightarrow> hooks_ok t \<and> distinct (origs t) \<and> distinct (tpWaiting t)
     \<and> set (tpWaiting t) \<subseteq> forwarder ` set (tpConsumed t)
     \<and> (\<forall>x \<in> set (tpConsumed t). forwarder x \<in> set (tpWaiting t) \<longleftrightarrow> snd x \<notin> fst ` set (tpReplies t))
     \<and> (\<forall>(orig, r) \<in> set (tpReplies t). \<exists>rpc. (rpc, orig) \<in> set (tpConsumed t) \<and> map_get (tpAnswers t) (rpcRespChan rpc) = Some r)
     \<and> distinct (map fst (tpReplies t))
     \<and> map snd (tpLog t) = map (respError \<circ> snd) (tpReplies t)"

lemmas tp_simps = tp_inv_def hooks_ok_def origs_def tp_held_def


lemma consumed_unique:
  assumes "tp_inv t" "x \<in> set (tpConsumed t)" "y \<in> set (tpConsumed t)" "snd x = snd y \<or> rpcRespChan (fst x) = rpcRespChan (fst y)"
  shows "x = y"
proof -
  have "distinct (map snd (tpConsumed t))" "distinct (map (rpcRespChan \<circ> fst) (tpConsumed t))"
    using assms(1) by (simp_all add: tp_simps)
  then show ?thesis using assms(2-4) by (metis distinct_map inj_onD comp_apply)
qed

lemma inv_intercept:
  assumes "tp_inv t" "tpIncoming t = rpc # rest" "tpHeld t = None"
  shows "tp_inv (t\<lparr>tpIncoming := rest, tpNext := Suc (tpNext t),
      tpHeld := Some (rpc\<lparr>rpcRespChan := HookedChan (tpNext t)\<rparr>, rpcRespChan rpc)\<rparr>)"
proof -
  have old: "\<forall>x \<in> set (tpConsumed t). \<exists>k < tpNext t. rpcRespChan (fst x) = HookedChan k" using assms(1,3) by (simp add: tp_simps)
  then have "HookedChan (tpNext t) \<notin> (rpcRespChan \<circ> fst) ` set (tpConsumed t)" by fastforce
  moreover have "\<forall>x \<in> set (tpConsumed t). \<exists>k < Suc (tpNext t). rpcRespChan (fst x) = HookedChan k" using old less_SucI by blast
  ultimately show ?thesis using assms by (simp add: tp_simps)
qed

lemma replied:
  "tp_inv t \<Longrightarrow> (orig, r) \<in> set (tpReplies t) \<Longrightarrow> \<exists>rpc. (rpc, orig) \<in> set (tpConsumed t) \<and> map_get (tpAnswers t) (rpcRespChan rpc) = Some r"
  unfolding tp_inv_def by blast

lemma replied_consumed: "tp_inv t \<Longrightarrow> fst ` set (tpReplies t) \<subseteq> snd ` set (tpConsumed t)"
  by (force dest: replied)

lemma inv_deliver:
  assumes "tp_inv t" "tpHeld t = Some (rpc, orig)"
  shows "tp_inv (t\<lparr>tpHeld := None, tpConsumed := tpConsumed t @ [(rpc, orig)],
      tpWaiting := tpWaiting t @ [forwarder (rpc, orig)]\<rparr>)"
proof -
  have new: "rpcRespChan rpc \<notin> (rpcRespChan \<circ> fst) ` set (tpConsumed t)" "orig \<notin> snd ` set (tpConsumed t)"
    using assms by (auto simp: tp_simps)
  then have ne: "forwarder x \<noteq> forwarder (rpc, orig)" if "x \<in> set (tpConsumed t)" for x
    using that by (force simp: forwarder_def split: prod.splits)
  have sub: "set (tpWaiting t) \<subseteq> forwarder ` set (tpConsumed t)" using assms(1) unfolding tp_inv_def by blast
  have w: "forwarder (rpc, orig) \<notin> set (tpWaiting t)"
  proof
    assume "forwarder (rpc, orig) \<in> set (tpWaiting t)"
    with sub have "forwarder (rpc, orig) \<in> forwarder ` set (tpConsumed t)" by (rule subsetD)
    then obtain x where "x \<in> set (tpConsumed t)" "forwarder (rpc, orig) = forwarder x" by (rule imageE)
    then show False using ne [of x] by simp
  qed
  have "\<forall>x \<in> set (tpConsumed t). forwarder x \<in> set (tpWaiting t) \<longleftrightarrow> snd x \<notin> fst ` set (tpReplies t)"
    using assms(1) unfolding tp_inv_def by blast
  moreover have "orig \<notin> fst ` set (tpReplies t)" using replied_consumed [OF assms(1)] new(2) by blast
  ultimately have "\<forall>x \<in> set (tpConsumed t @ [(rpc, orig)]). forwarder x \<in> set (tpWaiting t @ [forwarder (rpc, orig)]) \<longleftrightarrow> snd x \<notin> fst ` set (tpReplies t)"
    using ne by simp
  moreover have "set (tpWaiting t @ [forwarder (rpc, orig)]) \<subseteq> forwarder ` set (tpConsumed t @ [(rpc, orig)])"
    using sub by auto
  moreover have "\<forall>(o', r) \<in> set (tpReplies t). \<exists>rpc'. (rpc', o') \<in> set (tpConsumed t @ [(rpc, orig)]) \<and> map_get (tpAnswers t) (rpcRespChan rpc') = Some r"
    using replied [OF assms(1)] by auto
  ultimately show ?thesis using assms w by (simp add: tp_simps)
qed

lemma inv_respond:
  assumes "tp_inv t" "map_get (tpAnswers t) c = None"
  shows "tp_inv (t\<lparr>tpAnswers := map_put c resp (tpAnswers t)\<rparr>)"
proof -
  have "\<forall>(orig, r) \<in> set (tpReplies t). \<exists>rpc. (rpc, orig) \<in> set (tpConsumed t)
      \<and> map_get (map_put c resp (tpAnswers t)) (rpcRespChan rpc) = Some r"
    using replied [OF assms(1)] assms(2) by (fastforce simp: go_map)
  then show ?thesis using assms(1) by (simp add: tp_simps)
qed

lemma inv_forward:
  assumes "tp_inv t" "x \<in> set (tpConsumed t)" "forwarder x \<in> set (tpWaiting t)" "map_get (tpAnswers t) (rpcRespChan (fst x)) = Some resp"
  shows "tp_inv (t\<lparr>tpWaiting := remove1 (forwarder x) (tpWaiting t), tpLog := tpLog t @ [(cType, respError resp)],
      tpReplies := tpReplies t @ [(snd x, resp)]\<rparr>)"
proof -
  have new: "snd x \<notin> fst ` set (tpReplies t)" using assms(1-3) by (simp add: tp_inv_def)
  have "distinct (tpWaiting t)" using assms(1) by (simp add: tp_inv_def)
  then have w: "set (remove1 (forwarder x) (tpWaiting t)) = set (tpWaiting t) - {forwarder x}" by simp
  have "forwarder y = forwarder x \<longleftrightarrow> snd y = snd x" if "y \<in> set (tpConsumed t)" for y
    using consumed_unique [OF assms(1) that assms(2)] by (auto simp: forwarder_def split: prod.splits)
  then have "\<forall>y \<in> set (tpConsumed t). forwarder y \<in> set (remove1 (forwarder x) (tpWaiting t)) \<longleftrightarrow> snd y \<notin> fst ` set (tpReplies t @ [(snd x, resp)])"
    using assms(1) unfolding w by (auto simp: tp_inv_def)
  moreover have "set (remove1 (forwarder x) (tpWaiting t)) \<subseteq> forwarder ` set (tpConsumed t)"
    using assms(1) unfolding w by (auto simp: tp_inv_def)
  moreover have "\<exists>rpc. (rpc, snd x) \<in> set (tpConsumed t) \<and> map_get (tpAnswers t) (rpcRespChan rpc) = Some resp"
    using assms(2,4) by (metis prod.collapse)
  ultimately show ?thesis using assms(1) new by (simp add: tp_simps)
qed

lemma waiting_forwarder:
  assumes "tp_inv t" "(cType, hooked, orig) \<in> set (tpWaiting t)"
  obtains x where "x \<in> set (tpConsumed t)" "(cType, hooked, orig) = forwarder x" "hooked = rpcRespChan (fst x)" "orig = snd x"
proof -
  obtain x where "x \<in> set (tpConsumed t)" "(cType, hooked, orig) = forwarder x" using assms unfolding tp_inv_def by blast
  then show thesis by (intro that [of x]) (auto simp: forwarder_def split: prod.splits)
qed

lemma tp_step_inv:
  assumes "tp_inv s" "transport_step s t"
  shows "tp_inv t"
  using assms(2)
proof (cases rule: transport_step.cases)
  case (deliver rpc orig)
  then show ?thesis using inv_deliver [OF assms(1), of rpc orig] by (simp add: forwarder_def)
next
  case (forward cType hooked orig resp)
  then show ?thesis by (metis waiting_forwarder [OF assms(1)] inv_forward [OF assms(1)])
qed (use assms(1) inv_intercept inv_respond in simp_all)

lemma tp_step_abs:
  assumes "tp_inv s" "transport_step s t"
  shows "direct_step\<^sup>*\<^sup>* (tp_abs s) (tp_abs t)"
  using assms(2)
proof (cases rule: transport_step.cases)
  case (deliver rpc orig)
  then have "direct_step (tp_abs s) (tp_abs t)"
    using direct_step.receive [of "tp_abs s" "unhook (rpc, orig)" "tpIncoming s"] by (simp add: tp_abs_def tp_held_def)
  then show ?thesis ..
next
  case (forward cType hooked orig resp)
  from waiting_forwarder [OF assms(1) forward(2)] obtain x where x: "x \<in> set (tpConsumed s)" "orig = snd x"
    "forwarder x \<in> set (tpWaiting s)" using forward(2) by metis
  have "snd x \<notin> fst ` set (tpReplies s)" using assms(1) x by (simp add: tp_inv_def)
  then have "direct_step (tp_abs s) (tp_abs t)"
    using direct_step.reply [of "unhook x" "tp_abs s" resp] x forward(1) by (simp add: tp_abs_def tp_held_def)
  then show ?thesis ..
qed (simp_all add: tp_abs_def tp_held_def unhook_def)

interpretation logging_transport: refinement transport_step tp_inv direct_step tp_abs
  by unfold_locales (rule tp_step_inv tp_step_abs; assumption)+


section \<open>Properties\<close>

lemma tp_inv_init: "distinct (map rpcRespChan rpcs) \<Longrightarrow> tp_inv (NewServerLoggingTransport rpcs)"
  by (simp add: tp_simps NewServerLoggingTransport_def)

definition direct_init :: "rpc list \<Rightarrow> direct" where
  "direct_init rpcs = \<lparr>dtIncoming = rpcs, dtConsumed = [], dtReplies = []\<rparr>"

lemma tp_abs_init: "tp_abs (NewServerLoggingTransport rpcs) = direct_init rpcs"
  by (simp add: tp_abs_def tp_held_def NewServerLoggingTransport_def direct_init_def)

text \<open>Without the interceptor, no RPC is lost, duplicated or overtaken.\<close>

lemma direct_order:
  assumes "direct_step\<^sup>*\<^sup>* d e"
  shows "dtConsumed e @ dtIncoming e = dtConsumed d @ dtIncoming d"
  using assms by (induction rule: rtranclp_induct) (auto elim: direct_step.cases)

lemma answered_progress:
  assumes "tp_inv t" "(rpc, orig) \<in> set (tpConsumed t)" "map_get (tpAnswers t) (rpcRespChan rpc) = Some r"
  shows "(orig, r) \<in> set (tpReplies t) \<or> (\<exists>t'. transport_step t t' \<and> tpReplies t' = tpReplies t @ [(orig, r)])"
proof (cases "orig \<in> fst ` set (tpReplies t)")
  case True
  then obtain r' where "(orig, r') \<in> set (tpReplies t)" by auto
  moreover from this obtain rpc' where "(rpc', orig) \<in> set (tpConsumed t)" "map_get (tpAnswers t) (rpcRespChan rpc') = Some r'"
    using assms(1) unfolding tp_inv_def by blast
  moreover from this have "rpc' = rpc" using consumed_unique [OF assms(1,2), of "(rpc', orig)"] by simp
  ultimately show ?thesis using assms(3) by simp
next
  case False
  then have "forwarder (rpc, orig) \<in> set (tpWaiting t)" using assms(1,2) by (fastforce simp: tp_inv_def)
  then show ?thesis
    using transport_step.forward [of "getRaftCommandType (rpcCommand rpc)" "rpcRespChan rpc" orig t r] assms(3)
    by (fastforce simp: forwarder_def)
qed

text \<open>
  C29: The logging transport is transparent: in every interleaving of its goroutines with Raft, what happens
  is a behaviour of the bare transport; the RPCs Raft has received, with their own channels, are the ones
  that came in, in order, none lost or duplicated; every reply on a base channel is the answer Raft gave
  to that RPC and is given once; and every answer has arrived or can be forwarded right away.
\<close>

theorem logging_transport_transparent:
  assumes "distinct (map rpcRespChan rpcs)" "transport_step\<^sup>*\<^sup>* (NewServerLoggingTransport rpcs) t"
  shows "direct_step\<^sup>*\<^sup>* (direct_init rpcs) (tp_abs t)
    \<and> map unhook (tpConsumed t @ tp_held t) @ tpIncoming t = rpcs
    \<and> distinct (map fst (tpReplies t))
    \<and> (\<forall>(orig, r) \<in> set (tpReplies t). \<exists>rpc. (rpc, orig) \<in> set (tpConsumed t) \<and> map_get (tpAnswers t) (rpcRespChan rpc) = Some r)
    \<and> (\<forall>(rpc, orig) \<in> set (tpConsumed t). \<forall>r. map_get (tpAnswers t) (rpcRespChan rpc) = Some r \<longrightarrow>
         (orig, r) \<in> set (tpReplies t) \<or> (\<exists>t'. transport_step t t' \<and> tpReplies t' = tpReplies t @ [(orig, r)]))"
proof -
  have run: "tp_inv t" "direct_step\<^sup>*\<^sup>* (direct_init rpcs) (tp_abs t)"
    using logging_transport.run [OF assms(2) tp_inv_init [OF assms(1)]] by (simp_all add: tp_abs_init)
  from direct_order [OF run(2)] have "map unhook (tpConsumed t @ tp_held t) @ tpIncoming t = rpcs"
    by (simp add: tp_abs_def direct_init_def)
  then show ?thesis using run answered_progress [OF run(1)] by (auto simp: tp_inv_def)
qed

definition demo_rpc :: rpc where
  "demo_rpc = \<lparr>rpcCommand = RequestVoteRequest ''v'', rpcRespChan = BaseChan 0\<rparr>"

theorem logging_transport_transparent_witness:
  "\<exists>t. transport_step\<^sup>*\<^sup>* (NewServerLoggingTransport [demo_rpc]) t \<and> tpAnswers t = [(HookedChan 0, \<lparr>respBody = [], respError = None\<rparr>)]
     \<and> tpReplies t = [] \<and> (\<exists>t'. transport_step t t' \<and> tpReplies t' = [(BaseChan 0, \<lparr>respBody = [], respError = None\<rparr>)])"
proof -
  let ?r = "\<lparr>respBody = [], respError = None\<rparr>" and ?h = "demo_rpc\<lparr>rpcRespChan := HookedChan 0\<rparr>"
  define t0 where "t0 = NewServerLoggingTransport [demo_rpc]"
  define t1 where "t1 = t0\<lparr>tpIncoming := [], tpNext := 1, tpHeld := Some (?h, BaseChan 0)\<rparr>"
  define t2 where "t2 = t1\<lparr>tpHeld := None, tpConsumed := [(?h, BaseChan 0)], tpWaiting := [(''RequestVote'', HookedChan 0, BaseChan 0)]\<rparr>"
  define t3 where "t3 = t2\<lparr>tpAnswers := [(HookedChan 0, ?r)]\<rparr>"
  note defs = t0_def t1_def t2_def t3_def NewServerLoggingTransport_def demo_rpc_def
  have "transport_step t0 t1" using transport_step.intercept [of t0 demo_rpc "[]"] by (simp add: defs)
  moreover have "transport_step t1 t2" using transport_step.deliver [of t1 ?h "BaseChan 0"] by (simp add: defs)
  moreover have "transport_step t2 t3" using transport_step.respond [of ?h "BaseChan 0" t2 ?r] by (simp add: defs)
  ultimately have run: "transport_step\<^sup>*\<^sup>* (NewServerLoggingTransport [demo_rpc]) t3"
    unfolding t0_def [symmetric] by (meson converse_rtranclp_into_rtranclp rtranclp.rtrancl_refl)
  have "distinct (map rpcRespChan [demo_rpc])" by simp
  from logging_transport_transparent [OF this run] have
    "\<exists>t'. transport_step t3 t' \<and> tpReplies t' = [(BaseChan 0, ?r)]" by (simp add: defs)
  then show ?thesis using run by (intro exI [of _ t3]) (simp add: defs)
qed

text \<open>
  The interceptors are transparent: with a logger or without, the handler runs once on the same state
  and its response or error reaches the client unchanged; with a logger every call adds one line, which
  names the topic and partition of the request when it has a topic.
\<close>

lemma interceptors_transparent:
  "fst (LoggingUnaryInterceptor logger start stop method handler req s ls) = handler req s
   \<and> fst (LoggingStreamInterceptor logger start stop method shandler s ls) = shandler s
   \<and> snd (LoggingUnaryInterceptor False start stop method handler req s ls) = ls
   \<and> snd (LoggingUnaryInterceptor True start stop method handler req s ls) =
       ls @ [if fst (extractReqInfo req) = '''' then UnaryLine method (stop - start) (err_of (snd (handler req s)))
             else UnaryTopicLine method (fst (extractReqInfo req)) (snd (extractReqInfo req)) (stop - start) (err_of (snd (handler req s)))]
   \<and> snd (LoggingStreamInterceptor True start stop method shandler s ls) = ls @ [StreamLine method (stop - start) (err_of (snd (shandler s)))]"
  by (simp add: LoggingUnaryInterceptor_def LoggingStreamInterceptor_def Let_def split: prod.splits)

end
