(* ===== verification/Consumer_Group.thy ===== *)
theory Consumer_Group
  imports Commands
begin

text \<open>
  A consumer group as a whole: the coordinator that divides the partitions of a topic among the members
  (src/internal/coordinator/coordinator.go, \<open>JoinGroup\<close>) together with the members, each of which runs the consume
  command (src/cmd/cli/main.go) on the consumer of src/internal/consumer/consumer.go.
\<close>

section \<open>The coordinator's side\<close>

text \<open>A member that asks again gets the same partitions and leaves the coordinator as it was.\<close>

lemma JoinGroup_again:
  assumes "map_get (cGroups c) G = Some g" "map_get (cTopics c) t = Some parts"
    and "rebalance (int (length (sortedKeys g))) (int (length parts)) 0 (sortedKeys g) g = Inr g"
    and "is_int32 (int (length (sortedKeys g)))" "is_int32 (int (length parts))" "map_get g m = Some ps" "G \<noteq> ''''" "m \<noteq> ''''" "t \<noteq> ''''"
  shows "JoinGroup c \<lparr>jgGroupId = G, jgMemberId = m, jgTopic = t\<rparr> = (c, Inr ps)"
  using assms int32_id [OF assms(4)] int32_id [OF assms(5)] by (simp add: JoinGroup_def Let_def update_triv)

lemma concat_owner:
  assumes "distinct (concat (map f ms))" "distinct ms" "a \<in> set ms" "b \<in> set ms" "x \<in> set (f a)" "x \<in> set (f b)"
  shows "a = b"
  using assms by (induction ms) auto

text \<open>The partitions of a group with at least one partition for each member.\<close>

lemma group_shares:
  assumes "concat (map (\<lambda>m. the (map_get g m)) (sortedKeys g)) = [0..int n - 1]" "distinct (sortedKeys g)"
    and "\<forall>m \<in> set (sortedKeys g). \<exists>r. map_get g m = Some r
         \<and> int (length r) \<in> {int n div int (length (sortedKeys g)), int n div int (length (sortedKeys g)) + 1}"
    and "length (sortedKeys g) \<le> n"
  shows "m \<in> set (sortedKeys g) \<Longrightarrow> \<exists>r. map_get g m = Some r \<and> r \<noteq> [] \<and> distinct r \<and> set r \<subseteq> {0..<int n}"
    and "i \<in> {0..<int n} \<Longrightarrow> \<exists>!m. m \<in> set (sortedKeys g) \<and> i \<in> set (the (map_get g m))"
proof -
  let ?f = "\<lambda>m. the (map_get g m)" and ?ms = "sortedKeys g"
  have d: "distinct (concat (map ?f ?ms))" using assms(1) by simp
  have all: "(\<Union>m \<in> set ?ms. set (?f m)) = {0..<int n}" using arg_cong [OF assms(1), of set] by auto
  show "\<exists>r. map_get g m = Some r \<and> r \<noteq> [] \<and> distinct r \<and> set r \<subseteq> {0..<int n}" if m: "m \<in> set ?ms"
  proof -
    have "0 < length ?ms" using m by (metis length_pos_if_in_set)
    then have "1 \<le> int n div int (length ?ms)" using assms(4) by (simp add: pos_imp_zdiv_pos_iff int_one_le_iff_zero_less)
    moreover have "distinct (?f m)" using d m by (auto simp: distinct_concat_iff)
    moreover have "set (?f m) \<subseteq> {0..<int n}" using all m by blast
    moreover obtain r where "map_get g m = Some r" "int (length r) \<in> {int n div int (length ?ms), int n div int (length ?ms) + 1}"
      using assms(3) m by blast
    ultimately show ?thesis by (intro exI [of _ r]) auto
  qed
  show "\<exists>!m. m \<in> set ?ms \<and> i \<in> set (?f m)" if "i \<in> {0..<int n}"
    using that all concat_owner [OF d assms(2)] by (auto intro!: ex_ex1I)
qed

section \<open>The group\<close>

text \<open>What a member has printed, and the offsets it has committed, when its loop ends.\<close>

definition printed :: "consumer \<times> (int \<times> message) list \<times> commit_offsets_request list \<times> loop_end \<Rightarrow> (int \<times> message) list" where
  "printed run = fst (snd run)"

definition commits :: "consumer \<times> (int \<times> message) list \<times> commit_offsets_request list \<times> loop_end \<Rightarrow> commit_offsets_request list" where
  "commits run = fst (snd (snd run))"

text \<open>A member that a signal stopped has committed, with auto-commit on, exactly what it printed.\<close>

definition committed_all :: "int \<Rightarrow> consumer \<times> (int \<times> message) list \<times> commit_offsets_request list \<times> loop_end \<Rightarrow> bool" where
  "committed_all commitEvery run \<longleftrightarrow> (snd (snd (snd run)) = Stopped \<longrightarrow> 0 < commitEvery \<longrightarrow> commits run \<noteq> []
     \<and> list_all (\<lambda>(i, off). off = int (length (of_partition i (printed run)))) (coOffsets (last (commits run))))"

lemma of_partition_none: "i \<notin> fst ` set ms \<Longrightarrow> of_partition i ms = []"
  by (force simp: of_partition_def filter_empty_conv)

text \<open>One member, whose requests the coordinator answers with \<open>r\<close>.\<close>

lemma member_run:
  assumes "JoinGroup c1 \<lparr>jgGroupId = G, jgMemberId = m, jgTopic = t\<rparr> = (c1, Inr r)" "r \<noteq> []" "distinct r" "set r \<subseteq> piPartition ` set infos"
    and "getMeta t = Inr infos" "gomap_ok (map (\<lambda>pi. (piPartition pi, piBrokerAddr pi)) infos)" "\<And>a. dial a"
    and "brokers_serve net src t infos" "int (length evs) < 2 ^ 63"
  shows "\<exists>run. runConsumeGroup net dial (\<lambda>req. snd (JoinGroup c1 req)) getMeta now brokerAddr t G m commitEvery evs as = Inr run
    \<and> committed_all commitEvery run \<and> fst ` set (printed run) \<subseteq> set r
    \<and> (\<forall>i \<in> set r. of_partition i (printed run) = take (length (of_partition i (printed run))) (committed (src i)))"
proof -
  have "snd (JoinGroup c1 \<lparr>jgGroupId = G, jgMemberId = m, jgTopic = t\<rparr>) = Inr r" using assms(1) by simp
  from group_consume_exactly_once [where join = "\<lambda>req. snd (JoinGroup c1 req)" and getMeta = getMeta and dial = dial and src = src and net = net
      and ?now0.0 = now and brokerAddr = brokerAddr and commitEvery = commitEvery and as = as, OF this assms(2,3,5,6,4,7-9)]
  obtain c' ms cs st where run: "runConsumeGroup net dial (\<lambda>req. snd (JoinGroup c1 req)) getMeta now brokerAddr t G m commitEvery evs as = Inr (c', ms, cs, st)"
    "fst ` set ms \<subseteq> set r" "\<forall>i \<in> set r. of_partition i ms = take (length (of_partition i ms)) (committed (src i))"
    "st = Stopped \<longrightarrow> 0 < commitEvery \<longrightarrow> cs \<noteq> [] \<and> coOffsets (last cs) = map (\<lambda>i. (i, int (length (of_partition i ms)))) r"
    by (elim exE conjE) (rule that)
  then have "committed_all commitEvery (c', ms, cs, st)" by (auto simp: committed_all_def commits_def printed_def list_all_iff)
  then show ?thesis using run(1-3) by (intro exI [of _ "(c', ms, cs, st)"]) (simp add: printed_def)
qed

text \<open>A partition that one member owns is printed by that member alone.\<close>

lemma one_reader:
  assumes "\<exists>!m. m \<in> S \<and> i \<in> set (own m)" "\<And>m. m \<in> S \<Longrightarrow> fst ` set (out m) \<subseteq> set (own m)"
    and "\<And>m. m \<in> S \<Longrightarrow> \<forall>i \<in> set (own m). P m i"
  shows "\<exists>m \<in> S. P m i \<and> (\<forall>m' \<in> S. m' \<noteq> m \<longrightarrow> of_partition i (out m') = [])"
proof -
  obtain m where m: "m \<in> S" "i \<in> set (own m)" "\<And>m'. m' \<in> S \<Longrightarrow> i \<in> set (own m') \<Longrightarrow> m' = m" using assms(1) by blast
  have "of_partition i (out m') = []" if "m' \<in> S" "m' \<noteq> m" for m'
    using m(3) [OF that(1)] that assms(2) [OF that(1)] by (intro of_partition_none) blast
  then show ?thesis using m(1,2) assms(3) [OF m(1)] by blast
qed


definition demo_group :: coordinator where
  "demo_group = fst (JoinGroup demo_created \<lparr>jgGroupId = ''g'', jgMemberId = ''m1'', jgTopic = ''t''\<rparr>)"

definition demo_joined :: coordinator where
  "demo_joined = fst (JoinGroup demo_group \<lparr>jgGroupId = ''g'', jgMemberId = ''m2'', jgTopic = ''t''\<rparr>)"


end
