(* ===== verification/Bench.thy ===== *)
theory Bench
  imports Producer Consumer "HOL-Library.Sublist"
begin

text \<open>
  The throughput tool, src/cmd/throughput/main.go: making sure the topic exists, checking that its
  partitions are spread evenly, finding the broker of each partition, the worker that consumes one
  partition across failovers, and the latency percentiles.  A \<open>time.Duration\<close> is an \<open>int\<close> of
  nanoseconds; the floating-point conversion for printing is left out.
\<close>

subsection \<open>Creating the topic\<close>

text \<open>
  \<open>create addr\<close> is what \<open>CreateTopic\<close> on the coordinator at \<open>addr\<close> answers, \<open>brokerCreate\<close> the same for the
  broker.  The loop returns the error of the last coordinator that could not be used.
\<close>

fun ensureTopic_loop :: "(string \<Rightarrow> bool) \<Rightarrow> (string \<Rightarrow> unit result) \<Rightarrow> string list \<Rightarrow> unit result" where
  "ensureTopic_loop dial create [] = Inl (OtherError ''no coordinator accepted CreateTopic'')"
| "ensureTopic_loop dial create (raw # addrs) =
     (let addr = TrimSpace raw
      in if \<not> dial addr then ensureTopic_loop dial create addrs
         else case create addr of
           Inr _ \<Rightarrow> Inr ()
         | Inl e \<Rightarrow> if e = Status AlreadyExists then Inr ()
                   else if e = Status FailedPrecondition then ensureTopic_loop dial create addrs
                   else Inl e)"

definition ensureTopic :: "(string \<Rightarrow> bool) \<Rightarrow> (string \<Rightarrow> create_topic_request \<Rightarrow> unit result) \<Rightarrow>
    (string \<Rightarrow> create_topic_request \<Rightarrow> unit result) \<Rightarrow> string \<Rightarrow> string \<Rightarrow> string \<Rightarrow> int \<Rightarrow> unit result" where
  "ensureTopic dial brokerCreate coordCreate brokerAddr coordAddrs topic partitions =
     (let req = \<lparr>ctTopic = topic, ctPartitions = partitions, ctReplicationFactor = 0\<rparr>
      in if coordAddrs = '''' then
           (if \<not> dial brokerAddr then Inl (OtherError ''dial'')
            else case brokerCreate brokerAddr req of
              Inl e \<Rightarrow> if e = Status AlreadyExists then Inr () else Inl e
            | Inr _ \<Rightarrow> Inr ())
         else ensureTopic_loop dial (\<lambda>a. coordCreate a req) (split_comma coordAddrs))"

subsection \<open>The layout of partitions\<close>

text \<open>
  The first coordinator that answers; \<open>skipEmpty\<close> is what distinguishes \<open>fetchPartBroker\<close>, which skips
  empty addresses, from \<open>checkPartitionLayout\<close>.  A nil or empty list of partitions counts as no answer.
\<close>

fun first_metadata :: "(string \<Rightarrow> bool) \<Rightarrow> (string \<Rightarrow> partition_info list result) \<Rightarrow> bool \<Rightarrow> string list \<Rightarrow> partition_info list" where
  "first_metadata dial getMeta skipEmpty [] = []"
| "first_metadata dial getMeta skipEmpty (raw # addrs) =
     (let addr = TrimSpace raw
      in if skipEmpty \<and> addr = '''' then first_metadata dial getMeta skipEmpty addrs
         else if \<not> dial addr then first_metadata dial getMeta skipEmpty addrs
         else case getMeta addr of
           Inl e \<Rightarrow> first_metadata dial getMeta skipEmpty addrs
         | Inr parts \<Rightarrow> parts)"

definition count_brokers :: "partition_info list \<Rightarrow> (string, int) gomap" where
  "count_brokers parts = fold (\<lambda>p m. map_put (piBrokerAddr p) ((case map_get m (piBrokerAddr p) of None \<Rightarrow> 0 | Some n \<Rightarrow> n) + 1) m) parts []"

text \<open>The check on a list of partitions: the brokers with more than their share.\<close>

definition uneven :: "partition_info list \<Rightarrow> (string \<times> int) list" where
  "uneven parts =
     (let brokerCount = count_brokers parts; numBrokers = int (length brokerCount); numParts = int (length parts);
          ceil = (numParts + numBrokers - 1) div numBrokers
      in filter (\<lambda>(addr, count). count > ceil) brokerCount)"

definition layout_error :: "partition_info list \<Rightarrow> unit result" where
  "layout_error parts =
     (if parts = [] then Inl (OtherError ''no partition info returned'')
      else if uneven (sort_key piPartition parts) \<noteq> [] then Inl (OtherError ''uneven distribution'')
      else Inr ())"

definition checkPartitionLayout :: "(string \<Rightarrow> bool) \<Rightarrow> (string \<Rightarrow> partition_info list result) \<Rightarrow> string \<Rightarrow> string \<Rightarrow> unit result" where
  "checkPartitionLayout dial getMeta brokerAddr coordAddrs =
     (let parts = (if coordAddrs \<noteq> '''' then first_metadata dial getMeta False (split_comma coordAddrs) else [])
      in if parts \<noteq> [] then layout_error parts
         else if \<not> dial brokerAddr then Inl (OtherError ''dial broker'')
         else case getMeta brokerAddr of Inl e \<Rightarrow> Inl e | Inr ps \<Rightarrow> layout_error ps)"

definition fetchPartBroker :: "(string \<Rightarrow> bool) \<Rightarrow> (string \<Rightarrow> partition_info list result) \<Rightarrow> string \<Rightarrow> string \<Rightarrow>
    (int, string) gomap \<Rightarrow> (int, string) gomap" where
  "fetchPartBroker dial getMeta brokerAddr coordAddrs partBroker =
     (let store = (\<lambda>parts. fold (\<lambda>p m. map_put (piPartition p) (piBrokerAddr p) m) parts partBroker);
          parts = (if coordAddrs \<noteq> '''' then first_metadata dial getMeta True (split_comma coordAddrs) else [])
      in if parts \<noteq> [] then store parts
         else if \<not> dial brokerAddr then partBroker
         else case getMeta brokerAddr of Inl e \<Rightarrow> partBroker | Inr ps \<Rightarrow> store ps)"

subsection \<open>Consuming one partition\<close>

text \<open>
  The consumer goroutine.  A round is one iteration of its outer loop: what the other goroutines stored
  in the shared map before it reads its broker's address, the network it meets, the answers to its calls
  of \<open>Fetch\<close> and \<open>Recv\<close>, and the metadata it finds when it refreshes the map itself.  The context of the run
  is cancelled when \<open>n\<close> more polls have returned; a poll that is still blocked when its answers are used up
  stays so until then.
\<close>

record bench_round =
  brOthers :: "(string \<Rightarrow> partition_info list result) list"
  brNet :: "string \<Rightarrow> fetch_request \<Rightarrow> nat \<Rightarrow> message option"
  brAnswers :: "answer list"
  brMeta :: "string \<Rightarrow> partition_info list result"

fun bench_loop :: "(string \<Rightarrow> fetch_request \<Rightarrow> nat \<Rightarrow> message option) \<Rightarrow> nat \<Rightarrow> answer list \<Rightarrow> partition_reader \<Rightarrow> int \<Rightarrow>
    nat \<times> int \<times> message list" where
  "bench_loop net 0 as pr resumeOffset = (0, resumeOffset, [])"
| "bench_loop net (Suc n) as pr resumeOffset = (case reader_poll net as pr of
      None \<Rightarrow> (0, resumeOffset, [])
    | Some (pr', as', r) \<Rightarrow> (case r of
          Inl e \<Rightarrow> (n, resumeOffset, [])
        | Inr msg \<Rightarrow> (case bench_loop net n as' pr' (int64 (msgOffset msg + 1)) of (n', off, got) \<Rightarrow> (n', off, msg # got))))"

fun bench_worker :: "(string \<Rightarrow> bool) \<Rightarrow> string \<Rightarrow> string \<Rightarrow> string \<Rightarrow> int \<Rightarrow> bench_round list \<Rightarrow> nat \<Rightarrow>
    (int, string) gomap \<Rightarrow> int \<Rightarrow> (int, string) gomap \<times> int \<times> message list" where
  "bench_worker dial brokerAddr coordAddrs topic i [] n partBroker resumeOffset = (partBroker, resumeOffset, [])"
| "bench_worker dial brokerAddr coordAddrs topic i (r # rs) n partBroker resumeOffset =
     (if n = 0 then (partBroker, resumeOffset, [])
      else let pb = fold (\<lambda>getMeta pb. fetchPartBroker dial getMeta brokerAddr coordAddrs pb) (brOthers r) partBroker;
               addr = (case map_get pb i of None \<Rightarrow> '''' | Some a \<Rightarrow> a);
               refreshed = fetchPartBroker dial (brMeta r) brokerAddr coordAddrs pb
           in if addr = '''' then bench_worker dial brokerAddr coordAddrs topic i rs n refreshed resumeOffset
              else case consumer_New dial addr topic i resumeOffset of
                Inl e \<Rightarrow> bench_worker dial brokerAddr coordAddrs topic i rs n pb resumeOffset
              | Inr c \<Rightarrow> (case bench_loop (brNet r) n (brAnswers r) (cnSelf c) resumeOffset of
                   (n', off, got) \<Rightarrow> (case bench_worker dial brokerAddr coordAddrs topic i rs n'
                       (if n' = 0 then pb else refreshed) off of
                     (pb', off', got') \<Rightarrow> (pb', off', got @ got'))))"

subsection \<open>Percentiles\<close>

definition clamp :: "int \<Rightarrow> int \<Rightarrow> int \<Rightarrow> int" where
  "clamp v lo hi = (if v < lo then lo else if v > hi then hi else v)"

definition percentile :: "int \<Rightarrow> int \<Rightarrow> int list \<Rightarrow> int result" where
  "percentile num den samples =
     (let n = int (length samples); i = clamp (int64 (n * num) sdiv den) 0 (n - 1)
      in if i < 0 \<or> n \<le> i then Inl GoPanic else Inr (sort samples ! nat i))"


section \<open>Percentiles\<close>

lemma sorted_count_le:
  assumes "sorted xs" "k < length xs"
  shows "k < length (filter (\<lambda>x. x \<le> xs ! k) xs)"
proof -
  have "filter (\<lambda>x. x \<le> xs ! k) (take (Suc k) xs) = take (Suc k) xs"
    using assms by (intro filter_True) (auto simp: in_set_conv_nth sorted_nth_mono)
  then have "Suc k \<le> length (filter (\<lambda>x. x \<le> xs ! k) (take (Suc k) xs))" using assms(2) by simp
  also have "\<dots> \<le> length (filter (\<lambda>x. x \<le> xs ! k) xs)"
    by (metis append_take_drop_id filter_append length_append le_add1)
  finally show ?thesis by simp
qed

lemma percentile_index:
  assumes "samples \<noteq> []" "int (length samples) < 2 ^ 53" "0 \<le> num" "num < den" "den \<le> 1000"
  defines "k \<equiv> nat (int (length samples) * num div den)"
  shows "percentile num den samples = Inr (sort samples ! k)" "k < length samples" "int (length samples) * num < den * (int k + 1)"
proof -
  let ?n = "int (length samples)"
  have n: "0 < ?n" using assms(1) by simp
  have "?n * num \<le> 2 ^ 53 * 1000" using assms(2-5) n by (intro mult_mono) auto
  moreover have "0 \<le> ?n * num" using assms(3) n by simp
  ultimately have i64: "int64 (?n * num) = ?n * num" by (intro int64_id) (simp add: is_int64_def)
  have "?n * num < ?n * den" using assms(3,4) n by (intro mult_strict_left_mono) auto
  moreover have "?n * num div den * den \<le> ?n * num"
    using assms(3,4) by (metis minus_mod_eq_div_mult diff_le_eq le_add_same_cancel1 pos_mod_sign le_less_trans)
  ultimately have "?n * num div den * den < ?n * den" by linarith
  then have d: "0 \<le> ?n * num div den" "?n * num div den < ?n"
    using assms(3,4) n by (simp_all add: pos_imp_zdiv_nonneg_iff mult_less_cancel_right)
  show "k < length samples" using d unfolding k_def by linarith
  show "percentile num den samples = Inr (sort samples ! k)"
    using d i64 assms(3,4) n by (simp add: percentile_def Let_def clamp_def sdiv_nonneg k_def)
  have "?n * num = den * (?n * num div den) + ?n * num mod den" by simp
  moreover have "?n * num mod den < den" using assms(3,4) by simp
  ultimately have "?n * num < den * (?n * num div den) + den" by linarith
  then show "?n * num < den * (int k + 1)" using d(1) by (simp add: k_def distrib_left)
qed

section \<open>The layout check\<close>

lemma count_brokers_fold:
  "map_get (fold (\<lambda>p m. map_put (piBrokerAddr p) ((case map_get m (piBrokerAddr p) of None \<Rightarrow> 0 | Some n \<Rightarrow> n) + 1) m) ps m) a =
    (let k = int (length (filter (\<lambda>p. piBrokerAddr p = a) ps))
     in if k = 0 then map_get m a else Some ((case map_get m a of None \<Rightarrow> 0 | Some n \<Rightarrow> n) + k))"
  by (induction ps arbitrary: m) (auto simp: go_map Let_def split: option.splits)

lemma count_brokers_ok: "gomap_ok (count_brokers ps)"
proof -
  have "gomap_ok (fold (\<lambda>p m. map_put (piBrokerAddr p) ((case map_get m (piBrokerAddr p) of None \<Rightarrow> 0 | Some n \<Rightarrow> n) + 1) m) ps m)"
    if "gomap_ok m" for m :: "(string, int) gomap" using that by (induction ps arbitrary: m) auto
  then show ?thesis by (simp add: count_brokers_def)
qed

lemma count_brokers_get:
  "map_get (count_brokers ps) a =
    (let k = int (length (filter (\<lambda>p. piBrokerAddr p = a) ps)) in if k = 0 then None else Some k)"
  by (simp add: count_brokers_def count_brokers_fold)

lemma count_brokers_length: "length (count_brokers ps) = card (piBrokerAddr ` set ps)"
proof -
  have "set (go_keys (count_brokers ps)) = piBrokerAddr ` set ps"
  proof (rule set_eqI)
    fix a
    have "a \<in> set (go_keys (count_brokers ps)) \<longleftrightarrow> map_get (count_brokers ps) a \<noteq> None" using map_get_keys by metis
    also have "\<dots> \<longleftrightarrow> a \<in> piBrokerAddr ` set ps" by (auto simp: count_brokers_get Let_def filter_empty_conv)
    finally show "a \<in> set (go_keys (count_brokers ps)) \<longleftrightarrow> a \<in> piBrokerAddr ` set ps" .
  qed
  then show ?thesis using count_brokers_ok [of ps] by (metis gomap_ok_def distinct_card length_map)
qed

lemma uneven_iff:
  "uneven ps \<noteq> [] \<longleftrightarrow> (\<exists>a. int (length (filter (\<lambda>p. piBrokerAddr p = a) ps)) >
     (int (length ps) + int (card (piBrokerAddr ` set ps)) - 1) div int (card (piBrokerAddr ` set ps)) \<and> a \<in> piBrokerAddr ` set ps)"
proof -
  have "(a, k) \<in> set (count_brokers ps) \<longleftrightarrow> k = int (length (filter (\<lambda>p. piBrokerAddr p = a) ps)) \<and> a \<in> piBrokerAddr ` set ps" for a k
    using map_get_in_set [OF count_brokers_ok, of ps a k] by (auto simp: count_brokers_get Let_def filter_empty_conv split: if_splits)
  then show ?thesis by (auto simp: uneven_def Let_def filter_empty_conv count_brokers_length)
qed


text \<open>Round robin gives no broker more than its share.\<close>

lemma residues_bound:
  assumes "0 < m"
  shows "length (filter (\<lambda>i. i mod m = j) [0..<n]) \<le> (n + m - 1) div m"
proof -
  have "length (filter (\<lambda>i. i mod m = j) [0..<n]) = card {i. i < n \<and> i mod m = j}"
    by (simp add: distinct_length_filter Int_def atLeast0LessThan lessThan_def conj_commute)
  also have "\<dots> = card ((\<lambda>i. i div m) ` {i. i < n \<and> i mod m = j})"
    by (rule card_image [symmetric]) (auto simp: inj_on_def, metis div_mult_mod_eq)
  also have "\<dots> \<le> card {..<(n + m - 1) div m}"
  proof (rule card_mono)
    show "(\<lambda>i. i div m) ` {i. i < n \<and> i mod m = j} \<subseteq> {..<(n + m - 1) div m}"
    proof clarify
      fix i assume "i < n"
      then have "(i + m) div m \<le> (n + m - 1) div m" by (intro div_le_mono) simp
      moreover have "(i + m) div m = Suc (i div m)" using assms by (simp add: div_add_self2)
      ultimately show "i div m < (n + m - 1) div m" by linarith
    qed
  qed simp
  finally show ?thesis by simp
qed

lemma round_robin_even:
  assumes "distinct bs" "bs \<noteq> []" "0 < n"
  shows "length (filter (\<lambda>i. bs ! (i mod length bs) = a) [0..<n]) \<le>
    (n + card ((\<lambda>i. bs ! (i mod length bs)) ` {..<n}) - 1) div card ((\<lambda>i. bs ! (i mod length bs)) ` {..<n})"
proof -
  let ?m = "length bs" and ?f = "\<lambda>i. bs ! (i mod length bs)"
  have m: "0 < ?m" using assms(2) by simp
  have inj: "?f i = ?f j \<longleftrightarrow> i mod ?m = j mod ?m" for i j using assms(1) m by (simp add: nth_eq_iff_index_eq)
  show ?thesis
  proof (cases "n < ?m")
    case True
    then have "card (?f ` {..<n}) = card {..<n}" using assms(1) by (intro card_image inj_onI) (simp add: nth_eq_iff_index_eq)
    moreover have "length (filter (\<lambda>i. ?f i = a) [0..<n]) \<le> 1"
    proof -
      have "x = y" if "x < n" "y < n" "?f x = a" "?f y = a" for x y
        using inj [of x y] that True by simp
      then have "card {i. i < n \<and> ?f i = a} \<le> Suc 0" by (subst card_le_Suc0_iff_eq) auto
      then show ?thesis by (simp add: distinct_length_filter Int_def atLeast0LessThan lessThan_def conj_commute)
    qed
    ultimately show ?thesis using assms(3) by (simp add: div_eq_0_iff le_div_geq)
  next
    case False
    have "?f ` {..<n} = set bs"
    proof
      show "set bs \<subseteq> ?f ` {..<n}"
      proof
        fix b assume "b \<in> set bs"
        then obtain k where "k < ?m" "b = bs ! k" by (auto simp: in_set_conv_nth)
        then show "b \<in> ?f ` {..<n}" using False by (intro image_eqI [of _ _ k]) auto
      qed
    qed (use m in auto)
    then have c: "card (?f ` {..<n}) = ?m" using assms(1) by (simp add: distinct_card)
    show ?thesis
    proof (cases "a \<in> set bs")
      case True
      then obtain k where "k < ?m" "a = bs ! k" by (auto simp: in_set_conv_nth)
      then have "(?f i = a) = (i mod ?m = k)" for i using assms(1) m by (simp add: nth_eq_iff_index_eq)
      then show ?thesis using residues_bound [OF m] c by simp
    next
      case False
      then have "?f i \<noteq> a" for i using m by (metis nth_mem mod_less_divisor)
      then show ?thesis by simp
    qed
  qed
qed


lemma round_robin_layout:
  assumes "distinct bs" "bs \<noteq> []" "0 < n" "parts = map (\<lambda>i. \<lparr>piPartition = int i, piBrokerAddr = bs ! (i mod length bs)\<rparr>) [0..<n]"
  shows "layout_error parts = Inr ()"
proof -
  have sorted: "sort_key piPartition parts = parts"
    by (rule sort_key_id_if_sorted) (simp add: assms(4) comp_def sorted_iff_nth_mono)
  have count: "length (filter (\<lambda>p. piBrokerAddr p = a) parts) = length (filter (\<lambda>i. bs ! (i mod length bs) = a) [0..<n])" for a
    by (simp add: assms(4) filter_map comp_def)
  have im: "piBrokerAddr ` set parts = (\<lambda>i. bs ! (i mod length bs)) ` {..<n}"
    by (auto simp: assms(4) image_image atLeast0LessThan)
  let ?c = "card ((\<lambda>i. bs ! (i mod length bs)) ` {..<n})"
  have "int n + int ?c - 1 = int (n + ?c - 1)" using assms(3) by linarith
  then have "(int n + int ?c - 1) div int ?c = int ((n + ?c - 1) div ?c)" by (simp only: zdiv_int)
  moreover have "length parts = n" by (simp add: assms(4))
  ultimately have "\<not> (int (length parts) + int (card (piBrokerAddr ` set parts)) - 1) div int (card (piBrokerAddr ` set parts))
      < int (length (filter (\<lambda>p. piBrokerAddr p = a) parts))" for a
    using round_robin_even [OF assms(1-3), of a] by (simp only: count im not_less of_nat_le_iff)
  then have "uneven parts = []" using uneven_iff [of parts] by blast
  moreover have "parts \<noteq> []" using assms(3,4) by simp
  ultimately show ?thesis by (simp add: layout_error_def sorted)
qed

section \<open>The worker\<close>

lemma bench_loop_exact:
  assumes "serving p" "serves net (broker_stream p) pr" "reader_ok pr" "rdNextOffset pr = off"
    and "bench_loop net n as pr off = (n', off', got)"
  shows "\<exists>k. got = take k (drop (nat off) (committed p)) \<and> length got = k \<and> off' = off + int k"
  using assms(2-5)
proof (induction net n as pr off arbitrary: n' off' got rule: bench_loop.induct)
  case (2 net n as pr off)
  show ?case
  proof (cases "reader_poll net as pr")
    case (Some t)
    obtain pr1 as1 r where t: "t = (pr1, as1, r)" by (cases t) auto
    note step = broker_source.poll_step [OF assms(1) Some [unfolded t] "2.prems"(1,2)]
    show ?thesis
    proof (cases r)
      case (Inr m)
      let ?o = "nat off"
      have o: "0 \<le> off" using "2.prems"(2,3) by (simp add: reader_ok_def)
      have m: "?o < length (committed p)" "m = committed p ! ?o" "rdNextOffset pr1 = off + 1"
        using step Inr "2.prems"(3) by auto
      have nxt: "int64 (msgOffset m + 1) = off + 1"
        using broker_source.next_offset [OF assms(1) o m(1)] m(2) by simp
      obtain got1 where g: "bench_loop net n as1 pr1 (off + 1) = (n', off', got1)" "got = m # got1"
        using "2.prems"(4) Some t Inr nxt by (auto split: prod.splits)
      have "serves net (broker_stream p) pr1" "reader_ok pr1" using step by auto
      from "2.IH" [OF Some t [symmetric] refl Inr, unfolded nxt, OF this m(3) g(1)]
      obtain k where k: "got1 = take k (drop (nat (off + 1)) (committed p))" "length got1 = k" "off' = off + 1 + int k"
        by blast
      have "drop ?o (committed p) = m # drop (nat (off + 1)) (committed p)"
        using m(1,2) o by (simp add: Cons_nth_drop_Suc nat_add_distrib)
      then show ?thesis using k g(2) by (intro exI [of _ "Suc k"]) simp
    qed (use "2.prems"(4) Some t in auto)
  qed (use "2.prems"(4) in auto)
qed simp

text \<open>What the worker may meet in a round: behind any address, a broker that serves a prefix of the log \<open>L\<close>.\<close>

definition round_serves :: "message list \<Rightarrow> string \<Rightarrow> int \<Rightarrow> bench_round \<Rightarrow> bool" where
  "round_serves L topic i r \<longleftrightarrow> (\<forall>addr. \<exists>p. serving p \<and> prefix (committed p) L
     \<and> (\<forall>req k. feTopic req = topic \<longrightarrow> fePartition req = i \<longrightarrow> brNet r addr req k = broker_stream p req k))"

lemma take_drop_prefix:
  "prefix xs L \<Longrightarrow> length (take k (drop n xs)) = k \<Longrightarrow> take k (drop n xs) = take k (drop n L)"
  by (auto simp: prefix_def)

lemma bench_worker_log:
  assumes "list_all (round_serves L topic i) rounds" "0 \<le> off"
    and "bench_worker dial brokerAddr coordAddrs topic i rounds n pb off = (pb', off', got)"
  shows "\<exists>k. got = take k (drop (nat off) L) \<and> length got = k \<and> off' = off + int k"
  using assms
proof (induction rounds arbitrary: n pb off pb' off' got)
  case (Cons r rs)
  let ?pb = "fold (\<lambda>getMeta pb. fetchPartBroker dial getMeta brokerAddr coordAddrs pb) (brOthers r) pb"
  let ?addr = "case map_get ?pb i of None \<Rightarrow> '''' | Some a \<Rightarrow> a"
  let ?ref = "fetchPartBroker dial (brMeta r) brokerAddr coordAddrs ?pb"
  show ?case
  proof (cases "n = 0 \<or> ?addr = '''' \<or> \<not> dial ?addr")
    case True
    then show ?thesis using Cons.prems Cons.IH [of off] by (auto simp: Let_def consumer_New_def split: if_splits)
  next
    case False
    define pr where "pr = \<lparr>rdClient = ?addr, rdTopic = topic, rdPartition = i, rdNextOffset = off, rdStream = None\<rparr>"
    obtain n1 off1 got1 where l: "bench_loop (brNet r) n (brAnswers r) pr off = (n1, off1, got1)" by (metis prod_cases3)
    obtain got2 where w: "bench_worker dial brokerAddr coordAddrs topic i rs n1 (if n1 = 0 then ?pb else ?ref) off1 = (pb', off', got2)"
      "got = got1 @ got2"
      using Cons.prems(3) False l by (auto simp: Let_def consumer_New_def pr_def split: prod.splits)
    have "round_serves L topic i r" using Cons.prems(1) by simp
    then obtain p where "serving p" "prefix (committed p) L"
      "\<forall>req k. feTopic req = topic \<longrightarrow> fePartition req = i \<longrightarrow> brNet r ?addr req k = broker_stream p req k"
      unfolding round_serves_def by blast
    then have p: "serving p" "prefix (committed p) L" "serves (brNet r) (broker_stream p) pr"
      by (auto simp: serves_def pr_def)
    have "reader_ok pr" "rdNextOffset pr = off" using Cons.prems(2) by (simp_all add: reader_ok_def pr_def)
    from bench_loop_exact [OF p(1,3) this l] obtain k where k:
      "got1 = take k (drop (nat off) (committed p))" "length got1 = k" "off1 = off + int k" by blast
    have "list_all (round_serves L topic i) rs" "0 \<le> off1" using Cons.prems(1,2) k(3) by simp_all
    from Cons.IH [OF this w(1)] obtain k2 where k2:
      "got2 = take k2 (drop (nat off1) L)" "length got2 = k2" "off' = off1 + int k2" by blast
    have "got1 = take k (drop (nat off) L)" using take_drop_prefix [OF p(2)] k(1,2) by metis
    moreover have "nat off1 = nat off + k" using k(3) Cons.prems(2) by simp
    ultimately show ?thesis using w(2) k k2
      by (intro exI [of _ "k + k2"]) (simp add: take_add add.commute [of _ "nat off"])
  qed
qed simp


section \<open>Trying the coordinators in turn\<close>

text \<open>\<open>ensureTopic\<close> reaches a coordinator that accepts past any number that are not the leader or cannot be dialled.\<close>

lemma ensureTopic_loop_reaches:
  assumes "leader \<in> set (map TrimSpace addrs)" "dial leader" "create leader = Inr ()"
    and "\<And>a. a \<noteq> leader \<Longrightarrow> dial a \<Longrightarrow> create a = Inl (Status FailedPrecondition)"
  shows "ensureTopic_loop dial create addrs = Inr ()"
  using assms(1)
proof (induction addrs)
  case (Cons raw addrs)
  then show ?case using assms(2,3) assms(4) [of "TrimSpace raw"] by (cases "TrimSpace raw = leader") (auto simp: Let_def)
qed simp

lemma first_metadata_reaches:
  assumes "leader \<in> set (map TrimSpace addrs)" "dial leader" "getMeta leader = Inr ps" "skipEmpty \<longrightarrow> leader \<noteq> []"
    and "\<And>a. isl (getMeta a) \<or> getMeta a = Inr ps"
  shows "first_metadata dial getMeta skipEmpty addrs = ps"
  using assms(1)
proof (induction addrs)
  case (Cons raw addrs)
  then show ?case using assms(2-4) assms(5) [of "TrimSpace raw"]
    by (cases "TrimSpace raw = leader") (auto simp: Let_def split: sum.splits)
qed simp

lemma CreateTopic_refused:
  assumes "notLeader c" "ctTopic req \<noteq> []" "0 < ctPartitions req"
  shows "snd (snd (coordinator_CreateTopic raft now c req)) = Inl (Status FailedPrecondition)"
  using assms by (simp add: coordinator_CreateTopic_def)

section \<open>Properties\<close>

text \<open>
  A consumer worker of the tool counts every committed message of its partition once and in order
  across failovers: whatever the other workers store in the shared partition map, whichever brokers it
  is sent to and however their streams break, as long as each serves a prefix of the same log, the
  messages it receives are that log from its resume offset on, without gap or repetition, and the
  resume offset moves past exactly these.
\<close>

lemma bench_worker_exactly_once:
  assumes "list_all (round_serves L topic i) rounds" "0 \<le> off"
    and "bench_worker dial brokerAddr coordAddrs topic i rounds n pb off = (pb', off', got)"
  shows "\<exists>k. got = take k (drop (nat off) L) \<and> length got = k \<and> off' = off + int k"
  using assms by (rule bench_worker_log)

definition demo_rounds :: "bench_round list" where
  "demo_rounds =
    [\<lparr>brOthers = [], brNet = (\<lambda>_. broker_stream one_msg), brAnswers = [], brMeta = (\<lambda>_. Inr [\<lparr>piPartition = 0, piBrokerAddr = ''a:1''\<rparr>])\<rparr>,
     \<lparr>brOthers = [], brNet = (\<lambda>_. broker_stream one_msg), brAnswers = [AnsOk, AnsErr False (Status NotFound)], brMeta = (\<lambda>_. Inl IOError)\<rparr>,
     \<lparr>brOthers = [\<lambda>_. Inr [\<lparr>piPartition = 0, piBrokerAddr = ''b:1''\<rparr>]], brNet = (\<lambda>_. broker_stream one_msg),
      brAnswers = [AnsOk, AnsOk, AnsErr False (Status NotFound)], brMeta = (\<lambda>_. Inl IOError)\<rparr>]"

lemma demo_rounds_serve: "list_all (round_serves (committed one_msg) ''t'' 0) demo_rounds"
  using demo_serving by (auto simp: demo_rounds_def round_serves_def)

lemma bench_worker_exactly_once_witness:
  "\<exists>k. snd (snd (bench_worker (\<lambda>_. True) ''a:1'' '''' ''t'' 0 demo_rounds 5 [] 0)) = take k (drop (nat 0) (committed one_msg))
     \<and> length (snd (snd (bench_worker (\<lambda>_. True) ''a:1'' '''' ''t'' 0 demo_rounds 5 [] 0))) = k
     \<and> bench_worker (\<lambda>_. True) ''a:1'' '''' ''t'' 0 demo_rounds 5 [] 0 = ([(0, ''b:1'')], 1, committed one_msg)"
proof -
  have w: "bench_worker (\<lambda>_. True) ''a:1'' '''' ''t'' 0 demo_rounds 5 [] 0 = ([(0, ''b:1'')], 1, committed one_msg)"
    by code_simp
  from bench_worker_exactly_once [OF demo_rounds_serve _ w] show ?thesis unfolding w by simp
qed

text \<open>
  The percentiles the tool reports are taken from the recorded latencies, they are ordered, and the
  one at \<open>num\<close>/\<open>den\<close> is what it says: more than that share of the latencies are at most its value.  No
  number of samples that fits in memory makes the index overflow or leave the slice.
\<close>

lemma percentiles_ordered:
  assumes "samples \<noteq> []" "int (length samples) < 2 ^ 53"
  shows "\<exists>p50 p99 p999. percentile 50 100 samples = Inr p50 \<and> percentile 99 100 samples = Inr p99 \<and> percentile 999 1000 samples = Inr p999
    \<and> {p50, p99, p999} \<subseteq> set samples \<and> p50 \<le> p99 \<and> p99 \<le> p999
    \<and> int (length samples) * 50 < 100 * int (length (filter (\<lambda>x. x \<le> p50) samples))
    \<and> int (length samples) * 99 < 100 * int (length (filter (\<lambda>x. x \<le> p99) samples))
    \<and> int (length samples) * 999 < 1000 * int (length (filter (\<lambda>x. x \<le> p999) samples))"
proof -
  let ?n = "int (length samples)"
  let ?v = "\<lambda>num den. sort samples ! nat (?n * num div den)"
  have share: "?n * num < den * int (length (filter (\<lambda>x. x \<le> ?v num den) samples))"
    and mem: "?v num den \<in> set samples" and val: "percentile num den samples = Inr (?v num den)"
    if "0 \<le> num" "num < den" "den \<le> 1000" for num den
  proof -
    note i = percentile_index [OF assms that]
    have "length (filter (\<lambda>x. x \<le> ?v num den) samples) = length (filter (\<lambda>x. x \<le> ?v num den) (sort samples))"
      by (simp add: filter_sort)
    then have "int (nat (?n * num div den)) + 1 \<le> int (length (filter (\<lambda>x. x \<le> ?v num den) samples))"
      using sorted_count_le [of "sort samples" "nat (?n * num div den)"] i(2) by (simp del: int_nat_eq)
    then have "den * (int (nat (?n * num div den)) + 1) \<le> den * int (length (filter (\<lambda>x. x \<le> ?v num den) samples))"
      using that by (intro mult_left_mono) auto
    then show "?n * num < den * int (length (filter (\<lambda>x. x \<le> ?v num den) samples))" using i(3) by linarith
    show "?v num den \<in> set samples" using i(2) by (metis length_sort nth_mem set_sort)
    show "percentile num den samples = Inr (?v num den)" by (rule i(1))
  qed
  have mono: "?v a b \<le> ?v c d" if "nat (?n * a div b) \<le> nat (?n * c div d)" "0 \<le> c" "c < d" "d \<le> 1000" for a b c d
    using percentile_index(2) [OF assms that(2-4)] that(1) by (intro sorted_nth_mono) simp_all
  have "?n * 99 div 100 = ?n * 990 div 1000" using div_mult_mult2 [of 10 "?n * 99" 100] by simp
  also have "\<dots> \<le> ?n * 999 div 1000" by (intro zdiv_mono1) simp_all
  finally have le: "nat (?n * 99 div 100) \<le> nat (?n * 999 div 1000)" by (rule nat_mono)
  obtain a b c where abc: "a = ?v 50 100" "b = ?v 99 100" "c = ?v 999 1000" by blast
  have "percentile 50 100 samples = Inr a" "percentile 99 100 samples = Inr b" "percentile 999 1000 samples = Inr c"
    unfolding abc by (rule val; simp)+
  moreover have "{a, b, c} \<subseteq> set samples" unfolding abc by (intro insert_subsetI mem empty_subsetI) simp_all
  moreover have "a \<le> b" unfolding abc by (intro mono nat_mono zdiv_mono1) simp_all
  moreover have "b \<le> c" unfolding abc by (rule mono [OF le]) simp_all
  moreover have "?n * 50 < 100 * int (length (filter (\<lambda>x. x \<le> a) samples))" unfolding abc by (rule share) simp_all
  moreover have "?n * 99 < 100 * int (length (filter (\<lambda>x. x \<le> b) samples))" unfolding abc by (rule share) simp_all
  moreover have "?n * 999 < 1000 * int (length (filter (\<lambda>x. x \<le> c) samples))" unfolding abc by (rule share) simp_all
  ultimately show ?thesis by blast
qed

lemma percentiles_ordered_witness:
  "\<exists>p50 p99 p999. percentile 50 100 [7, 3, 9, 1] = Inr p50 \<and> percentile 99 100 [7, 3, 9, 1] = Inr p99
    \<and> percentile 999 1000 [7, 3, 9, 1] = Inr p999 \<and> p50 \<le> p99 \<and> p99 \<le> p999"
  using percentiles_ordered [of "[7, 3, 9, 1]"] by fastforce


text \<open>
  Preparing a run: when one of the listed coordinators is the Raft leader and the others only refuse,
  \<open>ensureTopic\<close> creates the topic wherever the leader stands in the list, and the layout it gets passes
  \<open>checkPartitionLayout\<close>, whichever coordinators already know the topic: round-robin assignment never
  gives a broker more than its share.
\<close>

lemma ensured_topic_passes_check:
  assumes "topic \<noteq> ''''" "utf8_valid topic" "0 < partitions" "is_int32 partitions"
    and "coords leader = c" "cRaft c = Some n" "rnIsLeader n" "map_get (cTopics c) topic = None" "\<And>i. FSM_Get (rnFSM n) topic i = None"
    and "gomap_ok (fsmState (rnFSM n))" "cBrokers c \<noteq> []" "distinct (cBrokers c)" "list_all utf8_valid (cBrokers c)"
    and "\<And>d. raft d = Committed" "\<And>a. a \<noteq> leader \<Longrightarrow> notLeader (coords a)" "dial leader"
    and "coordAddrs \<noteq> ''''" "leader \<in> set (map TrimSpace (split_comma coordAddrs))"
    and "getMeta leader = GetMetadata (fst (coordinator_CreateTopic raft now c \<lparr>ctTopic = topic, ctPartitions = partitions, ctReplicationFactor = 0\<rparr>)) topic"
    and "\<And>a. isl (getMeta a) \<or> getMeta a = getMeta leader"
  shows "ensureTopic dial brokerCreate (\<lambda>a rq. snd (snd (coordinator_CreateTopic raft now (coords a) rq))) brokerAddr coordAddrs topic partitions = Inr ()
    \<and> checkPartitionLayout dial getMeta brokerAddr coordAddrs = Inr ()"
proof -
  let ?req = "\<lparr>ctTopic = topic, ctPartitions = partitions, ctReplicationFactor = 0\<rparr>"
  let ?parts = "map (\<lambda>i. \<lparr>piPartition = int i, piBrokerAddr = cBrokers c ! (i mod length (cBrokers c))\<rparr>) [0..<nat partitions]"
  obtain c' calls where c: "coordinator_CreateTopic raft now c ?req = (c', calls, Inr ())" "GetMetadata c' topic = Inr ?parts"
    using CreateTopic_committed [where raft = raft and req = ?req and c = c and now = now, simplified, OF assms(1-4,6-14)] by blast
  have loop: "ensureTopic_loop dial (\<lambda>a. snd (snd (coordinator_CreateTopic raft now (coords a) ?req))) (split_comma coordAddrs) = Inr ()"
    using assms(1,3,5,15) c(1) by (intro ensureTopic_loop_reaches [where dial = dial, OF assms(18,16)]) (simp_all add: CreateTopic_refused)
  have meta: "getMeta leader = Inr ?parts" using assms(19) c by simp
  have "first_metadata dial getMeta False (split_comma coordAddrs) = ?parts"
    using assms(20) meta by (intro first_metadata_reaches [where dial = dial and getMeta = getMeta, OF assms(18,16) meta]) auto
  moreover have "layout_error ?parts = Inr ()" using assms(3,11,12) by (intro round_robin_layout [OF _ _ _ refl]) auto
  moreover have "?parts \<noteq> []" using assms(3) by simp
  ultimately show ?thesis using assms(17) loop by (simp add: checkPartitionLayout_def ensureTopic_def)
qed


lemma ensured_topic_passes_check_witness:
  "ensureTopic (\<lambda>_. True) (\<lambda>_ _. Inl IOError) (\<lambda>a rq. snd (snd (coordinator_CreateTopic (\<lambda>_. Committed) 0
       (if a = ''b'' then demo_registered else demo_registered\<lparr>cRaft := Some (demo_node\<lparr>rnIsLeader := False\<rparr>)\<rparr>) rq)))
     ''x'' ''a, b'' ''u'' 2 = Inr ()
   \<and> checkPartitionLayout (\<lambda>_. True) (\<lambda>a. if a = ''b'' then GetMetadata (fst (coordinator_CreateTopic (\<lambda>_. Committed) 0 demo_registered
       \<lparr>ctTopic = ''u'', ctPartitions = 2, ctReplicationFactor = 0\<rparr>)) ''u'' else Inl (Status NotFound)) ''x'' ''a, b'' = Inr ()"
proof -
  have h: "cRaft demo_registered = Some demo_node" "rnIsLeader demo_node"
    "map_get (cTopics demo_registered) ''u'' = None" "gomap_ok (fsmState (rnFSM demo_node))"
    "cBrokers demo_registered \<noteq> []" "distinct (cBrokers demo_registered)" "list_all utf8_valid (cBrokers demo_registered)"
    "utf8_valid ''u''" "is_int32 2" "''b'' \<in> set (map TrimSpace (split_comma ''a, b''))"
    by code_simp+
  have f: "FSM_Get (rnFSM demo_node) ''u'' i = None" for i
    by (simp add: demo_node_def newFSM_def FSM_Get_def)
  show ?thesis
    by (rule ensured_topic_passes_check [where c = demo_registered and n = demo_node and leader = "''b''"])
      (simp_all add: h f notLeader_def del: set_map list.map split_comma.simps)
qed

end
