(* ===== verification/Bench_Report.thy ===== *)
theory Bench_Report
  imports Bench "HOL-Library.Multiset"
begin

text \<open>
  The bookkeeping of the throughput tool, src/cmd/throughput/main.go: the producer goroutines, the shared
  counters and latency buffers they fill, the reporter that drains the buffer of the last second, and the
  summary at the end.  The counters are \<open>atomic.Int64\<close> and wrap around.  The goroutines interleave at the
  granularity of the source's critical sections: an attempt of a producer appends to its own buffer,
  appends to the shared one under \<open>secLatMu\<close> and adds to the counters; a tick of the reporter swaps the
  shared buffer out.
\<close>

subsection \<open>One attempt of a producer goroutine\<close>

text \<open>The byte at index \<open>i\<close> of the payload.\<close>

definition payload_byte :: "nat \<Rightarrow> char" where
  "payload_byte i = char_of (i mod 251 + 1)"

definition payload :: "nat \<Rightarrow> bytes" where
  "payload msgSize = map payload_byte [0..<msgSize]"

definition workerKey :: "nat \<Rightarrow> bytes" where
  "workerKey i = ''worker-'' @ nat_dec i"

text \<open>\<open>sendErr\<close> of goroutine \<open>i\<close>; \<open>Route\<close> also changes the caches of the shared producer.\<close>

definition bench_send :: "(string \<Rightarrow> string \<Rightarrow> partition_info list result) \<Rightarrow> (string \<Rightarrow> bool) \<Rightarrow>
    (string \<Rightarrow> produce_request \<Rightarrow> int result) \<Rightarrow> bool \<Rightarrow> string \<Rightarrow> nat \<Rightarrow> nat \<Rightarrow> nat \<Rightarrow> producer \<Rightarrow> producer \<times> unit result" where
  "bench_send getMetadata dial produce route topic partitions msgSize i pd =
     (if route then (case Route getMetadata dial produce pd topic (workerKey i) (payload msgSize) of
          (pd', Inl e) \<Rightarrow> (pd', Inl e)
        | (pd', Inr _) \<Rightarrow> (pd', Inr ()))
      else if partitions = 0 then (pd, Inl GoPanic)
      else (pd, case Send produce pd topic (int32 (int (i mod partitions))) [] (payload msgSize) of
          Inl e \<Rightarrow> Inl e | Inr _ \<Rightarrow> Inr ()))"

subsection \<open>The shared state\<close>

record bench_state =
  bsProducedMsgs :: int
  bsProducedBytes :: int
  bsConsumedMsgs :: int
  bsErrCount :: int
  bsLatBufs :: "int list list"
  bsSecLatBuf :: "int list"
  bsPrevMsgs :: int
  bsPrevBytes :: int
  bsPrevErrs :: int
  bsSec :: int

definition bench_init :: "nat \<Rightarrow> bench_state" where
  "bench_init concurrency = \<lparr>bsProducedMsgs = 0, bsProducedBytes = 0, bsConsumedMsgs = 0, bsErrCount = 0,
     bsLatBufs = replicate concurrency [], bsSecLatBuf = [], bsPrevMsgs = 0, bsPrevBytes = 0, bsPrevErrs = 0, bsSec = 0\<rparr>"

text \<open>
  The events of a run.  \<open>Recorded i d\<close>: goroutine \<open>i\<close> appends the latency \<open>d\<close> to its own buffer; \<open>Shared d\<close>: to
  the shared one; \<open>Sent ok\<close>: it counts the outcome; \<open>Received\<close>: a consumer counts a message; \<open>Tick\<close>: the
  reporter.
\<close>

datatype bench_event = Recorded nat int | Shared int | Sent bool | Received | Tick

record report_line =
  rlSec :: int
  rlDeltaMsgs :: int
  rlDeltaBytes :: int
  rlDeltaErrs :: int
  rlLag :: int
  rlSnap :: "int list"
  rlP50 :: "int option"
  rlP99 :: "int option"

text \<open>The percentile of a possibly empty buffer; \<open>None\<close> is the 0 that is printed for an empty one.\<close>

definition snap_percentile :: "int \<Rightarrow> int \<Rightarrow> int list \<Rightarrow> int option" where
  "snap_percentile num den snap = (if snap = [] then None
     else case percentile num den snap of Inl e \<Rightarrow> None | Inr d \<Rightarrow> Some d)"

definition reporter_tick :: "bench_state \<Rightarrow> bench_state \<times> report_line" where
  "reporter_tick s =
     (let snap = bsSecLatBuf s
      in (s\<lparr>bsSecLatBuf := [], bsPrevMsgs := bsProducedMsgs s, bsPrevBytes := bsProducedBytes s, bsPrevErrs := bsErrCount s,
            bsSec := int64 (bsSec s + 1)\<rparr>,
          \<lparr>rlSec = int64 (bsSec s + 1), rlDeltaMsgs = int64 (bsProducedMsgs s - bsPrevMsgs s),
           rlDeltaBytes = int64 (bsProducedBytes s - bsPrevBytes s), rlDeltaErrs = int64 (bsErrCount s - bsPrevErrs s),
           rlLag = int64 (bsProducedMsgs s - bsConsumedMsgs s), rlSnap = snap,
           rlP50 = snap_percentile 50 100 snap, rlP99 = snap_percentile 99 100 snap\<rparr>))"

fun bench_step :: "nat \<Rightarrow> bench_event \<Rightarrow> bench_state \<Rightarrow> bench_state \<times> report_line list" where
  "bench_step msgSize (Recorded i d) s = (s\<lparr>bsLatBufs := (bsLatBufs s)[i := bsLatBufs s ! i @ [d]]\<rparr>, [])"
| "bench_step msgSize (Shared d) s = (s\<lparr>bsSecLatBuf := bsSecLatBuf s @ [d]\<rparr>, [])"
| "bench_step msgSize (Sent False) s = (s\<lparr>bsErrCount := int64 (bsErrCount s + 1)\<rparr>, [])"
| "bench_step msgSize (Sent True) s = (s\<lparr>bsProducedMsgs := int64 (bsProducedMsgs s + 1),
      bsProducedBytes := int64 (bsProducedBytes s + int msgSize)\<rparr>, [])"
| "bench_step msgSize Received s = (s\<lparr>bsConsumedMsgs := int64 (bsConsumedMsgs s + 1)\<rparr>, [])"
| "bench_step msgSize Tick s = (case reporter_tick s of (s', l) \<Rightarrow> (s', [l]))"

fun bench_run :: "nat \<Rightarrow> bench_event list \<Rightarrow> bench_state \<Rightarrow> bench_state \<times> report_line list" where
  "bench_run msgSize [] s = (s, [])"
| "bench_run msgSize (e # es) s = (case bench_step msgSize e s of
      (s', ls) \<Rightarrow> (case bench_run msgSize es s' of (s'', ls') \<Rightarrow> (s'', ls @ ls')))"

text \<open>One iteration of a producer's loop, as the events it gives rise to: the latency of every attempt is
  recorded, whether it succeeded or not.\<close>

definition attempt_events :: "nat \<Rightarrow> int \<Rightarrow> unit result \<Rightarrow> bench_event list" where
  "attempt_events i elapsed sendErr = [Recorded i elapsed, Shared elapsed, Sent (\<not> isl sendErr)]"

text \<open>The latencies of all goroutines, merged after the run.\<close>

definition merged :: "bench_state \<Rightarrow> int list" where
  "merged s = concat (bsLatBufs s)"

definition summary :: "bench_state \<Rightarrow> (int \<times> int \<times> int) option" where
  "summary s = (if merged s = [] then None
     else case (percentile 50 100 (merged s), percentile 99 100 (merged s), percentile 999 1000 (merged s)) of
      (Inr a, Inr b, Inr c) \<Rightarrow> Some (a, b, c)
    | _ \<Rightarrow> None)"

section \<open>Accounting\<close>

text \<open>The latencies and outcomes a sequence of events holds.\<close>

fun recorded :: "bench_event \<Rightarrow> int multiset" where
  "recorded (Recorded i d) = {#d#}" | "recorded _ = {#}"

fun shared :: "bench_event \<Rightarrow> int multiset" where
  "shared (Shared d) = {#d#}" | "shared _ = {#}"

definition sent :: "bool \<Rightarrow> bench_event list \<Rightarrow> nat" where
  "sent ok es = length (filter (\<lambda>e. e = Sent ok) es)"

definition own_bufs :: "nat \<Rightarrow> bench_event \<Rightarrow> bool" where
  "own_bufs n e = (case e of Recorded i d \<Rightarrow> i < n | _ \<Rightarrow> True)"

text \<open>Wrap-around is a congruence.\<close>

lemma int64_mod: "int64 x mod 2 ^ 64 = x mod 2 ^ 64"
  unfolding int64_def by (subst mod_diff_left_eq) simp

lemma int64_eqI: "x mod 2 ^ 64 = y mod 2 ^ 64 \<Longrightarrow> int64 x = int64 y"
  unfolding int64_def by (metis mod_add_left_eq)

lemma int64_add_left [simp]: "int64 (int64 x + y) = int64 (x + y)"
  by (rule int64_eqI) (metis int64_mod mod_add_left_eq)

lemma int64_add_right [simp]: "int64 (x + int64 y) = int64 (x + y)"
  using int64_add_left [of y x] by (simp add: add.commute)

lemma int64_diff [simp]: "int64 (int64 x - int64 y) = int64 (x - y)"
  by (rule int64_eqI) (metis int64_mod mod_diff_eq)

text \<open>
  What holds after the events \<open>es\<close> with the lines \<open>ls\<close> printed.
\<close>

definition accounts :: "nat \<Rightarrow> bench_event list \<Rightarrow> bench_state \<Rightarrow> report_line list \<Rightarrow> bool" where
  "accounts msgSize es s ls \<longleftrightarrow>
     bsProducedMsgs s = int64 (int (sent True es)) \<and> bsErrCount s = int64 (int (sent False es))
   \<and> bsProducedBytes s = int64 (int (sent True es) * int msgSize)
   \<and> mset (merged s) = (\<Sum>e \<leftarrow> es. recorded e)
   \<and> mset (concat (map rlSnap ls)) + mset (bsSecLatBuf s) = (\<Sum>e \<leftarrow> es. shared e)
   \<and> int64 (\<Sum>l \<leftarrow> ls. rlDeltaMsgs l) = bsPrevMsgs s \<and> int64 (\<Sum>l \<leftarrow> ls. rlDeltaErrs l) = bsPrevErrs s
   \<and> int64 (\<Sum>l \<leftarrow> ls. rlDeltaBytes l) = bsPrevBytes s"

lemma mset_concat_update:
  "i < length bufs \<Longrightarrow> mset (concat (bufs[i := bufs ! i @ [d]])) = add_mset d (mset (concat bufs))"
  by (induction bufs arbitrary: i) (auto split: nat.split)

lemma int64_sum_step: "int64 x = int64 a \<Longrightarrow> int64 (x + int64 (b - a)) = int64 b"
  by (metis add.commute diff_add_cancel int64_add_left)


lemmas accounting = accounts_def sent_def merged_def mset_concat_update

lemma accounts_tick:
  assumes "accounts msgSize es s ls" "reporter_tick s = (s', l)"
  shows "accounts msgSize (es @ [Tick]) s' (ls @ [l])"
proof -
  have "int64 (bsProducedMsgs s) = bsProducedMsgs s" "int64 (bsProducedBytes s) = bsProducedBytes s" "int64 (bsErrCount s) = bsErrCount s"
    using assms(1) by (simp_all add: accounts_def go_int)
  moreover have "int64 (bsPrevMsgs s) = bsPrevMsgs s" "int64 (bsPrevBytes s) = bsPrevBytes s" "int64 (bsPrevErrs s) = bsPrevErrs s"
    using assms(1) unfolding accounts_def by (metis int64_id is_int64_int64)+
  ultimately have
    "int64 ((\<Sum>l \<leftarrow> ls. rlDeltaMsgs l) + int64 (bsProducedMsgs s - bsPrevMsgs s)) = bsProducedMsgs s"
    "int64 ((\<Sum>l \<leftarrow> ls. rlDeltaBytes l) + int64 (bsProducedBytes s - bsPrevBytes s)) = bsProducedBytes s"
    "int64 ((\<Sum>l \<leftarrow> ls. rlDeltaErrs l) + int64 (bsErrCount s - bsPrevErrs s)) = bsErrCount s"
    using int64_sum_step assms(1) unfolding accounts_def by metis+
  moreover have "s' = fst (reporter_tick s)" "l = snd (reporter_tick s)" using assms(2) by simp_all
  ultimately show ?thesis using assms(1) by (simp add: accounting reporter_tick_def Let_def)
qed

lemma accounts_step:
  assumes "accounts msgSize es s ls" "own_bufs (length (bsLatBufs s)) e" "bench_step msgSize e s = (s', ls')"
  shows "accounts msgSize (es @ [e]) s' (ls @ ls')" "length (bsLatBufs s') = length (bsLatBufs s)"
proof -
  show "accounts msgSize (es @ [e]) s' (ls @ ls')"
  proof (cases "(msgSize, e, s)" rule: bench_step.cases)
    case (6 k t)
    then show ?thesis using assms(1,3) accounts_tick by (auto split: prod.splits)
  qed (use assms in \<open>auto simp: accounting own_bufs_def algebra_simps\<close>)
  show "length (bsLatBufs s') = length (bsLatBufs s)"
    using assms(3) by (cases "(msgSize, e, s)" rule: bench_step.cases) (auto simp: reporter_tick_def Let_def)
qed

lemma accounts_run:
  assumes "accounts msgSize es0 s0 ls0" "list_all (own_bufs (length (bsLatBufs s0))) es" "bench_run msgSize es s0 = (s, ls)"
  shows "accounts msgSize (es0 @ es) s (ls0 @ ls)"
  using assms
proof (induction es arbitrary: es0 s0 ls0 ls)
  case (Cons e es)
  obtain s1 ls1 where s1: "bench_step msgSize e s0 = (s1, ls1)" by force
  obtain ls2 where r: "bench_run msgSize es s1 = (s, ls2)" "ls = ls1 @ ls2"
    using Cons.prems(3) s1 by (auto split: prod.splits)
  have own: "own_bufs (length (bsLatBufs s0)) e" using Cons.prems(2) by simp
  from Cons.IH [OF accounts_step(1) [OF Cons.prems(1) own s1] _ r(1)] accounts_step(2) [OF Cons.prems(1) own s1] Cons.prems(2)
  show ?case using r(2) by simp
qed simp

lemma accounts_init: "accounts msgSize [] (bench_init n) []"
  by (simp add: accounts_def bench_init_def sent_def merged_def go_int)


section \<open>Properties\<close>


definition demo_events :: "bench_event list" where
  "demo_events = [Recorded 0 5, Recorded 1 9, Shared 9, Tick, Shared 5, Sent True, Received, Sent False, Tick] @ attempt_events 1 4 (Inr ())"



section \<open>The messages of the tool\<close>

lemma payload_props: "length (payload n) = n" "CHR 0x00 \<notin> set (payload n)"
proof -
  have "payload_byte i \<noteq> CHR 0x00" for i
  proof
    assume "payload_byte i = CHR 0x00"
    then have "of_char (payload_byte i) = (0::nat)" by simp
    moreover have "i mod 251 + 1 < 256" using mod_less_divisor [of 251 i] by linarith
    ultimately show False by (simp add: payload_byte_def)
  qed
  then have "CHR 0x00 \<noteq> payload_byte i" for i by metis
  then show "CHR 0x00 \<notin> set (payload n)" by (auto simp: payload_def)
qed (simp add: payload_def)

text \<open>Without routing, goroutine \<open>i\<close> sends to partition \<open>i mod partitions\<close> of the entry broker, without a key.\<close>

lemma bench_send_direct:
  assumes "0 < partitions" "int partitions < 2 ^ 31"
  shows "snd (bench_send getMetadata dial produce False topic partitions msgSize i pd) = map_sum id (\<lambda>_. ())
    (produce (pdClient pd) \<lparr>prTopic = topic, prPartition = int (i mod partitions), prKey = [], prValue = payload msgSize\<rparr>)"
proof -
  have "i mod partitions < partitions" using assms(1) by simp
  then have "int32 (int (i mod partitions)) = int (i mod partitions)" using assms(2) by (intro int32_id) (simp add: is_int32_def)
  then show ?thesis using assms(1) by (simp add: bench_send_def Send_def split: sum.split)
qed

end
