(* ===== verification/Bench_Main.thy ===== *)
theory Bench_Main
  imports Bench_Report
begin

text \<open>
  The throughput tool as a whole, \<open>main\<close> of src/cmd/throughput/main.go: the checks before a run, and the
  goroutines it starts.  The flags are arguments; \<open>openCSV\<close> says whether the output file can be created.  A
  slice of negative length and a remainder by zero panic.
\<close>

record bench_flags =
  bfBroker :: string
  bfCoordinator :: string
  bfTopic :: string
  bfPartitions :: int
  bfConcurrency :: int
  bfMsgSize :: int
  bfRoute :: bool
  bfCreate :: bool
  bfConsumers :: int
  bfCSV :: string

record bench_plan =
  bpProducer :: producer
  bpPartBroker :: "(int, string) gomap"
  bpConsumers :: "int list"
  bpProducers :: "(int \<times> bytes) list"

text \<open>The partitions of the consumer goroutines, and the partition and key of the producer goroutines.\<close>

definition spread :: "int \<Rightarrow> int \<Rightarrow> int list result" where
  "spread n partitions =
     (if 0 < n \<and> partitions = 0 then Inl GoPanic else Inr (map (\<lambda>i. int32 (int i smod partitions)) [0..<nat n]))"

definition bench_main :: "(string \<Rightarrow> bool) \<Rightarrow> (string \<Rightarrow> create_topic_request \<Rightarrow> unit result) \<Rightarrow>
    (string \<Rightarrow> create_topic_request \<Rightarrow> unit result) \<Rightarrow> (string \<Rightarrow> partition_info list result) \<Rightarrow> (string \<Rightarrow> partition_info list result) \<Rightarrow>
    (string \<Rightarrow> unit result) \<Rightarrow> bench_flags \<Rightarrow> bench_plan result" where
  "bench_main dial brokerCreate coordCreate getMeta getMeta1 openCSV f =
     (let consumers = (if bfConsumers f = 0 then bfPartitions f else bfConsumers f)
      in if bfRoute f \<and> bfCoordinator f = '''' then Inl (OtherError ''-route requires -coordinator'')
         else case (if bfCreate f then ensureTopic dial brokerCreate coordCreate (bfBroker f) (bfCoordinator f) (bfTopic f) (int32 (bfPartitions f))
                    else Inr ()) of
           Inl e \<Rightarrow> Inl e
         | Inr _ \<Rightarrow> (case checkPartitionLayout dial getMeta (bfBroker f) (bfCoordinator f) of
             Inl e \<Rightarrow> Inl e
           | Inr _ \<Rightarrow> (case producer_New dial (bfBroker f) of
               Inl e \<Rightarrow> Inl e
             | Inr p \<Rightarrow>
                (let p1 = (if bfCoordinator f \<noteq> '''' then producer_ConnectCoordinator dial p [bfCoordinator f] else p)
                 in case (if bfCSV f \<noteq> '''' then openCSV (bfCSV f) else Inr ()) of
                      Inl e \<Rightarrow> Inl e
                    | Inr _ \<Rightarrow>
                       if bfConcurrency f < 0 \<or> bfMsgSize f < 0 then Inl GoPanic
                       else (case spread consumers (bfPartitions f) of
                           Inl e \<Rightarrow> Inl e
                         | Inr cs \<Rightarrow> (case spread (bfConcurrency f) (bfPartitions f) of
                             Inl e \<Rightarrow> Inl e
                           | Inr ps \<Rightarrow> Inr \<lparr>bpProducer = p1,
                               bpPartBroker = fetchPartBroker dial getMeta1 (bfBroker f) (bfCoordinator f) [],
                               bpConsumers = cs, bpProducers = zip ps (map workerKey [0..<nat (bfConcurrency f)])\<rparr>))))))"

section \<open>Lemmas\<close>

lemma spread_default: "0 \<le> n \<Longrightarrow> is_int32 n \<Longrightarrow> spread n n = Inr [0..n - 1]"
proof -
  assume n: "0 \<le> n" "is_int32 n"
  have "int32 (int i smod n) = int i" if "i < nat n" for i
    using that n by (simp add: smod_nonneg int32_id is_int32_def)
  moreover have "[0..n - 1] = map int [0..<nat n]" using n(1) by (intro nth_equalityI) auto
  ultimately show ?thesis using n by (auto simp: spread_def)
qed

text \<open>More consumers than partitions read some partition twice, and the tool counts its messages twice.\<close>

lemma spread_twice: "0 < n \<Longrightarrow> n < m \<Longrightarrow> is_int32 n \<Longrightarrow> \<exists>cs. spread m n = Inr cs \<and> \<not> distinct cs"
proof -
  assume a: "0 < n" "n < m" "is_int32 n"
  let ?cs = "map (\<lambda>i. int32 (int i smod n)) [0..<nat m]"
  have "?cs ! 0 = ?cs ! nat n" "nat n < length ?cs" "0 < nat n" using a by (simp_all add: smod_nonneg)
  then have "\<not> distinct ?cs" by (metis nth_eq_iff_index_eq less_trans less_irrefl)
  then show ?thesis using a by (simp add: spread_def)
qed

section \<open>Properties\<close>


definition demo_flags :: bench_flags where
  "demo_flags = \<lparr>bfBroker = ''a:1'', bfCoordinator = '''', bfTopic = ''t'', bfPartitions = 1, bfConcurrency = 2, bfMsgSize = 8, bfRoute = False,
     bfCreate = True, bfConsumers = 0, bfCSV = ''''\<rparr>"


end
