(* ===== verification/Spec2Isabelle.thy ===== *)
theory Spec2Isabelle
  imports Election Command_Line Coordinator_Runs Processes Cluster Telemetry Consumer_Group Bench_Main
begin

text \<open>
  kafka-lite is a small replicated message broker written in Go.  This development models its code as
  executable HOL definitions and proves what makes it correct.

  \<^bold>\<open>The program.\<close>  A \<^emph>\<open>broker\<close> keeps partitions of topics; a \<^emph>\<open>partition\<close> is an append-only log with a role
  (leader or follower), an epoch and a high watermark; followers copy the leader's log over a stream and
  consumers see only messages below the high watermark.  A \<^emph>\<open>coordinator\<close>, replicated by a Raft library,
  registers brokers, lays out topics, tells brokers their roles, divides partitions among the members of
  consumer groups and moves leadership away from silent brokers.  \<^emph>\<open>Producers\<close> and \<^emph>\<open>consumers\<close> are client
  libraries; four \<^emph>\<open>commands\<close> start brokers and coordinators, give access from the command line and measure
  throughput.

  \<^bold>\<open>The theories\<close>, in the order of the calls:

  \<^item> \<open>Go_Prelude\<close>: Go integers with wrap-around, Go maps, errors as values, shared lemmas and the collections
    \<open>go_int\<close>, \<open>go_map\<close>, \<open>go_list\<close>.  \<open>Refinement\<close>: the interface of a functional refinement.
  \<^item> \<open>Log_Spec\<close>: messages and the specification of a partition log, with the locale \<open>partition_log\<close> that states what
    a log promises.  \<open>Mem_Log\<close> (src/internal/log/log.go) and \<open>File_Log\<close> with \<open>Json_Record\<close> (src/internal/log/file_log.go:
    segment bytes, index, recovery scan, JSON records) interpret it, and \<open>Any_Log\<close> is the dispatch between them.
  \<^item> \<open>Partition\<close> (src/internal/broker/partition.go): one definition per critical section; time is an argument.
  \<^item> \<open>Replication\<close>: \<open>FetchReplica\<close> (src/internal/broker/broker.go) and \<open>replicationLoop\<close> (partition.go) as a step relation of
    a leader, a follower and the stream between them.  \<open>Commit_Log\<close>: the specification that this pair implements.
    \<open>Catch_Up\<close>: the pair left to itself, each side doing what its code does next.  \<open>Replica_Set\<close>: a leader with any
    number of followers, each joined to it as in \<open>Replication\<close>, over any number of failovers.
  \<^item> \<open>Broker\<close> (src/internal/broker/broker.go): handlers, restoration from disk, heartbeats, the proxy.
  \<^item> \<open>Raft_FSM\<close> (src/internal/raft/fsm.go, node.go): the replicated state machine, its JSON commands and snapshots.
  \<^item> \<open>Assignment\<close>, \<open>Coordinator\<close> (src/internal/coordinator/coordinator.go): the handlers and the failover loop, each with the
    calls to brokers as part of its result.  \<open>Coordinator_Runs\<close>: arbitrary runs and the specification of the
    table of assignments.  \<open>Failover\<close>: the failover loop over its ticks, its start and
    stop.  \<open>Heartbeats\<close>: the heartbeat loop of a broker with the coordinators that hear it.  \<open>Cluster\<close>: the coordinator's calls carried out by the brokers.
    \<open>Election\<close>: the coordinator's choice of a leader as the failover of \<open>Replica_Set\<close>.
  \<^item> \<open>Producer\<close>, \<open>Consumer\<close> (src/internal/producer/producer.go, src/internal/consumer/consumer.go): routing by key hash,
    metadata cache, readers, groups, rebalancing and commits; the locale \<open>fetch_source\<close> states what a reader relies on.
  \<^item> \<open>Telemetry\<close> (src/internal/telemetry/grpc.go, src/internal/raft/telemetry.go): interceptors, and the logging
    transport as a step relation.
  \<^item> \<open>Commands\<close> (src/cmd/cli, src/cmd/broker, src/cmd/coordinator), \<open>Bench\<close>, \<open>Bench_Report\<close> and \<open>Bench_Main\<close> (src/cmd/throughput): the loops and the
    bookkeeping of the programs.  \<open>Command_Line\<close>: \<open>main\<close> of src/cmd/cli with its flags, its output and its exit code.  \<open>Consumer_Group\<close>: the coordinator and the members of a consumer group together.
    \<open>Processes\<close>: the construction of a Raft node (src/internal/raft/node.go) and both \<open>main\<close> functions up to the running servers.

  \<^bold>\<open>How code is modelled.\<close>  A struct is a record, a handler a function from the state and the request to the
  changed state and a result \<open>go_error + 'a\<close>.  What a program cannot control is an argument: the clock, whether
  dialling an address succeeds (\<open>dial\<close>), what Raft does with an entry (\<open>raft\<close>), what a remote call returns, the
  bytes on disk and where a write fails.  A gRPC client is the address it was dialled with.  A mutex makes a
  critical section atomic, so one definition is one critical section; where a method releases the
  mutex, its parts are separate definitions that other events may come between.  Integers are \<open>int\<close> with the
  conversions \<open>int64\<close>, \<open>int32\<close>, \<open>uint32\<close> written where the source could leave the range.

  \<^bold>\<open>What is shown.\<close>  Logs: both implementations behave like the specification and alike, and a crash in the
  middle of an append loses at most that append.  Partitions: the high watermark only rises, is exactly
  the in-sync minimum, and committed reads never change.  Replication: the follower's log is a prefix of the
  leader's in every reachable state, the pair refines one commit log, the follower always catches up, and what was
  committed survives every failover that promotes a longest log holding it.  Brokers: every partition stays under
  its own key, restarts restore every log, streams deliver committed messages in order.  Coordinator: the
  failover changes exactly what it should, the failover loop gives every partition a live leader if it has a live
  replica, a broker that sends heartbeats is not failed over, the backup it elects keeps what was committed if the reported log ends are current, the layout of partitions is kept well-formed in every run
  whatever Raft does, group members divide the partitions and together read the topic exactly once.  Clients: messages are routed to the leader of
  their key's partition, readers and group members deliver each committed message exactly once while
  membership is stable.  This theory adds the property that spans them: what a producer is told is stored is
  what a consumer reads.  Some theorems and lemmas show behaviour the code hardly intends; they say so.

  \<^bold>\<open>Loops and bounds.\<close>  Loops over data are structural; the scan of a segment, the drain of \<open>Fetch\<close> and repeated
  polls are total functions with a measure.  A loop that waits for the outside world takes the list of what
  it meets (answers of the network, ticks, rounds) and ends with it; a poll that has not returned by then is
  the value \<open>None\<close>.  No fuel is used.  Theorems about offsets assume fewer than \<open>2\<^sup>6\<^sup>3\<close> messages, and the one about
  percentiles fewer than \<open>2\<^sup>5\<^sup>3\<close> samples, more than memory holds.

  \<^bold>\<open>Not modelled.\<close>  The Raft library, gRPC and the generated protobuf code are third-party or generated and
  appear as parameters, and so does whether opening a log file or binding an address succeeds; TLS and the text on the
  standard error are left out.  The flags of the other programs (they add durations, whose fractions are parsed in
  floating point) are arguments.  A failover of \<open>Replica_Set\<close> is one step: the role changes that the coordinator sends one after the
  other are carried out one by one in \<open>Cluster\<close>.  Usage texts, the rate limiter, the CSV file and the
  floating-point rates printed by the throughput tool have no logic of their own.  The helpers of
  the Go tests (src/internal/testutil) are left out.
\<close>

section \<open>From producer to consumer\<close>

text \<open>The messages up to an offset below the high watermark are the committed ones, also later on.\<close>

lemma committed_after_run:
  assumes "committed_inv p" "pRole p = Leader" "leader_ops_ok p ops" "n < length (log_msgs (pLog p))"
    and "int n < pHw (leader_run p ops)"
  shows "committed (leader_run p ops) ! n = log_msgs (pLog p) ! n" "n < length (committed (leader_run p ops))"
proof -
  obtain ms where "log_msgs (pLog (leader_run p ops)) = log_msgs (pLog p) @ ms"
    using leader_run_correct [OF assms(1-3)] by blast
  then show "committed (leader_run p ops) ! n = log_msgs (pLog p) ! n" "n < length (committed (leader_run p ops))"
    using assms(4,5) by (simp_all add: committed_def nth_append)
qed

text \<open>What a successful \<open>Produce\<close> leaves in the partition.\<close>

lemma Produce_success:
  assumes "broker_inv b" "getPartition b (prTopic req) (prPartition req) = Inr p" "committed_inv p"
    and "log_storable (pLog p) (produced_msg req p)" "snd (Produce b req) = Inr off"
    and "getPartition (fst (Produce b req)) (prTopic req) (prPartition req) = Inr q"
  shows "off = int (length (log_msgs (pLog p)))" "log_msgs (pLog q) = log_msgs (pLog p) @ [produced_msg req p]"
    "committed_inv q" "pRole q = Leader"
proof -
  let ?m = "(produced_msg req p)\<lparr>msgOffset := 0\<rparr>"
  have m: "?m\<lparr>msgOffset := log_Len (pLog p)\<rparr> = produced_msg req p" by (simp add: produced_msg_def)
  have inv: "part_inv p" using assms(3) by (simp add: committed_inv_def)
  have q: "q = fst (Partition_Append p ?m)" using assms(2,6) by (simp add: Produce_set getPartition_set)
  have snd: "snd (Produce b req) = (case snd (Partition_Append p ?m) of
      Inl e \<Rightarrow> Inl (Status (if e = ErrNotLeader then FailedPrecondition else Internal)) | Inr off \<Rightarrow> Inr off)"
    using assms(2) by (auto simp: Produce_def produced_msg_def Let_def split: prod.splits sum.splits)
  have L: "pRole p = Leader"
    using snd assms(5) by (cases "pRole p") (simp_all add: Partition_Append_def Append_check_def)
  have st: "log_storable (pLog p) (?m\<lparr>msgOffset := log_Len (pLog p)\<rparr>)" using assms(4) m by simp
  note app = Partition_Append_leader [OF inv L st]
  show "off = int (length (log_msgs (pLog p)))"
    using snd app(1) assms(5) inv by (simp add: alog.len_msgs part_inv_def)
  show "log_msgs (pLog q) = log_msgs (pLog p) @ [produced_msg req p]" "committed_inv q" "pRole q = Leader"
    using app(2,6) m committed_inv_append(1) [OF assms(3) L st] by (simp_all add: q)
qed

text \<open>
  C1: End to end: a message that \<open>Route\<close> reports as stored at partition \<open>i\<close> and offset \<open>off\<close> is, once the
  high watermark of that partition has passed \<open>off\<close>, exactly what a consumer at that offset of that
  partition polls, whatever else the leader did in between.
\<close>

theorem produced_message_is_consumed:
  assumes "clients_ok pd" "metadata getMetadata pd topic = (pd1, Inr parts)"
    and "Route getMetadata dial (\<lambda>addr rq. snd (Produce (cluster addr) rq)) pd topic key val = (pd', Inr (i, off))"
    and "b = cluster (piBrokerAddr (parts ! nat i))" "req = \<lparr>prTopic = topic, prPartition = i, prKey = key, prValue = val\<rparr>"
    and "broker_inv b" "getPartition b topic i = Inr p" "committed_inv p" "log_storable (pLog p) (produced_msg req p)"
    and "getPartition (fst (Produce b req)) topic i = Inr q" "leader_ops_ok q ops"
    and "off < pHw (leader_run q ops)" "Partition_LogEndOffset (leader_run q ops) + 64 < 2 ^ 63"
    and "rdNextOffset pr = off" "rdStream pr = None" "serves net (broker_stream (leader_run q ops)) pr"
  shows "\<exists>pr'. reader_poll net [AnsOk, AnsOk] pr = Some (pr', [], Inr \<lparr>msgTopic = topic, msgPartition = i, msgKey = key,
      msgValue = val, msgOffset = off\<rparr>) \<and> rdNextOffset pr' = off + 1"
proof -
  let ?r = "leader_run q ops" and ?n = "length (log_msgs (pLog p))"
  have "snd (Produce b req) = Inr off" using Route_success(3) [OF assms(1-3)] assms(4,5) by simp
  with assms(5-10) have q: "off = int ?n" "log_msgs (pLog q) = log_msgs (pLog p) @ [produced_msg req p]" "committed_inv q" "pRole q = Leader"
    using Produce_success [of b req p off q] by simp_all
  have run: "committed ?r ! ?n = produced_msg req p" "?n < length (committed ?r)"
    using committed_after_run [OF q(3,4) assms(11), of ?n] q(1,2) assms(12) by simp_all
  have msg: "produced_msg req p = \<lparr>msgTopic = topic, msgPartition = i, msgKey = key, msgValue = val, msgOffset = off\<rparr>"
    using q(1) assms(5,8) by (simp add: produced_msg_def committed_inv_def part_inv_def alog.len_msgs)
  have "serving ?r" using leader_run_correct [OF q(3,4) assms(11)] assms(13) by (simp add: serving_def)
  moreover have "reader_ok pr" using assms(14,15) q(1) by (simp add: reader_ok_def)
  ultimately show ?thesis
    using broker_source.poll_survives [of ?r "[]" net pr] assms(14-16) q(1) run msg by simp
qed

definition demo_produce :: produce_request where
  "demo_produce = \<lparr>prTopic = ''t'', prPartition = 0, prKey = '''', prValue = ''hi''\<rparr>"

definition demo_after :: partition where
  "demo_after = projr (getPartition (fst (Produce demo_broker demo_produce)) ''t'' 0)"

theorem produced_message_is_consumed_witness:
  "\<exists>pr'. reader_poll (\<lambda>_. broker_stream demo_after) [AnsOk, AnsOk] demo_reader = Some (pr', [], Inr \<lparr>msgTopic = ''t'',
      msgPartition = 0, msgKey = '''', msgValue = ''hi'', msgOffset = 0\<rparr>) \<and> rdNextOffset pr' = 0 + 1"
proof (rule produced_message_is_consumed [where cluster = "\<lambda>_. demo_broker" and ops = "[]"])
  let ?p = "projr (getPartition demo_broker ''t'' 0)"
  let ?route = "Route (\<lambda>_ _. Inl (Status Internal)) (\<lambda>_. True) (\<lambda>addr rq. snd (Produce demo_broker rq)) demo_producer ''t'' '''' ''hi''"
  show "clients_ok demo_producer" by code_simp
  show "metadata (\<lambda>_ _. Inl (Status Internal)) demo_producer ''t'' = (demo_producer, Inr two_parts)" by code_simp
  show "?route = (fst ?route, Inr (0, 0))" by (rule prod_eqI) (simp_all only: fst_conv, code_simp)
  show "broker_inv demo_broker" "getPartition demo_broker ''t'' 0 = Inr ?p" "committed_inv ?p"
    "log_storable (pLog ?p) (produced_msg demo_produce ?p)" by code_simp+
  show "getPartition (fst (Produce demo_broker demo_produce)) ''t'' 0 = Inr demo_after" by code_simp
  show "leader_ops_ok demo_after []" "0 < pHw (leader_run demo_after [])"
    "Partition_LogEndOffset (leader_run demo_after []) + 64 < 2 ^ 63" by code_simp+
qed (simp_all add: demo_produce_def demo_reader_def new_reader_def serves_def)

end
